(* ===== verification/Rd_Prelude.thy ===== *)
theory Rd_Prelude
  imports "HOL-Library.Word"
begin

text \<open>
  Shared material of the development: the names of the machine types, the characters and the
  decimal notation the protocol is written in, and the operations of \<^verbatim>\<open>std::string\<close> and
  \<^verbatim>\<open><algorithm>\<close> that the sources use (\<^verbatim>\<open>std::search\<close>, \<^verbatim>\<open>find\<close>, \<^verbatim>\<open>rfind\<close>, \<^verbatim>\<open>substr\<close>,
  \<^verbatim>\<open>std::to_string\<close>, \<^verbatim>\<open>std::stoi\<close>, \<^verbatim>\<open>std::stoul\<close>).
  A \<^verbatim>\<open>char\<close> of the program is a \<^typ>\<open>char\<close> (one byte), a \<^verbatim>\<open>std::string\<close> or \<^verbatim>\<open>std::vector<char>\<close>
  a \<^typ>\<open>string\<close>. An \<^verbatim>\<open>int64_t\<close> is a \<^typ>\<open>64 word\<close> read with \<^const>\<open>sint\<close>, an \<^verbatim>\<open>int\<close> a
  \<^typ>\<open>32 word\<close>; a position or a size that is bounded by a buffer in memory is a \<^typ>\<open>nat\<close>.
\<close>

section \<open>Names and collections\<close>

named_theorems rd_defs \<open>unfolding rules of the small non-recursive definitions\<close>
named_theorems rd_chars \<open>facts on single characters of the protocol\<close>

type_synonym int64 = "64 word"
type_synonym int32 = "32 word"
type_synonym size64 = "64 word"

text \<open>\<^verbatim>\<open>std::string::npos\<close> is \<^const>\<open>None\<close> wherever a search returns a position.\<close>

type_synonym pos = "nat option"

section \<open>Characters and the terminator\<close>

definition CR :: char where [rd_chars]: "CR = CHR 0x0D"
definition LF :: char where [rd_chars]: "LF = CHR 0x0A"
definition NUL :: char where [rd_chars]: "NUL = CHR 0x00"

abbreviation crlf :: string where "crlf \<equiv> [CR, LF]"

lemma CR_neq_LF [simp]: "CR \<noteq> LF" "LF \<noteq> CR"
  by (simp_all add: rd_chars)

definition is_digit :: "char \<Rightarrow> bool" where
  "is_digit c \<longleftrightarrow> 48 \<le> (of_char c :: nat) \<and> (of_char c :: nat) \<le> 57"

definition digit_val :: "char \<Rightarrow> nat" where
  "digit_val c = of_char c - 48"

definition digit_char :: "nat \<Rightarrow> char" where
  "digit_char d = char_of (48 + d)"

lemma of_char_digit_char: "d < 10 \<Longrightarrow> (of_char (digit_char d) :: nat) = 48 + d"
  by (simp add: digit_char_def)

lemma is_digit_digit_char [simp]: "d < 10 \<Longrightarrow> is_digit (digit_char d)"
  by (simp add: is_digit_def of_char_digit_char)

lemma digit_val_digit_char [simp]: "d < 10 \<Longrightarrow> digit_val (digit_char d) = d"
  by (simp add: digit_val_def of_char_digit_char)

lemma digit_not_special [simp]:
  "\<not> is_digit CR" "\<not> is_digit LF" "\<not> is_digit (CHR ''-'')" "\<not> is_digit (CHR ''+'')"
  by (simp_all add: is_digit_def rd_chars)

section \<open>Decimal notation\<close>

text \<open>\<^verbatim>\<open>%zu\<close> of a \<^verbatim>\<open>size_t\<close> and \<^verbatim>\<open>std::to_string\<close> of an unsigned value.\<close>

fun dec_nat :: "nat \<Rightarrow> string" where
  "dec_nat n = (if n < 10 then [digit_char n] else dec_nat (n div 10) @ [digit_char (n mod 10)])"

declare dec_nat.simps [simp del]

text \<open>\<^verbatim>\<open>std::to_string\<close> of a signed value.\<close>

definition dec_int :: "int \<Rightarrow> string" where
  "dec_int i = (if i < 0 then CHR ''-'' # dec_nat (nat (- i)) else dec_nat (nat i))"

definition digits_value :: "string \<Rightarrow> nat" where
  "digits_value ds = foldl (\<lambda>a c. 10 * a + digit_val c) 0 ds"

lemma digits_value_snoc [simp]: "digits_value (ds @ [c]) = 10 * digits_value ds + digit_val c"
  by (simp add: digits_value_def)

lemma digits_value_Nil [simp]: "digits_value [] = 0"
  by (simp add: digits_value_def)

lemma dec_nat_value [simp]: "digits_value (dec_nat n) = n"
proof (induction n rule: dec_nat.induct)
  case (1 n)
  show ?case
  proof (cases "n < 10")
    case True
    then show ?thesis
      using digits_value_snoc[of "[]" "digit_char n"] by (simp add: dec_nat.simps)
  next
    case False
    with 1 have "digits_value (dec_nat (n div 10)) = n div 10" by simp
    with False show ?thesis by (subst dec_nat.simps) simp
  qed
qed

lemma dec_nat_digits: "c \<in> set (dec_nat n) \<Longrightarrow> is_digit c"
proof (induction n rule: dec_nat.induct)
  case (1 n)
  then show ?case
    by (cases "n < 10") (auto simp: dec_nat.simps[of n])
qed

lemma dec_nat_not_Nil [simp]: "dec_nat n \<noteq> []"
  by (subst dec_nat.simps) simp

lemma dec_nat_inj [simp]: "dec_nat m = dec_nat n \<longleftrightarrow> m = n"
  by (metis dec_nat_value)

lemma takeWhile_dec_nat:
  assumes "rest = [] \<or> \<not> is_digit (hd rest)"
  shows "takeWhile is_digit (dec_nat n @ rest) = dec_nat n"
    and "dropWhile is_digit (dec_nat n @ rest) = rest"
proof -
  have d: "\<forall>c\<in>set (dec_nat n). is_digit c" by (auto dest: dec_nat_digits)
  from assms have "takeWhile is_digit rest = []" "dropWhile is_digit rest = rest"
    by (cases rest; auto)+
  with d show "takeWhile is_digit (dec_nat n @ rest) = dec_nat n"
    and "dropWhile is_digit (dec_nat n @ rest) = rest"
    by (simp_all add: takeWhile_append2 dropWhile_append2)
qed

lemma dec_int_chars: "c \<in> set (dec_int i) \<Longrightarrow> is_digit c \<or> c = CHR ''-''"
  by (auto simp: dec_int_def split: if_splits dest: dec_nat_digits)

lemma CR_notin_dec [simp]: "CR \<notin> set (dec_nat n)" "CR \<notin> set (dec_int i)"
proof -
  show "CR \<notin> set (dec_nat n)" using dec_nat_digits digit_not_special(1) by blast
  have "CR \<noteq> CHR ''-''" by (simp add: rd_chars)
  then show "CR \<notin> set (dec_int i)" using dec_int_chars digit_not_special(1) by blast
qed

lemma dec_int_not_Nil [simp]: "dec_int i \<noteq> []"
  by (simp add: dec_int_def)

lemma dec_int_of_nat: "dec_int (int n) = dec_nat n"
  by (simp add: dec_int_def)

section \<open>Searching: std::search, std::string::find, rfind, substr\<close>

text \<open>The first position at which the pattern occurs.\<close>

fun search :: "'a list \<Rightarrow> 'a list \<Rightarrow> pos" where
  "search pat [] = (if pat = [] then Some 0 else None)"
| "search pat (x # xs) =
     (if take (length pat) (x # xs) = pat then Some 0 else map_option Suc (search pat xs))"

lemma search_Some:
  "search pat s = Some i \<Longrightarrow> i + length pat \<le> length s \<and> take (length pat) (drop i s) = pat"
proof (induction s arbitrary: i)
  case Nil
  then show ?case by (auto split: if_splits)
next
  case (Cons x xs)
  show ?case
  proof (cases "take (length pat) (x # xs) = pat")
    case True
    with Cons.prems have "i = 0" by simp
    with True show ?thesis by (metis add_0 drop0 length_take min.cobounded1)
  next
    case False
    with Cons.prems obtain j where "search pat xs = Some j" "i = Suc j" by auto
    with Cons.IH show ?thesis by simp
  qed
qed

lemma search_append:
  "search pat s = Some i \<Longrightarrow> search pat (s @ t) = Some i"
proof (induction s arbitrary: i)
  case Nil
  then show ?case by (cases t) (auto split: if_splits)
next
  case (Cons x xs)
  show ?case
  proof (cases "take (length pat) (x # xs) = pat")
    case True
    then have "length pat \<le> length (x # xs)" by (metis length_take min.cobounded1)
    with True have "take (length pat) (x # xs @ t) = pat"
      by (metis append_Cons append_Nil2 diff_is_0_eq take0 take_append)
    with True Cons.prems show ?thesis by simp
  next
    case False
    with Cons.prems obtain j where j: "search pat xs = Some j" "i = Suc j" by auto
    from search_Some[OF j(1)] have "length pat \<le> length xs" by simp
    then have "take (length pat) (x # xs @ t) = take (length pat) (x # xs)"
      by (metis append_Cons append_Nil2 diff_is_0_eq le_SucI length_Cons take0 take_append)
    with False j Cons.IH show ?thesis by simp
  qed
qed

text \<open>An occurrence that the text before it does not overlap is the one that is found.\<close>

lemma search_crlf_line:
  assumes "CR \<notin> set l"
  shows "search crlf (l @ crlf @ rest) = Some (length l)"
  using assms
proof (induction l)
  case Nil
  then show ?case by simp
next
  case (Cons x xs)
  then show ?case by (auto simp: take_Cons')
qed

lemma search_take:
  assumes "search pat s = Some i" and "i + length pat \<le> k"
  shows "search pat (take k s) = Some i"
  using assms
proof (induction s arbitrary: i k)
  case Nil
  then show ?case by (auto split: if_splits)
next
  case (Cons x xs)
  show ?case
  proof (cases "take (length pat) (x # xs) = pat")
    case True
    with Cons.prems have i: "i = 0" and k: "length pat \<le> k" by auto
    then have *: "take (length pat) (take k (x # xs)) = pat"
      using True by (simp add: min_def)
    show ?thesis
    proof (cases k)
      case 0
      with k i show ?thesis by simp
    next
      case (Suc k')
      with * i show ?thesis by simp
    qed
  next
    case False
    with Cons.prems obtain j where j: "search pat xs = Some j" "i = Suc j" by auto
    with Cons.prems obtain k' where k': "k = Suc k'" "j + length pat \<le> k'"
      by (cases k) auto
    with Cons.prems(2) j have "take (length pat) (take k (x # xs)) \<noteq> pat"
      using False by (simp only: take_take min_def) simp
    with k' j Cons.IH[OF j(1) k'(2)] show ?thesis by simp
  qed
qed

lemma search_take_None:
  assumes "search pat s = Some i" and "k < i + length pat" and "pat \<noteq> []"
  shows "search pat (take k s) = None"
proof (rule ccontr)
  assume "search pat (take k s) \<noteq> None"
  then obtain j where j: "search pat (take k s) = Some j" by auto
  from search_append[OF j, of "drop k s"] have "search pat s = Some j" by simp
  with assms(1) have "i = j" by simp
  with search_Some[OF j] assms(2) show False by simp
qed

definition find_from :: "'a list \<Rightarrow> 'a list \<Rightarrow> nat \<Rightarrow> pos" where
  \<comment> \<open>\<^verbatim>\<open>s.find(pat, start)\<close>\<close>
  "find_from s pat start = (if start \<le> length s then map_option ((+) start) (search pat (drop start s)) else None)"

fun rfind :: "'a list \<Rightarrow> 'a \<Rightarrow> pos" where
  \<comment> \<open>\<^verbatim>\<open>s.rfind(c)\<close>: the last position of a character\<close>
  "rfind [] c = None"
| "rfind (x # xs) c =
     (case rfind xs c of Some i \<Rightarrow> Some (Suc i) | None \<Rightarrow> if x = c then Some 0 else None)"

definition substr :: "'a list \<Rightarrow> nat \<Rightarrow> pos \<Rightarrow> 'a list" where
  \<comment> \<open>\<^verbatim>\<open>s.substr(p, n)\<close> for \<^verbatim>\<open>p <= s.size()\<close>; the count \<^verbatim>\<open>npos\<close> reads to the end\<close>
  "substr s p n = (case n of None \<Rightarrow> drop p s | Some k \<Rightarrow> take k (drop p s))"

lemma find_from_append: "find_from (p @ r) pat (length p) = map_option ((+) (length p)) (search pat r)"
  by (simp add: find_from_def)

lemma substr_append:
  "substr (p @ r) (length p) None = r" "substr (p @ r) (length p) (Some k) = take k r"
  by (simp_all add: substr_def)

lemma rfind_None [simp]: "rfind s c = None \<longleftrightarrow> c \<notin> set s"
  by (induction s) (auto split: option.splits)

lemma rfind_last: "c \<notin> set t \<Longrightarrow> rfind (s @ c # t) c = Some (length s)"
  by (induction s) (auto split: option.splits)

lemma search_single: "c \<notin> set s \<Longrightarrow> search [c] (s @ c # t) = Some (length s)"
  by (induction s) auto

lemma search_single_None: "search [c] s = None \<longleftrightarrow> c \<notin> set s"
  by (induction s) auto

section \<open>Reading numbers: std::stoi and std::stoul\<close>

text \<open>
  \<^verbatim>\<open>strtol\<close> and \<^verbatim>\<open>strtoul\<close> in base 10: white space is skipped, one sign is read, then the longest
  run of digits. The result is the sign, the magnitude and the number of characters read, or
  \<^const>\<open>None\<close> when there is no digit (\<^verbatim>\<open>std::invalid_argument\<close>).
\<close>

definition is_space :: "char \<Rightarrow> bool" where
  "is_space c \<longleftrightarrow> (let n = (of_char c :: nat) in n = 32 \<or> 9 \<le> n \<and> n \<le> 13)"

definition read_sign :: "string \<Rightarrow> bool \<times> string" where
  "read_sign s = (case s of
      [] \<Rightarrow> (False, s)
    | c # cs \<Rightarrow> if c = CHR ''-'' then (True, cs) else if c = CHR ''+'' then (False, cs) else (False, s))"

definition read_number :: "string \<Rightarrow> (bool \<times> nat \<times> nat) option" where
  "read_number s =
     (let s1 = dropWhile is_space s;
          (neg, s2) = read_sign s1;
          ds = takeWhile is_digit s2
      in if ds = [] then None
         else Some (neg, digits_value ds, length s - length (dropWhile is_digit s2)))"

definition stoi :: "string \<Rightarrow> int32 option" where
  \<comment> \<open>\<^verbatim>\<open>std::stoi(s)\<close>; \<^const>\<open>None\<close> is \<^verbatim>\<open>invalid_argument\<close> or \<^verbatim>\<open>out_of_range\<close>\<close>
  "stoi s = (case read_number s of
      None \<Rightarrow> None
    | Some (neg, n, k) \<Rightarrow>
        let v = (if neg then - int n else int n)
        in if - (2 ^ 31) \<le> v \<and> v < 2 ^ 31 then Some (word_of_int v) else None)"

definition stoul :: "string \<Rightarrow> (size64 \<times> nat) option" where
  \<comment> \<open>\<^verbatim>\<open>std::stoul(s, &pos)\<close>: a magnitude over \<^verbatim>\<open>ULONG_MAX\<close> is \<^verbatim>\<open>out_of_range\<close>, a minus sign negates
      the unsigned value\<close>
  "stoul s = (case read_number s of
      None \<Rightarrow> None
    | Some (neg, n, k) \<Rightarrow>
        if n < 2 ^ 64 then Some (if neg then - of_nat n else of_nat n, k) else None)"

lemma read_number_dec:
  assumes "rest = [] \<or> \<not> is_digit (hd rest)"
  shows "read_number (dec_nat n @ rest) = Some (False, n, length (dec_nat n))"
proof -
  obtain c cs where c: "dec_nat n = c # cs" by (cases "dec_nat n") auto
  then have d: "is_digit c" by (metis dec_nat_digits list.set_intros(1))
  then have sp: "\<not> is_space c" and sg: "c \<noteq> CHR ''-''" "c \<noteq> CHR ''+''"
    by (auto simp: is_digit_def is_space_def Let_def)
  have s1: "dropWhile is_space (dec_nat n @ rest) = dec_nat n @ rest"
    using c sp by simp
  have s2: "read_sign (dec_nat n @ rest) = (False, dec_nat n @ rest)"
    using c sg by (simp add: read_sign_def)
  show ?thesis
    unfolding read_number_def Let_def s1 s2
    by (simp add: takeWhile_dec_nat[OF assms])
qed

section \<open>Threads\<close>

type_synonym thread_id = nat

text \<open>The sum over \<open>N\<close> threads of what each holds at its point.\<close>

definition all_threads :: "nat \<Rightarrow> ('p \<Rightarrow> 'a :: comm_monoid_add) \<Rightarrow> (thread_id \<Rightarrow> 'p option) \<Rightarrow> 'a" where
  "all_threads N f pts = (\<Sum>t<N. case pts t of None \<Rightarrow> 0 | Some pt \<Rightarrow> f pt)"

lemma all_threads_none [simp]: "all_threads N f (\<lambda>_. None) = 0"
  by (simp add: all_threads_def)

lemma all_threads_split:
  assumes "t < N"
  shows "all_threads N f pts = (case pts t of None \<Rightarrow> 0 | Some pt \<Rightarrow> f pt) + all_threads N f (pts(t := None))"
proof -
  have "all_threads N f h = (case h t of None \<Rightarrow> 0 | Some pt \<Rightarrow> f pt) +
      (\<Sum>u\<in>{..<N} - {t}. case h u of None \<Rightarrow> 0 | Some pt \<Rightarrow> f pt)" for h
    using assms unfolding all_threads_def by (intro sum.remove) auto
  moreover have "(\<Sum>u\<in>{..<N} - {t}. case (pts(t := None)) u of None \<Rightarrow> 0 | Some pt \<Rightarrow> f pt) =
      (\<Sum>u\<in>{..<N} - {t}. case pts u of None \<Rightarrow> 0 | Some pt \<Rightarrow> f pt)"
    by (rule sum.cong) auto
  ultimately show ?thesis by simp
qed

lemma all_threads_update:
  "t < N \<Longrightarrow> all_threads N f (pts(t := x)) =
     (case x of None \<Rightarrow> 0 | Some pt \<Rightarrow> f pt) + all_threads N f (pts(t := None))"
  using all_threads_split[of t N f "pts(t := x)"] by simp

end
