(* ===== verification/Rd_Error.thy ===== *)
theory Rd_Error
  imports Rd_Prelude
begin

text \<open>
  \<^verbatim>\<open>include/redis_async/error.hpp\<close> and \<^verbatim>\<open>src/error.cpp\<close>: the protocol error codes with their
  category, and the exception classes of the library. An exception object is a value: what the
  program throws is an \<open>Inl\<close> of the model.
\<close>

section \<open>Protocol error codes\<close>

datatype errc =
  wrong_introduction | parser_error | count_conversion | count_range | bulk_terminator
| not_enough_data

fun errc_value :: "errc \<Rightarrow> int" where
  "errc_value wrong_introduction = 1"
| "errc_value parser_error = 2"
| "errc_value count_conversion = 3"
| "errc_value count_range = 4"
| "errc_value bulk_terminator = 5"
| "errc_value not_enough_data = 6"

definition category_name :: string where
  "category_name = ''redis_async''"

definition category_message :: "int \<Rightarrow> string" where
  "category_message ev =
     (if ev = errc_value wrong_introduction then ''Wrong introduction''
      else if ev = errc_value parser_error then ''Parser error''
      else if ev = errc_value count_conversion then ''Cannot convert count to number''
      else if ev = errc_value count_range then ''Unacceptable count value''
      else if ev = errc_value bulk_terminator then ''Terminator for bulk string not found''
      else if ev = errc_value not_enough_data
        then ''Buffer just does not contain enough information to completely parse it''
      else ''Unknown protocol error'')"

text \<open>A \<^verbatim>\<open>std::error_code\<close> is its value and its category; only one category is used.\<close>

record error_code =
  ec_value :: int
  ec_category :: string

definition make_error_code :: "errc \<Rightarrow> error_code" where
  "make_error_code e = \<lparr>ec_value = errc_value e, ec_category = category_name\<rparr>"

definition ec_message :: "error_code \<Rightarrow> string" where
  \<comment> \<open>\<^verbatim>\<open>std::error_code::message\<close> dispatches to the category\<close>
  "ec_message c = category_message (ec_value c)"

section \<open>Exceptions\<close>

text \<open>The classes derived from \<^verbatim>\<open>rd_error\<close>, each with its message.\<close>

datatype rd_error =
  connection_error string
| query_error string
| client_error string

fun what :: "rd_error \<Rightarrow> string" where
  "what (connection_error m) = m"
| "what (query_error m) = m"
| "what (client_error m) = m"

text \<open>Anything a user's callback may throw.\<close>

datatype thrown =
  Rd_error rd_error
| Std_exception string
| Other_exception

definition client_error_of :: "string \<Rightarrow> rd_error" where
  \<comment> \<open>the constructor of \<^verbatim>\<open>client_error\<close> from a \<^verbatim>\<open>std::exception\<close> whose \<^verbatim>\<open>what()\<close> is given\<close>
  "client_error_of m = client_error (''Client thrown exception: '' @ m)"

section \<open>Facts\<close>

lemma errc_value_inj: "errc_value a = errc_value b \<Longrightarrow> a = b"
  by (cases a; cases b) simp_all

lemma make_error_code_inj [simp]: "make_error_code a = make_error_code b \<longleftrightarrow> a = b"
  by (auto simp: make_error_code_def dest: errc_value_inj)

lemma ec_message_known: "ec_message (make_error_code e) \<noteq> ''Unknown protocol error''"
  by (cases e) (simp_all add: ec_message_def make_error_code_def category_message_def)

lemma ec_message_inj: "ec_message (make_error_code a) = ec_message (make_error_code b) \<Longrightarrow> a = b"
  by (cases a; cases b) (simp_all add: ec_message_def make_error_code_def category_message_def)

end
