(* ===== verification/Rd_Types.thy ===== *)
theory Rd_Types
  imports Rd_Error
begin

text \<open>
  \<^verbatim>\<open>include/redis_async/rd_types.hpp\<close> and \<^verbatim>\<open>details/protocol/parser_types.hpp\<close>: the values a reply
  can carry and the outcomes of parsing one. A \<^verbatim>\<open>std::variant\<close> is a datatype with one constructor
  per alternative; \<^verbatim>\<open>std::get\<close> on the wrong alternative is the exception
  \<open>bad_variant_access\<close>.
\<close>

section \<open>Values\<close>

datatype result_t =
  Int_t int64
| String_t string
| Nil_t
| Array_t "result_t list"

text \<open>The stream output of a value: \<^verbatim>\<open>operator<<\<close> of \<^verbatim>\<open>nil_t\<close> and \<^verbatim>\<open>array_holder_t\<close>, and of the standard
  types inside the visitor.\<close>

fun put_result :: "result_t \<Rightarrow> string" where
  "put_result (Int_t i) = dec_int (sint i)"
| "put_result (String_t s) = s"
| "put_result Nil_t = ''{NIL_t}''"
| "put_result (Array_t xs) =
     ''{ARRAY_t}'' @ [LF] @ concat (map (\<lambda>v. [CHR 0x09] @ put_result v @ [LF]) xs)"

section \<open>Outcomes of the parser\<close>

datatype parse_result_t =
  Protocol_error error_code
| Error_reply string nat
| Positive result_t nat

definition bad_variant_access :: thrown where
  "bad_variant_access = Std_exception ''bad_variant_access''"

fun get_string :: "result_t \<Rightarrow> thrown + string" where
  \<comment> \<open>\<^verbatim>\<open>std::get<string_t>\<close>\<close>
  "get_string (String_t s) = Inr s"
| "get_string _ = Inl bad_variant_access"

fun get_int :: "result_t \<Rightarrow> thrown + int64" where
  \<comment> \<open>\<^verbatim>\<open>std::get<int_t>\<close>\<close>
  "get_int (Int_t i) = Inr i"
| "get_int _ = Inl bad_variant_access"

text \<open>The number of nodes of a value, for inductions that go through nested arrays.\<close>

fun result_nodes :: "result_t \<Rightarrow> nat" where
  "result_nodes (Array_t xs) = Suc (sum_list (map result_nodes xs))"
| "result_nodes _ = 1"

lemma result_nodes_pos [simp]: "0 < result_nodes r"
  by (cases r) auto

end
