(* ===== verification/Rd_Parser.thy ===== *)
theory Rd_Parser
  imports Rd_Types
begin

text \<open>
  \<^verbatim>\<open>details/protocol/markup_helper.hpp\<close> and \<^verbatim>\<open>details/protocol/parser.hpp\<close>: the reply parser. A pair of
  iterators \<open>from, to\<close> is the text between them, so advancing \<^verbatim>\<open>from\<close> drops characters.

  Two things the parser uses are not in the sources and are parameters of the model, the fields
  of \<open>penv\<close>: \<^verbatim>\<open>boost::lexical_cast<int64_t>\<close> (\<^const>\<open>None\<close> is \<^verbatim>\<open>bad_lexical_cast\<close>) and the allocator behind
  \<^verbatim>\<open>std::vector::reserve\<close> (which exception, if any, a reservation of the given size raises).
  An exception that leaves the parser is an \<open>Inl\<close>.
\<close>

record penv =
  lexical_cast :: "string \<Rightarrow> int64 option"
  reserve_throws :: "nat \<Rightarrow> thrown option"

section \<open>markup_helper_t\<close>

definition markup_string :: "nat \<Rightarrow> string \<Rightarrow> parse_result_t" where
  "markup_string consumed str = Positive (String_t str) consumed"

definition markup_nil :: "nat \<Rightarrow> parse_result_t" where
  "markup_nil consumed = Positive Nil_t consumed"

definition markup_error :: "result_t \<Rightarrow> nat \<Rightarrow> thrown + parse_result_t" where
  "markup_error result consumed =
     (case get_string result of
        Inl t \<Rightarrow> Inl t
      | Inr str \<Rightarrow> Inr (Error_reply str consumed))"

definition bad_lexical_cast :: thrown where
  "bad_lexical_cast = Std_exception ''bad_lexical_cast''"

definition markup_int :: "penv \<Rightarrow> result_t \<Rightarrow> nat \<Rightarrow> thrown + parse_result_t" where
  "markup_int env result consumed =
     (case get_string result of
        Inl t \<Rightarrow> Inl t
      | Inr str \<Rightarrow>
          (case lexical_cast env str of
             None \<Rightarrow> Inl bad_lexical_cast
           | Some i \<Rightarrow> Inr (Positive (Int_t i) consumed)))"

definition markup_protocol_error :: "errc \<Rightarrow> parse_result_t" where
  "markup_protocol_error ec = Protocol_error (make_error_code ec)"

section \<open>The parsers of the five kinds of reply\<close>

abbreviation terminator :: string where "terminator \<equiv> crlf"

definition string_parser :: "string \<Rightarrow> nat \<Rightarrow> parse_result_t" where
  "string_parser s already_consumed =
     (case search terminator s of
        None \<Rightarrow> markup_protocol_error not_enough_data
      | Some i \<Rightarrow> markup_string (length terminator + i + already_consumed) (take i s))"

definition error_parser :: "string \<Rightarrow> nat \<Rightarrow> thrown + parse_result_t" where
  "error_parser s already_consumed =
     (let result = string_parser s already_consumed in
      case result of
        Positive r consumed \<Rightarrow> markup_error r consumed
      | _ \<Rightarrow> Inr result)"

definition int_parser :: "penv \<Rightarrow> string \<Rightarrow> nat \<Rightarrow> parse_result_t" where
  \<comment> \<open>every exception of \<^verbatim>\<open>markup_int\<close> is a \<^verbatim>\<open>std::exception\<close> and is caught\<close>
  "int_parser env s already_consumed =
     (let result = string_parser s already_consumed in
      case result of
        Positive r consumed \<Rightarrow>
          (case markup_int env r consumed of
             Inl _ \<Rightarrow> markup_protocol_error count_conversion
           | Inr res \<Rightarrow> res)
      | _ \<Rightarrow> result)"

definition bulk_string_parser :: "penv \<Rightarrow> string \<Rightarrow> nat \<Rightarrow> thrown + parse_result_t" where
  \<comment> \<open>\<^verbatim>\<open>left < count + terminator_size\<close> compares unsigned 64-bit values\<close>
  "bulk_string_parser env s already_consumed =
     (let count_result = int_parser env s already_consumed in
      case count_result of
        Positive r n \<Rightarrow>
          (let head = drop (n - already_consumed) s; left = length head in
           case get_int r of
             Inl t \<Rightarrow> Inl t
           | Inr count \<Rightarrow>
               if count = - 1 then Inr (markup_nil n)
               else if count <s - 1 then Inr (markup_protocol_error count_range)
               else if int left < uint (count + of_nat (length terminator))
                 then Inr (markup_protocol_error not_enough_data)
               else
                 let k = nat (sint count); tail = drop k head in
                 if take (length terminator) tail \<noteq> terminator
                   then Inr (markup_protocol_error bulk_terminator)
                 else Inr (markup_string (n + k + length terminator) (take k head)))
      | _ \<Rightarrow> Inr count_result)"

text \<open>The parser selected by the first character.\<close>

datatype primary_parser =
  Primary_error error_code
| Primary_string
| Primary_int
| Primary_error_reply
| Primary_bulk_string
| Primary_array

definition construct_primary_parser :: "string \<Rightarrow> primary_parser" where
  "construct_primary_parser s =
     (case s of
        [] \<Rightarrow> Primary_error (make_error_code not_enough_data)
      | c # _ \<Rightarrow>
          if c = CHR ''+'' then Primary_string
          else if c = CHR ''-'' then Primary_error_reply
          else if c = CHR '':'' then Primary_int
          else if c = CHR ''$'' then Primary_bulk_string
          else if c = CHR ''*'' then Primary_array
          else Primary_error (make_error_code wrong_introduction))"

lemma construct_array [dest]: "construct_primary_parser s = Primary_array \<Longrightarrow> s \<noteq> []"
  by (auto simp: construct_primary_parser_def)

text \<open>
  \<^verbatim>\<open>raw_parse\<close>, \<^verbatim>\<open>array_parser_t\<close> and the loop of the latter call each other. The loop carries the
  number of elements still to be read, the text they are read from, the elements read so far and
  the number of characters consumed.
\<close>

function raw_parse :: "penv \<Rightarrow> string \<Rightarrow> thrown + parse_result_t"
  and array_parser :: "penv \<Rightarrow> string \<Rightarrow> nat \<Rightarrow> thrown + parse_result_t"
  and array_loop :: "penv \<Rightarrow> nat \<Rightarrow> string \<Rightarrow> result_t list \<Rightarrow> nat \<Rightarrow> thrown + parse_result_t"
where
  "raw_parse env s =
     (case construct_primary_parser s of
        Primary_error code \<Rightarrow> Inr (Protocol_error code)
      | Primary_string \<Rightarrow> Inr (string_parser (tl s) 1)
      | Primary_int \<Rightarrow> Inr (int_parser env (tl s) 1)
      | Primary_error_reply \<Rightarrow> error_parser (tl s) 1
      | Primary_bulk_string \<Rightarrow> bulk_string_parser env (tl s) 1
      | Primary_array \<Rightarrow> array_parser env (tl s) 1)"
| "array_parser env s already_consumed =
     (let count_result = int_parser env s already_consumed in
      case count_result of
        Positive r n \<Rightarrow>
          (case get_int r of
             Inl t \<Rightarrow> Inl t
           | Inr count \<Rightarrow>
               if count = - 1 then Inr (markup_nil n)
               else if count <s - 1 then Inr (markup_protocol_error count_range)
               else
                 case reserve_throws env (nat (sint count)) of
                   Some t \<Rightarrow> Inl t
                 | None \<Rightarrow>
                     array_loop env (nat (sint count)) (drop (n - already_consumed) s) [] n)
      | _ \<Rightarrow> Inr count_result)"
| "array_loop env count element_from elements consumed =
     (if count = 0 then Inr (Positive (Array_t elements) consumed)
      else
        case raw_parse env element_from of
          Inl t \<Rightarrow> Inl t
        | Inr (Positive r n) \<Rightarrow>
            array_loop env (count - 1) (drop n element_from) (elements @ [r]) (consumed + n)
        | Inr element_result \<Rightarrow> Inr element_result)"
  by pat_completeness auto

text \<open>
  The text gets shorter, or it stays and the call is further down in the order array parser, loop,
  element, or it stays in the loop and one element less is to be read.
\<close>

termination
  by (relation "measures
        [\<lambda>x. case x of Inl (_, s) \<Rightarrow> length s
                     | Inr (Inl (_, s, _)) \<Rightarrow> length s
                     | Inr (Inr (_, _, s, _)) \<Rightarrow> length s,
         \<lambda>x. case x of Inl _ \<Rightarrow> 0 | Inr (Inl _) \<Rightarrow> 2 | Inr (Inr _) \<Rightarrow> 1,
         \<lambda>x. case x of Inr (Inr (_, count, _)) \<Rightarrow> count | _ \<Rightarrow> 0]") auto

declare raw_parse.simps [simp del] array_parser.simps [simp del] array_loop.simps [simp del]

end
