(* ===== verification/Rd_Parser_Laws.thy ===== *)
theory Rd_Parser_Laws
  imports Rd_Parser
begin

text \<open>
  What the reply parser guarantees whatever bytes it is given: how much it consumes, that a verdict
  other than "not enough data" does not depend on what follows in the buffer, and that an accepted
  reply depends on the consumed characters only. The laws are collected in the interface \<open>framing\<close>
  that the read loop of a connection relies on.
\<close>

section \<open>Outcomes\<close>

definition ned :: parse_result_t where
  "ned = Protocol_error (make_error_code not_enough_data)"

definition needs_more :: "thrown + parse_result_t \<Rightarrow> bool" where
  "needs_more out \<longleftrightarrow> out = Inr ned"

lemma markup_ned [simp]: "markup_protocol_error not_enough_data = ned"
  by (simp add: markup_protocol_error_def ned_def)

lemma markup_eq_ned [simp]: "markup_protocol_error e = ned \<longleftrightarrow> e = not_enough_data"
  by (simp add: markup_protocol_error_def ned_def)

lemma ned_neq [simp]: "ned \<noteq> Positive r n" "ned \<noteq> Error_reply m n" "Positive r n \<noteq> ned"
  "Error_reply m n \<noteq> ned" "markup_string k s \<noteq> ned" "markup_nil k \<noteq> ned"
  by (simp_all add: ned_def markup_string_def markup_nil_def)

lemma markup_protocol_error_neq [simp]:
  "markup_protocol_error e \<noteq> Positive r n" "markup_protocol_error e \<noteq> Error_reply m n"
  "Positive r n \<noteq> markup_protocol_error e" "Error_reply m n \<noteq> markup_protocol_error e"
  by (simp_all add: markup_protocol_error_def)

lemma case_protocol_error [simp]:
  "(case ned of Protocol_error c \<Rightarrow> f c | Error_reply m k \<Rightarrow> g m k | Positive r k \<Rightarrow> h r k) =
     f (make_error_code not_enough_data)"
  "(case markup_protocol_error e of Protocol_error c \<Rightarrow> f c | Error_reply m k \<Rightarrow> g m k
     | Positive r k \<Rightarrow> h r k) = f (make_error_code e)"
  by (simp_all add: ned_def markup_protocol_error_def)

lemma length_crlf [simp]: "length crlf = 2"
  by simp

section \<open>Lines\<close>

lemma string_parser_PositiveE:
  assumes "string_parser s a = Positive r n"
  obtains i where "search crlf s = Some i" "r = String_t (take i s)" "n = 2 + i + a"
    "i + 2 \<le> length s"
  using assms search_Some[of crlf s]
  by (auto simp: string_parser_def markup_string_def split: option.splits)

lemma string_parser_cases:
  obtains "string_parser s a = ned" "search crlf s = None"
  | i where "string_parser s a = Positive (String_t (take i s)) (2 + i + a)" "search crlf s = Some i"
  by (cases "search crlf s") (auto simp: string_parser_def markup_string_def)

lemma string_parser_not_error [simp]: "string_parser s a \<noteq> Error_reply m n"
  by (cases rule: string_parser_cases[of s a]) auto

lemma string_parser_append:
  assumes "string_parser s a \<noteq> ned"
  shows "string_parser (s @ t) a = string_parser s a"
proof (cases rule: string_parser_cases[of s a])
  case (2 i)
  with search_Some[of crlf s i] search_append[of crlf s i t] show ?thesis
    by (simp add: string_parser_def markup_string_def)
qed (use assms in simp)

lemma string_parser_take:
  assumes "string_parser s a = Positive r n" "n \<le> a + k"
  shows "string_parser (take k s) a = Positive r n"
proof -
  from assms(1) obtain i where i: "search crlf s = Some i" "r = String_t (take i s)" "n = 2 + i + a"
    by (rule string_parser_PositiveE)
  with assms(2) have "search crlf (take k s) = Some i" by (intro search_take) auto
  with i assms(2) show ?thesis by (simp add: string_parser_def markup_string_def min_def)
qed

lemma int_parser_PositiveE:
  assumes "int_parser env s a = Positive r n"
  obtains i c where "search crlf s = Some i" "lexical_cast env (take i s) = Some c" "r = Int_t c"
    "n = 2 + i + a" "i + 2 \<le> length s"
  using assms search_Some[of crlf s]
  by (cases rule: string_parser_cases[of s a])
    (auto simp: int_parser_def markup_int_def split: option.splits)

lemma int_parser_cases:
  obtains "int_parser env s a = ned" "string_parser s a = ned"
  | "int_parser env s a = markup_protocol_error count_conversion" "string_parser s a \<noteq> ned"
  | i c where "int_parser env s a = Positive (Int_t c) (2 + i + a)"
      "string_parser s a = Positive (String_t (take i s)) (2 + i + a)" "i + 2 \<le> length s"
proof (cases rule: string_parser_cases[of s a])
  case 1
  then show ?thesis using that by (simp add: int_parser_def ned_def)
next
  case (2 i)
  then show ?thesis
    using that search_Some[of crlf s i]
    by (cases "lexical_cast env (take i s)") (auto simp: int_parser_def markup_int_def)
qed

lemma int_parser_not_error [simp]: "int_parser env s a \<noteq> Error_reply m n"
  by (cases rule: int_parser_cases[of env s a]) auto

lemma int_parser_append:
  assumes "int_parser env s a \<noteq> ned"
  shows "int_parser env (s @ t) a = int_parser env s a"
proof -
  from assms have "string_parser s a \<noteq> ned"
    by (cases rule: int_parser_cases[of env s a]) auto
  then show ?thesis by (simp add: int_parser_def string_parser_append)
qed

lemma int_parser_take:
  assumes "int_parser env s a = Positive r n" "n \<le> a + k"
  shows "int_parser env (take k s) a = Positive r n"
proof (cases rule: int_parser_cases[of env s a])
  case (3 i c)
  with assms have "string_parser (take k s) a = string_parser s a"
    by (auto intro: string_parser_take)
  with assms(1) show ?thesis by (simp add: int_parser_def)
qed (use assms in simp_all)

lemma error_parser_cases:
  obtains "error_parser s a = Inr ned" "string_parser s a = ned"
  | i where "error_parser s a = Inr (Error_reply (take i s) (2 + i + a))"
      "string_parser s a = Positive (String_t (take i s)) (2 + i + a)" "i + 2 \<le> length s"
proof (cases rule: string_parser_cases[of s a])
  case 1
  then show ?thesis using that by (simp add: error_parser_def)
next
  case (2 i)
  then show ?thesis
    using that search_Some[of crlf s i] by (auto simp: error_parser_def markup_error_def)
qed

section \<open>Bulk strings\<close>

lemma count_cases:
  fixes count :: int64
  obtains "count = - 1" | "count \<noteq> - 1" "count <s - 1"
  | "count \<noteq> - 1" "\<not> count <s - 1" "0 \<le> sint count" "uint (count + 2) = sint count + 2"
proof (cases "count = - 1 \<or> count <s - 1")
  case True
  then show ?thesis using that by blast
next
  case False
  then have ge: "\<not> sint count < - 1" and ne: "count \<noteq> - 1"
    by (auto simp: word_sless_alt)
  from ne have "sint count \<noteq> sint (- 1 :: int64)" using signed_word_eqI by metis
  with ge have nn: "0 \<le> sint count" by simp
  have lt: "sint count < 2 ^ 63" using sint_lt[of count] by simp
  have "uint count = sint count"
    using nn lt by (simp add: uint_sint take_bit_int_eq_self)
  with nn lt have "uint (count + 2) = sint count + 2"
    by (simp add: uint_word_ariths)
  with False nn that show ?thesis by blast
qed

text \<open>What \<^const>\<open>bulk_string_parser\<close> does once the count is read.\<close>

definition bulk_body :: "int64 \<Rightarrow> nat \<Rightarrow> string \<Rightarrow> parse_result_t" where
  "bulk_body count n head =
     (if count = - 1 then markup_nil n
      else if count <s - 1 then markup_protocol_error count_range
      else if int (length head) < uint (count + 2) then ned
      else
        let k = nat (sint count) in
        if take 2 (drop k head) \<noteq> crlf then markup_protocol_error bulk_terminator
        else markup_string (n + k + 2) (take k head))"

lemma bulk_eq:
  "bulk_string_parser env s a =
     Inr (case int_parser env s a of
            Positive (Int_t count) n \<Rightarrow> bulk_body count n (drop (n - a) s)
          | out \<Rightarrow> out)"
proof (cases rule: int_parser_cases[of env s a])
  case (3 i c)
  have "length terminator = 2" by simp
  then show ?thesis
    unfolding bulk_string_parser_def Let_def bulk_body_def 3(1)
    by (simp del: list.size take_Suc_Cons)
qed (simp_all add: bulk_string_parser_def ned_def markup_protocol_error_def)

lemma bulk_body_PositiveE:
  assumes "bulk_body c m h = Positive r n"
  obtains (nil) "c = - 1" "r = Nil_t" "n = m"
  | (str) k where "c \<noteq> - 1" "\<not> c <s - 1" "0 \<le> sint c" "k = nat (sint c)" "k + 2 \<le> length h"
      "take 2 (drop k h) = crlf" "r = String_t (take k h)" "n = m + k + 2"
proof (cases rule: count_cases[of c])
  case 1
  with assms nil show ?thesis by (auto simp: bulk_body_def markup_nil_def)
next
  case 2
  with assms show ?thesis by (auto simp: bulk_body_def)
next
  case 3
  with assms have "\<not> int (length h) < sint c + 2" "take 2 (drop (nat (sint c)) h) = crlf"
    "r = String_t (take (nat (sint c)) h)" "n = m + nat (sint c) + 2"
    by (auto simp: bulk_body_def Let_def markup_string_def split: if_splits)
  with 3 show ?thesis by (intro str[OF 3(1-3)]) auto
qed

lemma bulk_body_not_error [simp]: "bulk_body c m h \<noteq> Error_reply e n"
  by (simp add: bulk_body_def Let_def markup_nil_def markup_string_def)

lemma bulk_body_append:
  assumes "bulk_body c m h \<noteq> ned"
  shows "bulk_body c m (h @ t) = bulk_body c m h"
proof (cases rule: count_cases[of c])
  case 3
  with assms have len: "\<not> int (length h) < sint c + 2" by (auto simp: bulk_body_def)
  with 3 have "nat (sint c) + 2 \<le> length h" by linarith
  then have "take 2 (drop (nat (sint c)) (h @ t)) = take 2 (drop (nat (sint c)) h)"
    "take (nat (sint c)) (h @ t) = take (nat (sint c)) h" by simp_all
  moreover from len have "\<not> int (length (h @ t)) < sint c + 2" by simp
  ultimately show ?thesis using 3 len
    by (simp only: bulk_body_def Let_def if_False)
qed (simp_all add: bulk_body_def)

lemma bulk_body_take:
  assumes "bulk_body c m h = Positive r n" "n \<le> m + k"
  shows "bulk_body c m (take k h) = Positive r n"
  using assms(1)
proof (cases rule: bulk_body_PositiveE)
  case nil
  then show ?thesis by (simp add: bulk_body_def markup_nil_def)
next
  case (str j)
  from str(1-3) have u: "uint (c + 2) = sint c + 2" by (cases rule: count_cases[of c]) auto
  from str assms(2) have jk: "j + 2 \<le> k" by simp
  with str have "\<not> int (length (take k h)) < sint c + 2" by auto
  moreover from jk have "take 2 (drop j (take k h)) = take 2 (drop j h)" "take j (take k h) = take j h"
    by (simp_all add: drop_take min_def)
  ultimately show ?thesis using str u by (simp add: bulk_body_def Let_def markup_string_def)
qed

lemma bulk_PositiveE:
  assumes "bulk_string_parser env s a = Inr (Positive r n)"
  obtains c m where "int_parser env s a = Positive (Int_t c) m" "bulk_body c m (drop (m - a) s) = Positive r n"
    "a + 2 \<le> m" "m \<le> a + length s"
proof (cases rule: int_parser_cases[of env s a])
  case (3 i c)
  with assms that show ?thesis by (simp add: bulk_eq)
qed (use assms in \<open>simp_all add: bulk_eq\<close>)

lemma bulk_not_error [simp]: "bulk_string_parser env s a \<noteq> Inr (Error_reply m n)"
  by (cases rule: int_parser_cases[of env s a]) (simp_all add: bulk_eq)

lemma bulk_not_Inl [simp]: "bulk_string_parser env s a \<noteq> Inl t"
  by (simp add: bulk_eq)

lemma bulk_append:
  assumes "bulk_string_parser env s a \<noteq> Inr ned"
  shows "bulk_string_parser env (s @ t) a = bulk_string_parser env s a"
proof (cases rule: int_parser_cases[of env s a])
  case 1
  with assms show ?thesis by (simp add: bulk_eq ned_def)
next
  case 2
  then have "int_parser env (s @ t) a = int_parser env s a" by (intro int_parser_append) simp
  then show ?thesis using 2 by (simp add: bulk_eq)
next
  case (3 i c)
  then have "int_parser env (s @ t) a = int_parser env s a" by (intro int_parser_append) simp
  moreover from 3 assms have "bulk_body c (2 + i + a) (drop (2 + i) s) \<noteq> ned" by (auto simp: bulk_eq)
  moreover have "drop (2 + i) (s @ t) = drop (2 + i) s @ t" using 3(3) by simp
  ultimately show ?thesis using 3(1) by (simp add: bulk_eq bulk_body_append del: drop_append)
qed

lemma bulk_take:
  assumes "bulk_string_parser env s a = Inr (Positive r n)" "n \<le> a + k"
  shows "bulk_string_parser env (take k s) a = Inr (Positive r n)"
  using assms(1)
proof (cases rule: bulk_PositiveE)
  case (1 c m)
  from 1(2) have mn: "m \<le> n" by (cases rule: bulk_body_PositiveE) auto
  with 1 assms(2) have "int_parser env (take k s) a = Positive (Int_t c) m"
    by (intro int_parser_take) auto
  moreover have "bulk_body c m (take (k - (m - a)) (drop (m - a) s)) = Positive r n"
    using 1 assms(2) mn by (intro bulk_body_take) auto
  ultimately show ?thesis by (simp add: bulk_eq drop_take)
qed

section \<open>Replies\<close>

lemmas parse_induct = raw_parse_array_parser_array_loop.induct

lemma error_parser_append:
  assumes "error_parser s a \<noteq> Inr ned"
  shows "error_parser (s @ t) a = error_parser s a"
  using assms string_parser_append[of s a t]
  by (cases rule: error_parser_cases[of s a]) (simp_all add: error_parser_def)

lemma construct_append:
  "s \<noteq> [] \<Longrightarrow> construct_primary_parser (s @ t) = construct_primary_parser s"
  by (cases s) (simp_all add: construct_primary_parser_def)

lemma construct_Nil: "construct_primary_parser [] = Primary_error (make_error_code not_enough_data)"
  by (simp add: construct_primary_parser_def)

lemma construct_ned:
  "construct_primary_parser s = Primary_error c \<Longrightarrow> s \<noteq> [] \<Longrightarrow> c = make_error_code wrong_introduction"
  by (cases s) (simp_all add: construct_primary_parser_def split: if_splits)

text \<open>The equation of the array parser once its count is read.\<close>

lemma array_parser_eq:
  "array_parser env s a =
     (case int_parser env s a of
        Positive (Int_t count) n \<Rightarrow>
          if count = - 1 then Inr (markup_nil n)
          else if count <s - 1 then Inr (markup_protocol_error count_range)
          else (case reserve_throws env (nat (sint count)) of
                  Some t \<Rightarrow> Inl t
                | None \<Rightarrow> array_loop env (nat (sint count)) (drop (n - a) s) [] n)
      | out \<Rightarrow> Inr out)"
  by (cases rule: int_parser_cases[of env s a])
    (simp_all add: array_parser.simps, simp_all add: ned_def markup_protocol_error_def)

theorem parse_bounds:
  "raw_parse env s = Inr (Positive r n) \<Longrightarrow> 0 < n \<and> n \<le> length s"
  "array_parser env s a = Inr (Positive r n) \<Longrightarrow> a < n \<and> n \<le> a + length s"
  "array_loop env k s xs c = Inr (Positive r n) \<Longrightarrow> c \<le> n \<and> n \<le> c + length s"
proof (induction env s and env s a and env k s xs c arbitrary: r n and r n and r n rule: parse_induct)
  case (1 env s)
  show ?case
  proof (cases "construct_primary_parser s")
    case Primary_string
    then have "s \<noteq> []" by (auto simp: construct_Nil)
    with Primary_string "1.prems" show ?thesis
      by (auto simp: raw_parse.simps elim!: string_parser_PositiveE)
  next
    case Primary_int
    then have "s \<noteq> []" by (auto simp: construct_Nil)
    with Primary_int "1.prems" show ?thesis
      by (auto simp: raw_parse.simps elim!: int_parser_PositiveE)
  next
    case Primary_error_reply
    with "1.prems" show ?thesis
      by (cases rule: error_parser_cases[of "tl s" 1]) (auto simp: raw_parse.simps)
  next
    case Primary_bulk_string
    then have "s \<noteq> []" by (auto simp: construct_Nil)
    from Primary_bulk_string "1.prems" have "bulk_string_parser env (tl s) 1 = Inr (Positive r n)"
      by (simp add: raw_parse.simps)
    then show ?thesis
    proof (cases rule: bulk_PositiveE)
      case (1 c m)
      from 1(2) show ?thesis using 1(3,4) \<open>s \<noteq> []\<close>
        by (cases rule: bulk_body_PositiveE) (auto simp: Suc_le_eq)
    qed
  next
    case Primary_array
    then have "s \<noteq> []" by auto
    moreover have "1 < n \<and> n \<le> 1 + length (tl s)"
      using "1.IH"[OF Primary_array] "1.prems" Primary_array by (simp add: raw_parse.simps)
    ultimately show ?thesis by (cases s) auto
  qed (use "1.prems" in \<open>simp add: raw_parse.simps\<close>)
next
  case (2 env s a)
  show ?case
  proof (cases rule: int_parser_cases[of env s a])
    case (3 i c)
    show ?thesis
    proof (cases "c = - 1 \<or> c <s - 1")
      case True
      with 3 "2.prems" show ?thesis
        by (cases rule: count_cases[of c]) (auto simp: array_parser_eq markup_nil_def)
    next
      case False
      with 3 "2.prems" have
        r: "reserve_throws env (nat (sint c)) = None"
        and l: "array_loop env (nat (sint c)) (drop (2 + i) s) [] (2 + i + a) = Inr (Positive r n)"
        by (auto simp: array_parser_eq split: option.splits)
      from "2.IH"[OF refl 3(1)] False r l
      have "2 + i + a \<le> n \<and> n \<le> 2 + i + a + length (drop (2 + i) s)" by simp
      with 3(3) show ?thesis by auto
    qed
  qed (use "2.prems" in \<open>simp_all add: array_parser_eq\<close>)
next
  case (3 env k s xs c)
  show ?case
  proof (cases "k = 0")
    case True
    with "3.prems" show ?thesis by (simp add: array_loop.simps)
  next
    case False
    with "3.prems" obtain r' n' where rp: "raw_parse env s = Inr (Positive r' n')"
      and l: "array_loop env (k - 1) (drop n' s) (xs @ [r']) (c + n') = Inr (Positive r n)"
      by (auto simp: array_loop.simps[of env k] split: sum.splits parse_result_t.splits)
    from "3.IH"(1)[OF False rp] "3.IH"(2)[OF False rp refl l] show ?thesis by auto
  qed
qed

text \<open>An error reply consumes characters of the buffer too, at least the one that introduces it.\<close>

theorem error_bounds:
  "raw_parse env s = Inr (Error_reply m n) \<Longrightarrow> 0 < n \<and> n \<le> length s"
  "array_parser env s a = Inr (Error_reply m n) \<Longrightarrow> 0 < n \<and> n \<le> length s"
  "array_loop env k s xs c = Inr (Error_reply m n) \<Longrightarrow> 0 < n \<and> n \<le> length s"
proof (induction env s and env s a and env k s xs c arbitrary: m n and m n and m n rule: parse_induct)
  case (1 env s)
  show ?case
  proof (cases "construct_primary_parser s")
    case Primary_error_reply
    then have "s \<noteq> []" by (auto simp: construct_Nil)
    with Primary_error_reply "1.prems" show ?thesis
      by (cases rule: error_parser_cases[of "tl s" 1]) (auto simp: raw_parse.simps)
  next
    case Primary_array
    then show ?thesis
      using "1.IH"[OF Primary_array] "1.prems" by (auto simp: raw_parse.simps)
  qed (use "1.prems" in \<open>simp_all add: raw_parse.simps\<close>)
next
  case (2 env s a)
  show ?case
  proof (cases rule: int_parser_cases[of env s a])
    case (3 i c)
    with "2.prems" have cc: "c \<noteq> - 1" "\<not> c <s - 1"
        and r: "reserve_throws env (nat (sint c)) = None"
        and l: "array_loop env (nat (sint c)) (drop (2 + i) s) [] (2 + i + a) = Inr (Error_reply m n)"
      by (auto simp: array_parser_eq markup_nil_def split: option.splits if_splits)
    from "2.IH"[OF refl 3(1)] cc r l
    have "0 < n \<and> n \<le> length (drop (2 + i) s)" by simp
    then show ?thesis by auto
  qed (use "2.prems" in \<open>simp_all add: array_parser_eq\<close>)
next
  case (3 env k s xs c)
  show ?case
  proof (cases "k = 0")
    case True
    with "3.prems" show ?thesis by (simp add: array_loop.simps)
  next
    case False
    note IH = "3.IH"(1)[OF False] "3.IH"(2)[OF False]
    from False "3.prems" consider "raw_parse env s = Inr (Error_reply m n)"
      | r' n' where "raw_parse env s = Inr (Positive r' n')"
        "array_loop env (k - 1) (drop n' s) (xs @ [r']) (c + n') = Inr (Error_reply m n)"
      by (auto simp: array_loop.simps[of env k] split: sum.splits parse_result_t.splits)
    then show ?thesis
    proof cases
      case 1
      with IH(1) show ?thesis by simp
    next
      case 2
      from IH(2)[OF 2(1) refl 2(2)] show ?thesis by auto
    qed
  qed
qed

section \<open>A verdict does not depend on what follows\<close>

lemma array_loop_step:
  "0 < k \<Longrightarrow> raw_parse env s = Inr (Positive r n) \<Longrightarrow>
     array_loop env k s xs c = array_loop env (k - 1) (drop n s) (xs @ [r]) (c + n)"
  "0 < k \<Longrightarrow> raw_parse env s = Inl t \<Longrightarrow> array_loop env k s xs c = Inl t"
  "0 < k \<Longrightarrow> raw_parse env s = Inr (Error_reply m n) \<Longrightarrow>
     array_loop env k s xs c = Inr (Error_reply m n)"
  "0 < k \<Longrightarrow> raw_parse env s = Inr (Protocol_error e) \<Longrightarrow>
     array_loop env k s xs c = Inr (Protocol_error e)"
  by (simp_all add: array_loop.simps[of env k])

lemma array_loop_0 [simp]: "array_loop env 0 s xs c = Inr (Positive (Array_t xs) c)"
  by (simp add: array_loop.simps)

theorem parse_append:
  "raw_parse env s \<noteq> Inr ned \<Longrightarrow> raw_parse env (s @ t) = raw_parse env s"
  "array_parser env s a \<noteq> Inr ned \<Longrightarrow> array_parser env (s @ t) a = array_parser env s a"
  "array_loop env k s xs c \<noteq> Inr ned \<Longrightarrow> array_loop env k (s @ t) xs c = array_loop env k s xs c"
proof (induction env s and env s a and env k s xs c rule: parse_induct)
  case (1 env s)
  have ne: "s \<noteq> []"
  proof
    assume "s = []"
    with "1.prems" show False by (simp add: raw_parse.simps construct_Nil ned_def)
  qed
  then have tl: "tl (s @ t) = tl s @ t" and cp: "construct_primary_parser (s @ t) = construct_primary_parser s"
    by (simp_all add: construct_append)
  show ?case
  proof (cases "construct_primary_parser s")
    case Primary_array
    with "1.IH"[OF this] "1.prems" tl cp show ?thesis by (simp add: raw_parse.simps)
  qed (use "1.prems" tl cp in \<open>simp_all add: raw_parse.simps string_parser_append int_parser_append
      error_parser_append bulk_append\<close>)
next
  case (2 env s a)
  show ?case
  proof (cases rule: int_parser_cases[of env s a])
    case 1
    with "2.prems" show ?thesis by (simp add: array_parser_eq ned_def)
  next
    case 2
    then have "int_parser env (s @ t) a = int_parser env s a" by (intro int_parser_append) simp
    then show ?thesis using 2 by (simp add: array_parser_eq)
  next
    case (3 i c)
    then have ip: "int_parser env (s @ t) a = int_parser env s a" by (intro int_parser_append) simp
    have dr: "drop (2 + i) (s @ t) = drop (2 + i) s @ t" using 3(3) by simp
    show ?thesis
    proof (cases "c \<noteq> - 1 \<and> \<not> c <s - 1 \<and> reserve_throws env (nat (sint c)) = None")
      case True
      with 3 "2.prems" have "array_loop env (nat (sint c)) (drop (2 + i) s) [] (2 + i + a) \<noteq> Inr ned"
        by (simp add: array_parser_eq)
      with "2.IH"[OF refl 3(1)] True
      have "array_loop env (nat (sint c)) (drop (2 + i) s @ t) [] (2 + i + a) =
          array_loop env (nat (sint c)) (drop (2 + i) s) [] (2 + i + a)" by simp
      with True 3(1) ip dr show ?thesis by (simp add: array_parser_eq del: drop_append)
    next
      case False
      with 3(1) ip show ?thesis by (auto simp: array_parser_eq split: option.splits)
    qed
  qed
next
  case (3 env k s xs c)
  show ?case
  proof (cases "k = 0")
    case False
    then have k: "0 < k" by simp
    have rn: "raw_parse env s \<noteq> Inr ned"
      using "3.prems" k array_loop_step(4)[OF k, of env s "make_error_code not_enough_data" xs c]
      by (auto simp: ned_def)
    note ra = "3.IH"(1)[OF False rn]
    show ?thesis
    proof (cases "raw_parse env s")
      case (Inl e)
      with ra k show ?thesis by (simp add: array_loop_step)
    next
      case (Inr out)
      show ?thesis
      proof (cases out)
        case (Positive r n)
        with Inr have rp: "raw_parse env s = Inr (Positive r n)" by simp
        from parse_bounds(1)[OF rp] have d: "drop n (s @ t) = drop n s @ t" by simp
        from "3.prems" k rp have "array_loop env (k - 1) (drop n s) (xs @ [r]) (c + n) \<noteq> Inr ned"
          by (simp add: array_loop_step)
        from "3.IH"(2)[OF False rp refl this] k rp ra d show ?thesis
          by (simp add: array_loop_step del: drop_append)
      qed (use Inr ra k in \<open>simp_all add: array_loop_step\<close>)
    qed
  qed simp
qed

text \<open>
  An accepted reply depends on the characters it consumes only: cutting the buffer right after
  them changes nothing.
\<close>

theorem parse_take:
  "raw_parse env s = Inr (Positive r n) \<Longrightarrow> n \<le> j \<Longrightarrow> raw_parse env (take j s) = Inr (Positive r n)"
  "array_parser env s a = Inr (Positive r n) \<Longrightarrow> n \<le> a + j \<Longrightarrow>
     array_parser env (take j s) a = Inr (Positive r n)"
  "array_loop env k s xs c = Inr (Positive r n) \<Longrightarrow> n \<le> c + j \<Longrightarrow>
     array_loop env k (take j s) xs c = Inr (Positive r n)"
proof (induction env s and env s a and env k s xs c arbitrary: r n j and r n j and r n j rule: parse_induct)
  case (1 env s)
  from parse_bounds(1)[OF "1.prems"(1)] "1.prems"(2) have ne: "s \<noteq> []" "take j s \<noteq> []" "0 < j" by auto
  then have tl: "tl (take j s) = take (j - 1) (tl s)"
    and cp: "construct_primary_parser (take j s) = construct_primary_parser s"
    by (cases s; cases j; simp add: construct_primary_parser_def)+
  have nj: "n \<le> 1 + (j - 1)" using "1.prems"(2) ne(3) by simp
  show ?case
  proof (cases "construct_primary_parser s")
    case Primary_array
    then have "array_parser env (tl s) 1 = Inr (Positive r n)"
      using "1.prems"(1) by (simp add: raw_parse.simps)
    from "1.IH"[OF Primary_array this nj] Primary_array tl cp show ?thesis
      by (simp add: raw_parse.simps)
  next
    case Primary_bulk_string
    then have "bulk_string_parser env (tl s) 1 = Inr (Positive r n)"
      using "1.prems"(1) by (simp add: raw_parse.simps)
    from bulk_take[OF this nj] Primary_bulk_string tl cp show ?thesis
      by (simp add: raw_parse.simps)
  next
    case Primary_error_reply
    with "1.prems"(1) show ?thesis
      by (cases rule: error_parser_cases[of "tl s" 1]) (auto simp: raw_parse.simps)
  qed (use "1.prems"(1) nj tl cp in \<open>simp_all add: raw_parse.simps string_parser_take int_parser_take\<close>)
next
  case (2 env s a)
  show ?case
  proof (cases rule: int_parser_cases[of env s a])
    case (3 i c)
    let ?m = "2 + i + a"
    have mn: "?m \<le> n"
    proof (cases rule: count_cases[of c])
      case c3: 3
      with 3 "2.prems"(1) have
        "array_loop env (nat (sint c)) (drop (2 + i) s) [] ?m = Inr (Positive r n)"
        by (auto simp: array_parser_eq split: option.splits)
      from parse_bounds(3)[OF this] show ?thesis by simp
    qed (use 3 "2.prems"(1) in \<open>auto simp: array_parser_eq markup_nil_def\<close>)
    with "2.prems"(2) 3(1) have ip: "int_parser env (take j s) a = Positive (Int_t c) ?m"
      by (intro int_parser_take) auto
    have dr: "drop (2 + i) (take j s) = take (j - (2 + i)) (drop (2 + i) s)" by (simp add: drop_take)
    show ?thesis
    proof (cases rule: count_cases[of c])
      case c3: 3
      with 3 "2.prems"(1) have r: "reserve_throws env (nat (sint c)) = None"
        and l: "array_loop env (nat (sint c)) (drop (2 + i) s) [] ?m = Inr (Positive r n)"
        by (auto simp: array_parser_eq split: option.splits)
      from "2.IH"[OF refl 3(1)] c3 r l mn "2.prems"(2)
      have "array_loop env (nat (sint c)) (take (j - (2 + i)) (drop (2 + i) s)) [] ?m = Inr (Positive r n)"
        by simp
      with ip c3 r dr show ?thesis by (simp add: array_parser_eq)
    qed (use 3 ip "2.prems"(1) in \<open>auto simp: array_parser_eq\<close>)
  qed (use "2.prems" in \<open>simp_all add: array_parser_eq\<close>)
next
  case (3 env k s xs c)
  show ?case
  proof (cases "k = 0")
    case True
    with "3.prems" show ?thesis by simp
  next
    case False
    then have k: "0 < k" by simp
    from k "3.prems"(1) obtain r' n' where rp: "raw_parse env s = Inr (Positive r' n')"
      and l: "array_loop env (k - 1) (drop n' s) (xs @ [r']) (c + n') = Inr (Positive r n)"
      by (auto simp: array_loop.simps[of env k] split: sum.splits parse_result_t.splits)
    from parse_bounds(3)[OF l] "3.prems"(2) have nj: "n' \<le> j" by simp
    from "3.IH"(1)[OF False rp nj] have rt: "raw_parse env (take j s) = Inr (Positive r' n')" .
    have "drop n' (take j s) = take (j - n') (drop n' s)" by (simp add: drop_take)
    with "3.IH"(2)[OF False rp refl l, of "j - n'"] "3.prems"(2) nj k rt show ?thesis
      by (simp add: array_loop_step)
  qed
qed

text \<open>
  Fewer characters than a reply needs are never mistaken for anything else: on every proper prefix
  the verdict is "not enough data".
\<close>

lemma parse_prefix_ned:
  assumes "raw_parse env s = Inr (Positive r n)" "j < n"
  shows "raw_parse env (take j s) = Inr ned"
proof (rule ccontr)
  assume "raw_parse env (take j s) \<noteq> Inr ned"
  from parse_append(1)[OF this, of "drop j s"] assms(1)
  have "raw_parse env (take j s) = Inr (Positive r n)" by simp
  from parse_bounds(1)[OF this] assms(2) show False by simp
qed

section \<open>The type of an outcome\<close>

text \<open>
  A value is made of strings, nil, integers that \<^verbatim>\<open>lexical_cast\<close> gave and arrays of values; an error code
  belongs to the parser; an exception is one of the allocator, so neither \<^verbatim>\<open>bad_variant_access\<close> nor
  \<^verbatim>\<open>bad_lexical_cast\<close> leaves the parser.
\<close>

inductive value_ok :: "penv \<Rightarrow> result_t \<Rightarrow> bool" for env where
  string: "value_ok env (String_t str)"
| nil: "value_ok env Nil_t"
| int: "lexical_cast env str = Some i \<Longrightarrow> value_ok env (Int_t i)"
| array: "(\<And>r. r \<in> set rs \<Longrightarrow> value_ok env r) \<Longrightarrow> value_ok env (Array_t rs)"

fun outcome_ok :: "penv \<Rightarrow> thrown + parse_result_t \<Rightarrow> bool" where
  "outcome_ok env (Inl t) \<longleftrightarrow> (\<exists>n < 2 ^ 63. reserve_throws env n = Some t)"
| "outcome_ok env (Inr (Protocol_error code)) \<longleftrightarrow> code \<in> range make_error_code"
| "outcome_ok env (Inr (Error_reply m n)) \<longleftrightarrow> True"
| "outcome_ok env (Inr (Positive r n)) \<longleftrightarrow> value_ok env r"

lemma outcome_simps [simp]:
  "outcome_ok env (Inr ned)" "outcome_ok env (Inr (markup_protocol_error e))"
  "outcome_ok env (Inr (markup_nil n))" "outcome_ok env (Inr (markup_string n str))"
  by (simp_all add: ned_def markup_protocol_error_def markup_nil_def markup_string_def value_ok.intros)

lemma int_parser_ok: "outcome_ok env (Inr (int_parser env s a))"
proof (cases "int_parser env s a")
  case (Positive r n)
  then show ?thesis by (auto elim!: int_parser_PositiveE intro: value_ok.intros)
next
  case (Protocol_error code)
  then show ?thesis
    by (cases rule: int_parser_cases[of env s a]) (auto simp: ned_def markup_protocol_error_def)
qed simp

lemma bulk_ok: "outcome_ok env (bulk_string_parser env s a)"
proof (cases rule: int_parser_cases[of env s a])
  case (3 i c)
  then show ?thesis by (simp add: bulk_eq bulk_body_def Let_def)
qed (simp_all add: bulk_eq ned_def markup_protocol_error_def)

theorem parse_outcome:
  "outcome_ok env (raw_parse env s)"
  "outcome_ok env (array_parser env s a)"
  "(\<And>r. r \<in> set xs \<Longrightarrow> value_ok env r) \<Longrightarrow> outcome_ok env (array_loop env k s xs c)"
proof (induction env s and env s a and env k s xs c rule: parse_induct)
  case (1 env s)
  show ?case
  proof (cases "construct_primary_parser s")
    case (Primary_error code)
    then have "code \<in> range make_error_code"
      by (auto simp: construct_primary_parser_def split: list.splits if_splits)
    with Primary_error show ?thesis by (simp add: raw_parse.simps)
  next
    case Primary_string
    then show ?thesis
      by (cases rule: string_parser_cases[of "tl s" 1]) (simp_all add: raw_parse.simps value_ok.intros)
  next
    case Primary_error_reply
    then show ?thesis
      by (cases rule: error_parser_cases[of "tl s" 1]) (simp_all add: raw_parse.simps)
  qed (use "1.IH" int_parser_ok bulk_ok in \<open>simp_all add: raw_parse.simps\<close>)
next
  case (2 env s a)
  show ?case
  proof (cases rule: int_parser_cases[of env s a])
    case (3 i c)
    have "nat (sint c) < 2 ^ 63" using sint_lt[of c] by simp
    with "2.IH"[OF refl 3(1)] 3 show ?thesis
      by (auto simp: array_parser_eq split: option.splits)
  qed (simp_all add: array_parser_eq ned_def markup_protocol_error_def)
next
  case (3 env k s xs c)
  show ?case
  proof (cases "k = 0")
    case True
    with "3.prems" show ?thesis by (simp add: value_ok.intros)
  next
    case False
    note IH = "3.IH"(1)[OF False] "3.IH"(2)[OF False]
    show ?thesis
    proof (cases "raw_parse env s")
      case (Inl t)
      with IH(1) False show ?thesis by (simp add: array_loop_step)
    next
      case (Inr out)
      show ?thesis
      proof (cases out)
        case (Positive r n)
        have "outcome_ok env (array_loop env (k - 1) (drop n s) (xs @ [r]) (c + n))"
          using IH(1) Inr Positive "3.prems" by (intro IH(2)) auto
        with Inr Positive False show ?thesis by (simp add: array_loop_step)
      qed (use IH(1) Inr False in \<open>simp_all add: array_loop_step\<close>)
    qed
  qed
qed

end
