(* ===== verification/Rd_Wire.thy ===== *)
theory Rd_Wire
  imports Rd_Parser_Laws
begin

text \<open>
  The wire format as a reference: \<open>resp\<close> writes a value the way a server sends it, and the parser
  of \<open>Rd_Parser\<close> reads it back. The two parameters of the parser enter through the interface
  \<open>reply_reader\<close>: the documented behaviour of \<^verbatim>\<open>boost::lexical_cast\<close> on decimal notation, and an
  allocator that grants up to \<open>limit\<close> elements.
\<close>

section \<open>The reference encoder\<close>

fun resp :: "result_t \<Rightarrow> string" where
  "resp (Int_t i) = CHR '':'' # dec_int (sint i) @ crlf"
| "resp (String_t s) = CHR ''$'' # dec_nat (length s) @ crlf @ s @ crlf"
| "resp Nil_t = ''$-1'' @ crlf"
| "resp (Array_t xs) = CHR ''*'' # dec_nat (length xs) @ crlf @ concat (map resp xs)"

text \<open>Values with sizes that the count of a reply can carry.\<close>

fun wire_ok :: "nat \<Rightarrow> result_t \<Rightarrow> bool" where
  "wire_ok limit (String_t s) \<longleftrightarrow> length s < 2 ^ 63"
| "wire_ok limit (Array_t xs) \<longleftrightarrow> length xs \<le> limit \<and> list_all (wire_ok limit) xs"
| "wire_ok limit _ \<longleftrightarrow> True"

lemma sint_of_nat63: "n < 2 ^ 63 \<Longrightarrow> sint (of_nat n :: int64) = int n"
  by (simp add: signed_of_nat signed_take_bit_int_eq_self)

lemma of_nat63_nonneg:
  assumes "n < 2 ^ 63"
  shows "(of_nat n :: int64) \<noteq> - 1" "\<not> (of_nat n :: int64) <s - 1"
proof -
  from sint_of_nat63[OF assms] have "sint (of_nat n :: int64) \<noteq> sint (- 1 :: int64)" by simp
  then show "(of_nat n :: int64) \<noteq> - 1" by metis
  from sint_of_nat63[OF assms] show "\<not> (of_nat n :: int64) <s - 1" by (simp add: word_sless_alt)
qed

section \<open>Lines\<close>

lemma simple_line:
  assumes "CR \<notin> set s"
  shows "raw_parse env (CHR ''+'' # s @ crlf @ rest) = Inr (Positive (String_t s) (length s + 3))"
  using search_crlf_line[OF assms, of rest]
  by (simp add: raw_parse.simps construct_primary_parser_def string_parser_def markup_string_def)

lemma error_line:
  assumes "CR \<notin> set s"
  shows "raw_parse env (CHR ''-'' # s @ crlf @ rest) = Inr (Error_reply s (length s + 3))"
  using search_crlf_line[OF assms, of rest]
  by (simp add: raw_parse.simps construct_primary_parser_def error_parser_def string_parser_def
      markup_string_def markup_error_def)

section \<open>The interface to lexical_cast and the allocator\<close>

locale reply_reader =
  fixes env :: penv and limit :: nat
  assumes cast_dec: "lexical_cast env (dec_int (sint i)) = Some i"
    and reserve_ok: "n \<le> limit \<Longrightarrow> reserve_throws env n = None"
    and limit_bound: "limit < 2 ^ 63"
begin

lemma cast_nat:
  assumes "n < 2 ^ 63"
  shows "lexical_cast env (dec_nat n) = Some (of_nat n)"
  using cast_dec[of "of_nat n"] sint_of_nat63[OF assms] by (simp add: dec_int_of_nat)

lemma int_line:
  assumes "lexical_cast env l = Some i" "CR \<notin> set l"
  shows "int_parser env (l @ crlf @ rest) a = Positive (Int_t i) (2 + length l + a)"
  using assms search_crlf_line[of l rest]
  by (simp add: int_parser_def string_parser_def markup_string_def markup_int_def)

lemma int_reply:
  "raw_parse env (resp (Int_t i) @ rest) = Inr (Positive (Int_t i) (length (resp (Int_t i))))"
  using int_line[OF cast_dec[of i], of rest 1]
  by (simp add: raw_parse.simps construct_primary_parser_def)

lemma nil_reply:
  "raw_parse env (resp Nil_t @ rest) = Inr (Positive Nil_t (length (resp Nil_t)))"
proof -
  have "dec_int (- 1) = ''-1''" by code_simp
  then have "dec_int (sint (- 1 :: int64)) = ''-1''" by simp
  with cast_dec[of "- 1"] have c: "lexical_cast env ''-1'' = Some (- 1)" by simp
  have "CR \<notin> set ''-1''" by (simp add: rd_chars)
  from int_line[OF c this, of rest 1]
  show ?thesis
    by (simp add: raw_parse.simps construct_primary_parser_def bulk_eq bulk_body_def markup_nil_def)
qed

lemma bulk_reply:
  assumes "length s < 2 ^ 63"
  shows "raw_parse env (resp (String_t s) @ rest) = Inr (Positive (String_t s) (length (resp (String_t s))))"
proof -
  let ?c = "of_nat (length s) :: int64" and ?l = "dec_nat (length s)"
  have ip: "int_parser env (?l @ crlf @ s @ crlf @ rest) 1 = Positive (Int_t ?c) (3 + length ?l)"
    using int_line[OF cast_nat[OF assms], of "s @ crlf @ rest" 1] by simp
  have c: "?c \<noteq> - 1" "\<not> ?c <s - 1" "sint ?c = int (length s)"
    using of_nat63_nonneg[OF assms] sint_of_nat63[OF assms] by auto
  then have u: "uint (?c + 2) = int (length s) + 2"
    by (cases rule: count_cases[of ?c]) auto
  have "drop (2 + length ?l) (?l @ crlf @ s @ crlf @ rest) = s @ crlf @ rest" by simp
  with ip c u show ?thesis
    by (simp add: raw_parse.simps construct_primary_parser_def bulk_eq bulk_body_def Let_def
        markup_string_def)
qed

lemma array_loop_elements:
  assumes "\<And>r rest. r \<in> set rs \<Longrightarrow> raw_parse env (resp r @ rest) = Inr (Positive r (length (resp r)))"
  shows "array_loop env (length rs) (concat (map resp rs) @ rest) acc c =
     Inr (Positive (Array_t (acc @ rs)) (c + length (concat (map resp rs))))"
  using assms
proof (induction rs arbitrary: acc c)
  case Nil
  then show ?case by simp
next
  case (Cons r rs)
  have "raw_parse env (resp r @ concat (map resp rs) @ rest) = Inr (Positive r (length (resp r)))"
    using Cons.prems by simp
  with Cons.IH[of "acc @ [r]" "c + length (resp r)"] Cons.prems show ?case
    by (simp add: array_loop_step)
qed

lemma array_reply:
  assumes "length xs \<le> limit"
    and "\<And>r rest. r \<in> set xs \<Longrightarrow> raw_parse env (resp r @ rest) = Inr (Positive r (length (resp r)))"
  shows "raw_parse env (resp (Array_t xs) @ rest) = Inr (Positive (Array_t xs) (length (resp (Array_t xs))))"
proof -
  let ?c = "of_nat (length xs) :: int64" and ?l = "dec_nat (length xs)"
  let ?body = "concat (map resp xs) @ rest"
  from assms(1) limit_bound have n: "length xs < 2 ^ 63" by simp
  have ip: "int_parser env (?l @ crlf @ ?body) 1 = Positive (Int_t ?c) (3 + length ?l)"
    using int_line[OF cast_nat[OF n], of ?body 1] by simp
  have c: "?c \<noteq> - 1" "\<not> ?c <s - 1" "nat (sint ?c) = length xs"
    using of_nat63_nonneg[OF n] sint_of_nat63[OF n] by auto
  have "drop (2 + length ?l) (?l @ crlf @ ?body) = ?body" by simp
  with ip c reserve_ok[OF assms(1)] array_loop_elements[OF assms(2), where acc = "[]"] show ?thesis
    by (simp add: raw_parse.simps construct_primary_parser_def array_parser_eq)
qed

lemma roundtrip:
  "wire_ok limit r \<Longrightarrow> raw_parse env (resp r @ rest) = Inr (Positive r (length (resp r)))"
proof (induction r arbitrary: rest)
  case (Int_t i)
  show ?case by (rule int_reply)
next
  case (String_t s)
  then show ?case using bulk_reply[of s rest] by simp
next
  case Nil_t
  show ?case by (rule nil_reply)
next
  case (Array_t xs)
  then show ?case by (intro array_reply) (auto simp: list_all_iff)
qed

text \<open>
  An error among the elements of an array ends the parse of the array: the verdict is the error
  reply alone, with the length of that one element.
\<close>

lemma error_element:
  assumes "CR \<notin> set s" and "length xs < n" "n \<le> limit"
    and "\<And>r. r \<in> set xs \<Longrightarrow> wire_ok limit r"
  shows "raw_parse env (CHR ''*'' # dec_nat n @ crlf @ concat (map resp xs) @ CHR ''-'' # s @ crlf @ rest) =
     Inr (Error_reply s (length s + 3))"
proof -
  have loop: "length xs < m \<Longrightarrow> array_loop env m (concat (map resp xs) @ CHR ''-'' # s @ crlf @ rest) acc c =
      Inr (Error_reply s (length s + 3))" for m acc c
    using assms(4)
  proof (induction xs arbitrary: m acc c)
    case Nil
    with error_line[OF assms(1)] show ?case by (simp add: array_loop_step)
  next
    case (Cons r rs)
    from Cons.prems(2) have "wire_ok limit r" by simp
    from roundtrip[OF this] have
      "raw_parse env (resp r @ concat (map resp rs) @ CHR ''-'' # s @ crlf @ rest) =
         Inr (Positive r (length (resp r)))" by simp
    moreover have "length rs < m - 1" "0 < m" using Cons.prems(1) by auto
    ultimately show ?case using Cons.IH[of "m - 1"] Cons.prems(2) by (simp add: array_loop_step)
  qed
  let ?body = "concat (map resp xs) @ CHR ''-'' # s @ crlf @ rest"
  from assms(3) limit_bound have n: "n < 2 ^ 63" by simp
  have ip: "int_parser env (dec_nat n @ crlf @ ?body) 1 = Positive (Int_t (of_nat n)) (3 + length (dec_nat n))"
    using int_line[OF cast_nat[OF n], of ?body 1] by simp
  have "drop (2 + length (dec_nat n)) (dec_nat n @ crlf @ ?body) = ?body" by simp
  with ip of_nat63_nonneg[OF n] sint_of_nat63[OF n] reserve_ok[OF assms(3)] loop[OF assms(2)]
  show ?thesis
    by (simp add: raw_parse.simps construct_primary_parser_def array_parser_eq)
qed

end

section \<open>A reader that keeps the contract\<close>

text \<open>
  The contract can be met: a strict decimal reader (an optional sign, then digits only, the value in
  range), and the bound \<^verbatim>\<open>max_size()\<close> of a vector of 40-byte elements.
\<close>

definition read_int64 :: "string \<Rightarrow> int64 option" where
  "read_int64 s =
     (let (neg, ds) = read_sign s;
          v = (if neg then - int (digits_value ds) else int (digits_value ds))
      in if ds = [] \<or> \<not> list_all is_digit ds then None
         else if - (2 ^ 63) \<le> v \<and> v < 2 ^ 63 then Some (word_of_int v) else None)"

definition max_elements :: nat where
  "max_elements = (2 ^ 63 - 1) div 40"

definition reader_env :: penv where
  "reader_env =
     \<lparr>lexical_cast = read_int64,
      reserve_throws = (\<lambda>n. if n \<le> max_elements then None else Some (Std_exception ''vector::reserve''))\<rparr>"

lemma read_sign_dec_nat: "read_sign (dec_nat n) = (False, dec_nat n)"
proof -
  obtain c cs where c: "dec_nat n = c # cs" by (cases "dec_nat n") auto
  then have "is_digit c" by (metis dec_nat_digits list.set_intros(1))
  then have "c \<noteq> CHR ''-''" "c \<noteq> CHR ''+''" by auto
  with c show ?thesis by (simp add: read_sign_def)
qed

lemma read_int64_dec: "read_int64 (dec_int (sint i)) = Some i"
proof -
  have d: "list_all is_digit (dec_nat n)" for n by (auto simp: list_all_iff dest: dec_nat_digits)
  have minus: "read_sign (CHR ''-'' # ds) = (True, ds)" for ds by (simp add: read_sign_def)
  have "- (2 ^ 63) \<le> sint i" "sint i < 2 ^ 63"
    using sint_ge[of i] sint_lt[of i] by simp_all
  then show ?thesis
    by (auto simp: read_int64_def dec_int_def read_sign_dec_nat d minus)
qed

interpretation ref: reply_reader reader_env max_elements
proof
  show "lexical_cast reader_env (dec_int (sint i)) = Some i" for i
    by (simp add: reader_env_def read_int64_dec)
  show "n \<le> max_elements \<Longrightarrow> reserve_throws reader_env n = None" for n
    by (simp add: reader_env_def)
  show "max_elements < 2 ^ 63"
    by (simp add: max_elements_def)
qed

end
