(* ===== verification/Rd_Commands.thy ===== *)
theory Rd_Commands
  imports Rd_Error
begin

text \<open>
  \<^verbatim>\<open>include/redis_async/commands.hpp\<close>, \<^verbatim>\<open>command_options.hpp\<close>, \<^verbatim>\<open>details/protocol/command_args.hpp\<close> and
  \<^verbatim>\<open>src/commands.cpp\<close>: a command is the list of its arguments, built by \<^verbatim>\<open>CmdArgs\<close> or by the
  initializer-list constructor. A \<^verbatim>\<open>std::string_view\<close> is its characters; where the code asks whether
  a view has data at all (\<^verbatim>\<open>ping\<close>), the view is an \<^typ>\<open>string option\<close> with \<^const>\<open>None\<close> for the
  default-constructed one. A duration is its \<^verbatim>\<open>count()\<close>. A command that throws is an \<open>Inl\<close>.
\<close>

section \<open>Commands and their containers\<close>

record single_command_t =
  arguments :: "string list"

type_synonym command_container_t = "single_command_t list"

datatype command_wrapper_t =
  Container command_container_t
| Single single_command_t

definition single_command :: "string list \<Rightarrow> rd_error + single_command_t" where
  \<comment> \<open>\<^verbatim>\<open>single_command_t(std::initializer_list<std::string_view>)\<close>\<close>
  "single_command args =
     (let cmd = \<lparr>arguments = args\<rparr> in
      if arguments cmd = [] then Inl (client_error ''Empty command not allowed'') else Inr cmd)"

definition default_command :: single_command_t where
  "default_command = \<lparr>arguments = []\<rparr>"

datatype UpdateType = UT_exist | UT_not_exist | UT_always | UT_other int

fun update_type_value :: "UpdateType \<Rightarrow> int" where
  \<comment> \<open>\<^verbatim>\<open>static_cast<int>\<close>; \<open>UT_other\<close> is a value cast from an integer that no enumerator has\<close>
  "update_type_value UT_exist = 0"
| "update_type_value UT_not_exist = 1"
| "update_type_value UT_always = 2"
| "update_type_value (UT_other v) = v"

section \<open>CmdArgs\<close>

text \<open>What the overloads of \<^verbatim>\<open>append\<close> and \<^verbatim>\<open>operator<<\<close> take.\<close>

datatype cmd_arg =
  A_view string
| A_string string
| A_cstr string
| A_num int

definition push_view :: "single_command_t \<Rightarrow> string \<Rightarrow> single_command_t" where
  "push_view c a = c\<lparr>arguments := arguments c @ [a]\<rparr>"

definition append_string :: "single_command_t \<Rightarrow> string \<Rightarrow> single_command_t" where
  "append_string c a = c\<lparr>arguments := arguments c @ [a]\<rparr>"

definition push_num :: "single_command_t \<Rightarrow> int \<Rightarrow> single_command_t" where
  "push_num c i = append_string c (dec_int i)"

fun append_one :: "single_command_t \<Rightarrow> cmd_arg \<Rightarrow> single_command_t" where
  "append_one c (A_view a) = push_view c a"
| "append_one c (A_string a) = append_string c a"
| "append_one c (A_cstr a) = push_view c a"
| "append_one c (A_num i) = push_num c i"

fun append_all :: "single_command_t \<Rightarrow> cmd_arg \<Rightarrow> cmd_arg list \<Rightarrow> single_command_t" where
  "append_all c a [] = append_one c a"
| "append_all c a (b # bs) = append_all (append_one c a) b bs"

function push_tuple :: "nat \<Rightarrow> single_command_t \<Rightarrow> cmd_arg list \<Rightarrow> single_command_t" where
  \<comment> \<open>the \<^verbatim>\<open>operator<<\<close> of tuples, with the index \<^verbatim>\<open>N\<close> of the next component\<close>
  "push_tuple n c t = (if n < length t then push_tuple (n + 1) (append_one c (t ! n)) t else c)"
  by pat_completeness auto
termination by (relation "measure (\<lambda>(n, c, t). length t - n)") auto

declare push_tuple.simps [simp del]

fun push_range :: "single_command_t \<Rightarrow> cmd_arg list \<Rightarrow> single_command_t" where
  \<comment> \<open>\<^verbatim>\<open>_append(std::false_type, range)\<close>\<close>
  "push_range c [] = c"
| "push_range c (a # as) = push_range (append_one c a) as"

fun push_kv_range :: "single_command_t \<Rightarrow> (cmd_arg \<times> cmd_arg) list \<Rightarrow> single_command_t" where
  \<comment> \<open>\<^verbatim>\<open>_append(std::true_type, range)\<close>\<close>
  "push_kv_range c [] = c"
| "push_kv_range c (p # ps) = push_kv_range (append_one (append_one c (fst p)) (snd p)) ps"

abbreviation view_range :: "single_command_t \<Rightarrow> string list \<Rightarrow> single_command_t" where
  "view_range c xs \<equiv> push_range c (map A_view xs)"

abbreviation view_kv_range :: "single_command_t \<Rightarrow> (string \<times> string) list \<Rightarrow> single_command_t" where
  "view_kv_range c kv \<equiv> push_kv_range c (map (map_prod A_view A_view) kv)"

section \<open>The commands\<close>

definition set_update_type :: "single_command_t \<Rightarrow> UpdateType \<Rightarrow> rd_error + single_command_t" where
  "set_update_type args type =
     (case type of
        UT_exist \<Rightarrow> Inr (push_view args ''XX'')
      | UT_not_exist \<Rightarrow> Inr (push_view args ''NX'')
      | UT_always \<Rightarrow> Inr args
      | _ \<Rightarrow> Inl (client_error (''Invalid update type '' @ dec_int (update_type_value type))))"

definition cmd_ping :: "string option \<Rightarrow> rd_error + single_command_t" where
  "cmd_ping msg = (case msg of Some m \<Rightarrow> single_command [''PING'', m] | None \<Rightarrow> single_command [''PING''])"

definition cmd_echo :: "string \<Rightarrow> rd_error + single_command_t" where
  "cmd_echo msg = single_command [''ECHO'', msg]"

definition cmd_set :: "string \<Rightarrow> string \<Rightarrow> UpdateType \<Rightarrow> int64 \<Rightarrow> rd_error + single_command_t" where
  "cmd_set key value type ttl =
     (let args = push_view (push_view (push_view default_command ''SET'') key) value;
          args = (if 0 <s ttl then push_num (push_view args ''PX'') (sint ttl) else args)
      in set_update_type args type)"

definition cmd_set_kv :: "string \<Rightarrow> string \<Rightarrow> rd_error + single_command_t" where
  "cmd_set_kv key value = cmd_set key value UT_always 0"

definition cmd_set_type :: "string \<Rightarrow> string \<Rightarrow> UpdateType \<Rightarrow> rd_error + single_command_t" where
  "cmd_set_type key value udp = cmd_set key value udp 0"

definition cmd_set_ttl :: "string \<Rightarrow> string \<Rightarrow> int64 \<Rightarrow> rd_error + single_command_t" where
  "cmd_set_ttl key value ttl = cmd_set key value UT_always ttl"

definition cmd_get :: "string \<Rightarrow> rd_error + single_command_t" where
  "cmd_get key = single_command [''GET'', key]"

definition cmd_mset :: "(string \<times> string) list \<Rightarrow> rd_error + single_command_t" where
  "cmd_mset kv =
     (if length kv = 0 then Inl (client_error ''MSET could not run without parameters'')
      else Inr (view_kv_range (push_view default_command ''MSET'') kv))"

definition cmd_del :: "string list \<Rightarrow> rd_error + single_command_t" where
  "cmd_del keys =
     (if length keys = 0 then Inl (client_error ''DEL could not run without parameters'')
      else Inr (view_range (push_view default_command ''DEL'') keys))"

definition cmd_exists :: "string list \<Rightarrow> rd_error + single_command_t" where
  "cmd_exists keys =
     (if length keys = 0 then Inl (client_error ''EXISTS could not run without parameters'')
      else Inr (view_range (push_view default_command ''EXISTS'') keys))"

definition cmd_expire :: "string \<Rightarrow> int64 \<Rightarrow> rd_error + single_command_t" where
  "cmd_expire key ttl = Inr (push_num (push_view (push_view default_command ''EXPIRE'') key) (sint ttl))"

definition cmd_pexpire :: "string \<Rightarrow> int64 \<Rightarrow> rd_error + single_command_t" where
  "cmd_pexpire key ttl = Inr (push_num (push_view (push_view default_command ''PEXPIRE'') key) (sint ttl))"

definition cmd_ttl :: "string \<Rightarrow> rd_error + single_command_t" where
  "cmd_ttl key = single_command [''TTL'', key]"

definition cmd_pttl :: "string \<Rightarrow> rd_error + single_command_t" where
  "cmd_pttl key = single_command [''PTTL'', key]"

definition cmd_rename :: "string \<Rightarrow> string \<Rightarrow> rd_error + single_command_t" where
  "cmd_rename key newkey = single_command [''RENAME'', key, newkey]"

definition cmd_keys :: "string \<Rightarrow> rd_error + single_command_t" where
  "cmd_keys pattern = single_command [''KEYS'', pattern]"

definition cmd_mget :: "string list \<Rightarrow> rd_error + single_command_t" where
  "cmd_mget keys =
     (if length keys = 0 then Inl (client_error ''MGET could not run without parameters'')
      else Inr (view_range (push_view default_command ''MGET'') keys))"

definition cmd_hset :: "string \<Rightarrow> (string \<times> string) list \<Rightarrow> rd_error + single_command_t" where
  "cmd_hset key kv =
     (if length kv = 0 then Inl (client_error ''HSET could not run without [field, value]'')
      else Inr (view_kv_range (push_view (push_view default_command ''HSET'') key) kv))"

definition cmd_hdel :: "string \<Rightarrow> string list \<Rightarrow> rd_error + single_command_t" where
  "cmd_hdel key keys =
     (if length keys = 0 then Inl (client_error ''HDEL could not run without keys'')
      else Inr (view_range (push_view (push_view default_command ''HDEL'') key) keys))"

definition cmd_hget :: "string \<Rightarrow> string \<Rightarrow> rd_error + single_command_t" where
  "cmd_hget key field = single_command [''HGET'', key, field]"

definition cmd_hkeys :: "string \<Rightarrow> rd_error + single_command_t" where
  "cmd_hkeys key = single_command [''HKEYS'', key]"

definition cmd_hmset :: "string \<Rightarrow> (string \<times> string) list \<Rightarrow> rd_error + single_command_t" where
  "cmd_hmset key kv =
     (if length kv = 0 then Inl (client_error ''HMSET could not run without fields/values'')
      else Inr (view_kv_range (push_view (push_view default_command ''HMSET'') key) kv))"

definition cmd_hmget :: "string \<Rightarrow> string list \<Rightarrow> rd_error + single_command_t" where
  "cmd_hmget key hash_fields =
     (if length hash_fields = 0 then Inl (client_error ''HMGET could not run without fields'')
      else Inr (view_range (push_view (push_view default_command ''HMGET'') key) hash_fields))"

definition cmd_lpush :: "string \<Rightarrow> string list \<Rightarrow> rd_error + single_command_t" where
  "cmd_lpush key elements =
     (if length elements = 0 then Inl (client_error ''LPUSH could not run without elements'')
      else Inr (view_range (push_view (push_view default_command ''LPUSH'') key) elements))"

definition cmd_rpush :: "string \<Rightarrow> string list \<Rightarrow> rd_error + single_command_t" where
  "cmd_rpush key elements =
     (if length elements = 0 then Inl (client_error ''RPUSH could not run without elements'')
      else Inr (view_range (push_view (push_view default_command ''RPUSH'') key) elements))"

definition cmd_lpop :: "string \<Rightarrow> rd_error + single_command_t" where
  "cmd_lpop key = single_command [''LPOP'', key]"

definition cmd_rpop :: "string \<Rightarrow> rd_error + single_command_t" where
  "cmd_rpop key = single_command [''RPOP'', key]"

definition cmd_llen :: "string \<Rightarrow> rd_error + single_command_t" where
  "cmd_llen key = single_command [''LLEN'', key]"

definition cmd_lrange :: "string \<Rightarrow> int32 \<Rightarrow> int32 \<Rightarrow> rd_error + single_command_t" where
  "cmd_lrange key start stop =
     Inr (push_num (push_num (push_view (push_view default_command ''LRANGE'') key) (sint start)) (sint stop))"

definition cmd_lset :: "string \<Rightarrow> int32 \<Rightarrow> string \<Rightarrow> rd_error + single_command_t" where
  "cmd_lset key index element =
     Inr (push_view (push_num (push_view (push_view default_command ''LSET'') key) (sint index)) element)"

definition cmd_lrem :: "string \<Rightarrow> int32 \<Rightarrow> string \<Rightarrow> rd_error + single_command_t" where
  "cmd_lrem key count element =
     Inr (push_view (push_num (push_view (push_view default_command ''LREM'') key) (sint count)) element)"

definition cmd_lindex :: "string \<Rightarrow> int32 \<Rightarrow> rd_error + single_command_t" where
  "cmd_lindex key index = Inr (push_num (push_view (push_view default_command ''LINDEX'') key) (sint index))"

definition cmd_ltrim :: "string \<Rightarrow> int32 \<Rightarrow> int32 \<Rightarrow> rd_error + single_command_t" where
  "cmd_ltrim key start stop =
     Inr (push_num (push_num (push_view (push_view default_command ''LTRIM'') key) (sint start)) (sint stop))"

definition cmd_sadd :: "string \<Rightarrow> string list \<Rightarrow> rd_error + single_command_t" where
  "cmd_sadd key members =
     (if length members = 0 then Inl (client_error ''SADD could not run without elements'')
      else Inr (view_range (push_view (push_view default_command ''SADD'') key) members))"

definition cmd_scard :: "string \<Rightarrow> rd_error + single_command_t" where
  "cmd_scard key = single_command [''SCARD'', key]"

definition cmd_sdiff :: "string list \<Rightarrow> rd_error + single_command_t" where
  "cmd_sdiff keys =
     (if length keys = 0 then Inl (client_error ''SDIFF could not run without elements'')
      else Inr (view_range (push_view default_command ''SDIFF'') keys))"

definition cmd_sdiffstore :: "string \<Rightarrow> string list \<Rightarrow> rd_error + single_command_t" where
  "cmd_sdiffstore dest keys =
     (if length keys = 0 then Inl (client_error ''SDIFFSTORE could not run without elements'')
      else Inr (view_range (push_view (push_view default_command ''SDIFFSTORE'') dest) keys))"

definition cmd_sinter :: "string list \<Rightarrow> rd_error + single_command_t" where
  "cmd_sinter keys =
     (if length keys = 0 then Inl (client_error ''SINTER could not run without elements'')
      else Inr (view_range (push_view default_command ''SINTER'') keys))"

definition cmd_sinterstore :: "string \<Rightarrow> string list \<Rightarrow> rd_error + single_command_t" where
  "cmd_sinterstore dest keys =
     (if length keys = 0 then Inl (client_error ''SINTERSTORE could not run without elements'')
      else Inr (view_range (push_view (push_view default_command ''SINTERSTORE'') dest) keys))"

definition cmd_smembers :: "string \<Rightarrow> rd_error + single_command_t" where
  "cmd_smembers key = single_command [''SMEMBERS'', key]"

definition cmd_spop :: "string \<Rightarrow> int32 \<Rightarrow> rd_error + single_command_t" where
  "cmd_spop key count =
     (if 0 <s count then single_command [''SPOP'', key, dec_int (sint count)]
      else single_command [''SPOP'', key])"

definition cmd_srem :: "string \<Rightarrow> string list \<Rightarrow> rd_error + single_command_t" where
  "cmd_srem key members =
     (if length members = 0 then Inl (client_error ''SREM could not run without elements'')
      else Inr (view_range (push_view (push_view default_command ''SREM'') key) members))"

definition cmd_sunion :: "string list \<Rightarrow> rd_error + single_command_t" where
  "cmd_sunion keys =
     (if length keys = 0 then Inl (client_error ''SUNION could not run without elements'')
      else Inr (view_range (push_view default_command ''SUNION'') keys))"

definition cmd_sunionstore :: "string \<Rightarrow> string list \<Rightarrow> rd_error + single_command_t" where
  "cmd_sunionstore dest keys =
     (if length keys = 0 then Inl (client_error ''SUNIONSTORE could not run without elements'')
      else Inr (view_range (push_view (push_view default_command ''SUNIONSTORE'') dest) keys))"

end
