(* ===== verification/Rd_Serializer.thy ===== *)
theory Rd_Serializer
  imports Rd_Wire Rd_Commands
begin

text \<open>
  \<^verbatim>\<open>details/protocol/serializer.hpp\<close>: the size computation and the in-place serializer. The buffer is
  the list of its characters; a write outside it is undefined behaviour of the program and \<^const>\<open>None\<close>
  here, so a theorem that the serializer returns \<^const>\<open>Some\<close> includes that it stays inside the buffer.
\<close>

section \<open>Sizes\<close>

fun size_for_int_loop :: "nat \<Rightarrow> nat \<Rightarrow> nat" where
  "size_for_int_loop r arg = (if arg \<noteq> 0 then size_for_int_loop (r + 1) (arg div 10) else r)"

declare size_for_int_loop.simps [simp del]

definition size_for_int :: "nat \<Rightarrow> nat" where
  "size_for_int arg = max 1 (size_for_int_loop 0 arg)"

definition terminator_size :: nat where
  "terminator_size = 2"

fun command_size_loop :: "nat \<Rightarrow> string list \<Rightarrow> nat" where
  "command_size_loop sz [] = sz"
| "command_size_loop sz (arg # args) =
     command_size_loop
       (sz + (1 + size_for_int (length arg) + terminator_size + length arg + terminator_size)) args"

definition command_size :: "single_command_t \<Rightarrow> nat" where
  "command_size cmd =
     command_size_loop (1 + size_for_int (length (arguments cmd)) + terminator_size) (arguments cmd)"

section \<open>Writing into the buffer\<close>

definition write_at :: "nat \<Rightarrow> string \<Rightarrow> string \<Rightarrow> string option" where
  \<comment> \<open>a write of the given characters; \<^const>\<open>None\<close> when it leaves the buffer\<close>
  "write_at p bs buff =
     (if p + length bs \<le> length buff then Some (take p buff @ bs @ drop (p + length bs) buff) else None)"

definition snprintf_at :: "nat \<Rightarrow> nat \<Rightarrow> string \<Rightarrow> string \<Rightarrow> string option" where
  \<comment> \<open>\<^verbatim>\<open>snprintf(buff + p, size, ...)\<close> whose formatted text is given: at most \<^verbatim>\<open>size - 1\<close> characters and
      the final NUL; its return value is the length of the text\<close>
  "snprintf_at p sz text buff =
     (if sz = 0 then Some buff else write_at p (take (sz - 1) text @ [NUL]) buff)"

fun serialize_args :: "nat \<Rightarrow> nat \<Rightarrow> string list \<Rightarrow> string \<Rightarrow> string option" where
  "serialize_args sz tot [] buff = Some buff"
| "serialize_args sz tot (arg # args) buff =
     (let header = CHR ''$'' # dec_nat (length arg) @ crlf in
      case snprintf_at tot sz header buff of
        None \<Rightarrow> None
      | Some buff \<Rightarrow>
          let tot = tot + length header in
          case (if arg \<noteq> [] then write_at tot arg buff else Some buff) of
            None \<Rightarrow> None
          | Some buff \<Rightarrow>
              let tot = (if arg \<noteq> [] then tot + length arg else tot) in
              case write_at tot [CR] buff of
                None \<Rightarrow> None
              | Some buff \<Rightarrow>
                  case write_at (tot + 1) [LF] buff of
                    None \<Rightarrow> None
                  | Some buff \<Rightarrow> serialize_args sz (tot + 2) args buff)"

definition serialize :: "string \<Rightarrow> single_command_t \<Rightarrow> string option" where
  "serialize buff cmd =
     (let tot = length buff;
          sz = command_size cmd;
          buff = buff @ replicate sz NUL;
          header = CHR ''*'' # dec_nat (length (arguments cmd)) @ crlf
      in case snprintf_at tot sz header buff of
           None \<Rightarrow> None
         | Some buff \<Rightarrow> serialize_args sz (tot + length header) (arguments cmd) buff)"

fun serialize_container :: "string \<Rightarrow> command_container_t \<Rightarrow> string option" where
  "serialize_container buff [] = Some buff"
| "serialize_container buff (cmd # cont) =
     (case serialize buff cmd of None \<Rightarrow> None | Some buff \<Rightarrow> serialize_container buff cont)"

fun serialize_wrapper :: "string \<Rightarrow> command_wrapper_t \<Rightarrow> string option" where
  \<comment> \<open>\<^verbatim>\<open>std::visit\<close> with \<^verbatim>\<open>command_serializer_visitor\<close>\<close>
  "serialize_wrapper buff (Container cont) = serialize_container buff cont"
| "serialize_wrapper buff (Single cmd) = serialize buff cmd"

section \<open>The sizes are exact\<close>

definition bulk :: "string \<Rightarrow> string" where
  "bulk s = resp (String_t s)"

definition wire_command :: "string list \<Rightarrow> string" where
  \<comment> \<open>a command on the wire: an array of bulk strings\<close>
  "wire_command args = resp (Array_t (map String_t args))"

lemma bulk_eq_wire: "bulk s = CHR ''$'' # dec_nat (length s) @ crlf @ s @ crlf"
  by (simp add: bulk_def)

lemma wire_command_eq:
  "wire_command args = CHR ''*'' # dec_nat (length args) @ crlf @ concat (map bulk args)"
proof -
  have "map resp (map String_t args) = map bulk args"
    by (induction args) (simp_all add: bulk_def)
  then show ?thesis by (simp only: wire_command_def resp.simps length_map)
qed

lemma size_for_int_loop_dec: "0 < n \<Longrightarrow> size_for_int_loop r n = r + length (dec_nat n)"
proof (induction n arbitrary: r rule: dec_nat.induct)
  case (1 n)
  show ?case
  proof (cases "n < 10")
    case True
    with "1.prems" show ?thesis
      by (simp add: size_for_int_loop.simps[of r n] size_for_int_loop.simps[of _ 0] dec_nat.simps[of n])
  next
    case False
    with "1.IH"[OF False, of "r + 1"] show ?thesis
      by (simp add: size_for_int_loop.simps[of r n] dec_nat.simps[of n])
  qed
qed

lemma size_for_int_dec: "size_for_int n = length (dec_nat n)"
proof (cases "n = 0")
  case True
  then show ?thesis
    by (simp add: size_for_int_def size_for_int_loop.simps[of 0 0] dec_nat.simps[of 0])
next
  case False
  then show ?thesis
    by (simp add: size_for_int_def size_for_int_loop_dec Suc_le_eq)
qed

lemma command_size_loop_add:
  "command_size_loop sz args = sz + length (concat (map bulk args))"
  by (induction args arbitrary: sz) (simp_all add: size_for_int_dec terminator_size_def bulk_eq_wire)

lemma command_size_wire: "command_size cmd = length (wire_command (arguments cmd))"
  by (simp add: command_size_def command_size_loop_add size_for_int_dec terminator_size_def
      wire_command_eq)

section \<open>The serializer writes the wire format\<close>

lemma write_at_exact:
  assumes "length bs \<le> length junk"
  shows "write_at (length pre) bs (pre @ junk) = Some ((pre @ bs) @ drop (length bs) junk)"
  using assms by (simp add: write_at_def)

lemma snprintf_exact:
  assumes "length text < sz" "length text < length junk"
  shows "snprintf_at (length pre) sz text (pre @ junk) =
     Some ((pre @ text) @ NUL # drop (length text + 1) junk)"
proof -
  have "snprintf_at (length pre) sz text (pre @ junk) = write_at (length pre) (text @ [NUL]) (pre @ junk)"
    using assms by (simp add: snprintf_at_def)
  also have "\<dots> = Some ((pre @ text @ [NUL]) @ drop (length (text @ [NUL])) junk)"
    using assms by (intro write_at_exact) simp
  finally show ?thesis by simp
qed

text \<open>
  The bytes already written are never touched again: each argument overwrites the NUL its header
  left behind, and after the last one the buffer is full.
\<close>

lemma serialize_args_exact:
  assumes "length junk = length (concat (map bulk args))" "length junk \<le> sz"
  shows "serialize_args sz (length pre) args (pre @ junk) = Some (pre @ concat (map bulk args))"
  using assms
proof (induction args arbitrary: pre junk)
  case Nil
  then show ?case by simp
next
  case (Cons arg args)
  let ?h = "CHR ''$'' # dec_nat (length arg) @ crlf"
  let ?j1 = "NUL # drop (length ?h + 1) junk"
  let ?rest = "concat (map bulk args)"
  from Cons.prems have len: "length junk = length ?h + length arg + 2 + length ?rest"
    by (simp add: bulk_eq_wire[of arg])
  have s1: "snprintf_at (length pre) sz ?h (pre @ junk) = Some ((pre @ ?h) @ ?j1)"
    using len Cons.prems(2) by (intro snprintf_exact) auto
  have lj1: "length ?j1 = length arg + 2 + length ?rest" using len by simp
  have s2: "(if arg \<noteq> [] then write_at (length (pre @ ?h)) arg ((pre @ ?h) @ ?j1)
      else Some ((pre @ ?h) @ ?j1)) = Some ((pre @ ?h @ arg) @ drop (length arg) ?j1)"
    using lj1 write_at_exact[of arg ?j1 "pre @ ?h"] by simp
  let ?j2 = "drop (length arg) ?j1"
  have lj2: "length ?j2 = 2 + length ?rest" using lj1 by simp
  have s3: "write_at (length (pre @ ?h @ arg)) [CR] ((pre @ ?h @ arg) @ ?j2) =
      Some ((pre @ ?h @ arg @ [CR]) @ drop 1 ?j2)"
    using lj2 write_at_exact[of "[CR]" ?j2 "pre @ ?h @ arg"] by simp
  have s4: "write_at (length (pre @ ?h @ arg @ [CR])) [LF] ((pre @ ?h @ arg @ [CR]) @ drop 1 ?j2) =
      Some ((pre @ bulk arg) @ drop 2 ?j2)"
    using lj2 write_at_exact[of "[LF]" "drop 1 ?j2" "pre @ ?h @ arg @ [CR]"]
    by (simp add: bulk_eq_wire)
  have IH: "serialize_args sz (length (pre @ bulk arg)) args ((pre @ bulk arg) @ drop 2 ?j2) =
      Some ((pre @ bulk arg) @ ?rest)"
    using lj2 len Cons.prems(2) by (intro Cons.IH) auto
  have t: "length pre + length ?h = length (pre @ ?h)"
    "(if arg \<noteq> [] then length (pre @ ?h) + length arg else length (pre @ ?h)) = length (pre @ ?h @ arg)"
    "length (pre @ ?h @ arg) + 1 = length (pre @ ?h @ arg @ [CR])"
    "length (pre @ ?h @ arg) + 2 = length (pre @ bulk arg)"
    by (simp_all add: bulk_eq_wire)
  show ?case
    unfolding serialize_args.simps Let_def s1 option.case t s2 s3 s4 IH
    by simp
qed

lemma serialize_exact:
  assumes "arguments cmd \<noteq> []"
  shows "serialize buff cmd = Some (buff @ wire_command (arguments cmd))"
proof -
  let ?args = "arguments cmd"
  let ?h = "CHR ''*'' # dec_nat (length ?args) @ crlf"
  let ?size = "command_size cmd"
  have size: "?size = length ?h + length (concat (map bulk ?args))"
    by (simp add: command_size_wire wire_command_eq)
  from assms obtain a as where "?args = a # as" by (cases ?args) auto
  then have pos: "0 < length (concat (map bulk ?args))" by (simp add: bulk_eq_wire)
  let ?j = "NUL # drop (length ?h + 1) (replicate ?size NUL)"
  have s1: "snprintf_at (length buff) ?size ?h (buff @ replicate ?size NUL) = Some ((buff @ ?h) @ ?j)"
    using size pos by (intro snprintf_exact) auto
  have s2: "serialize_args ?size (length (buff @ ?h)) ?args ((buff @ ?h) @ ?j) =
      Some ((buff @ ?h) @ concat (map bulk ?args))"
    using size pos by (intro serialize_args_exact) auto
  have t: "length buff + length ?h = length (buff @ ?h)" by simp
  show ?thesis
    unfolding serialize_def Let_def s1 option.case t s2 by (simp add: wire_command_eq)
qed

lemma serialize_container_exact:
  assumes "\<And>cmd. cmd \<in> set cont \<Longrightarrow> arguments cmd \<noteq> []"
  shows "serialize_container buff cont = Some (buff @ concat (map (wire_command \<circ> arguments) cont))"
  using assms by (induction cont arbitrary: buff) (simp_all add: serialize_exact)

text \<open>
  Without arguments there is no byte after the header, and the NUL of \<^verbatim>\<open>snprintf\<close> takes the place of
  the last character of the terminator.
\<close>

lemma serialize_empty:
  "serialize buff default_command = Some (buff @ ''*0'' @ [CR, NUL])"
proof -
  have d: "dec_nat 0 = ''0''" by code_simp
  have "command_size default_command = 4"
    by (simp add: command_size_wire wire_command_eq default_command_def d)
  then show ?thesis
    by (simp add: serialize_def default_command_def Let_def d snprintf_at_def write_at_def
        numeral_eq_Suc)
qed

text \<open>What a reader of the wire format makes of a command.\<close>

context reply_reader
begin

lemma command_reply:
  assumes "length args \<le> limit" and "list_all (\<lambda>a. length a < 2 ^ 63) args"
  shows "raw_parse env (wire_command args) =
    Inr (Positive (Array_t (map String_t args)) (length (wire_command args)))"
proof -
  from assms have "wire_ok limit (Array_t (map String_t args))" by (simp add: list_all_iff)
  from roundtrip[OF this, of "[]"] show ?thesis by (simp add: wire_command_def del: resp.simps)
qed

end

end
