(* ===== verification/Rd_Command_Laws.thy ===== *)
theory Rd_Command_Laws
  imports Rd_Serializer
begin

text \<open>
  The commands against their specification. \<open>api_call\<close> has a constructor per function of
  \<^verbatim>\<open>namespace cmd\<close>, overloads included; a default argument is given explicitly. \<open>call_name\<close>, \<open>call_operands\<close> and
  \<open>call_error\<close> say, without \<^verbatim>\<open>CmdArgs\<close> and without the calls of one overload by another, what each is to
  send and with which message it refuses. The main lemma \<open>build_spec\<close> is the equality of the two.
\<close>

section \<open>What CmdArgs collects\<close>

lemma arguments_push [simp]:
  "arguments (push_view c a) = arguments c @ [a]"
  "arguments (append_string c a) = arguments c @ [a]"
  "arguments (push_num c i) = arguments c @ [dec_int i]"
  "arguments default_command = []"
  by (simp_all add: push_view_def append_string_def push_num_def default_command_def)

fun arg_text :: "cmd_arg \<Rightarrow> string" where
  "arg_text (A_view a) = a"
| "arg_text (A_string a) = a"
| "arg_text (A_cstr a) = a"
| "arg_text (A_num i) = dec_int i"

lemma arguments_append_one [simp]: "arguments (append_one c a) = arguments c @ [arg_text a]"
  by (cases a) simp_all

lemma arguments_append_all: "arguments (append_all c a as) = arguments c @ map arg_text (a # as)"
  by (induction c a as rule: append_all.induct) simp_all

lemma arguments_push_range [simp]: "arguments (push_range c as) = arguments c @ map arg_text as"
  by (induction c as rule: push_range.induct) simp_all

lemma arguments_push_kv_range [simp]:
  "arguments (push_kv_range c ps) = arguments c @ concat (map (\<lambda>(k, v). [arg_text k, arg_text v]) ps)"
  by (induction c ps rule: push_kv_range.induct) (simp_all add: split_def)

text \<open>The three ways of adding several arguments agree.\<close>

lemma arguments_push_tuple: "arguments (push_tuple n c t) = arguments c @ map arg_text (drop n t)"
proof (induction n c t rule: push_tuple.induct)
  case (1 n c t)
  show ?case
  proof (cases "n < length t")
    case True
    with 1 show ?thesis
      by (subst push_tuple.simps) (simp add: Cons_nth_drop_Suc[symmetric])
  next
    case False
    then show ?thesis by (subst push_tuple.simps) simp
  qed
qed

lemma view_text [simp]: "arg_text \<circ> A_view = (\<lambda>a. a)" "map (arg_text \<circ> A_view) xs = xs"
  by (auto simp: comp_def)

definition flatten_kv :: "(string \<times> string) list \<Rightarrow> string list" where
  "flatten_kv kv = concat (map (\<lambda>(k, v). [k, v]) kv)"

lemma kv_text [simp]:
  "concat (map ((\<lambda>(k, v). [arg_text k, arg_text v]) \<circ> map_prod A_view A_view) kv) = flatten_kv kv"
  by (simp add: flatten_kv_def comp_def split_def)

lemma arguments_view_kv: "arguments (view_kv_range c kv) = arguments c @ flatten_kv kv"
  by simp

lemma arguments_view_range [simp]: "arguments (view_range c xs) = arguments c @ xs"
  by simp

lemma command_eqI: "arguments c = xs \<Longrightarrow> c = \<lparr>arguments = xs\<rparr>"
  by (cases c) simp

section \<open>The calls and their specification\<close>

datatype api_call =
  Ping "string option" | Echo string
| Set_kv string string | Set_type string string UpdateType | Set_ttl string string int64
| Set string string UpdateType int64 | Get string
| Mset "(string \<times> string) list" | Mget "string list" | Del "string list" | Exists "string list"
| Expire string int64 | Pexpire string int64 | Ttl string | Pttl string
| Rename string string | Keys string
| Hset string "(string \<times> string) list" | Hdel string "string list" | Hget string string
| Hkeys string | Hmset string "(string \<times> string) list" | Hmget string "string list"
| Lpush string "string list" | Rpush string "string list" | Lpop string | Rpop string | Llen string
| Lrange string int32 int32 | Lset string int32 string | Lrem string int32 string
| Lindex string int32 | Ltrim string int32 int32
| Sadd string "string list" | Scard string | Sdiff "string list" | Sdiffstore string "string list"
| Sinter "string list" | Sinterstore string "string list" | Smembers string | Spop string int32
| Srem string "string list" | Sunion "string list" | Sunionstore string "string list"

fun build :: "api_call \<Rightarrow> rd_error + single_command_t" where
  "build (Ping m) = cmd_ping m" | "build (Echo m) = cmd_echo m"
| "build (Set_kv k v) = cmd_set_kv k v" | "build (Set_type k v u) = cmd_set_type k v u"
| "build (Set_ttl k v t) = cmd_set_ttl k v t"
| "build (Set k v u t) = cmd_set k v u t" | "build (Get k) = cmd_get k"
| "build (Mset kv) = cmd_mset kv" | "build (Mget ks) = cmd_mget ks"
| "build (Del ks) = cmd_del ks" | "build (Exists ks) = cmd_exists ks"
| "build (Expire k t) = cmd_expire k t" | "build (Pexpire k t) = cmd_pexpire k t"
| "build (Ttl k) = cmd_ttl k" | "build (Pttl k) = cmd_pttl k"
| "build (Rename k n) = cmd_rename k n" | "build (Keys p) = cmd_keys p"
| "build (Hset k kv) = cmd_hset k kv" | "build (Hdel k fs) = cmd_hdel k fs"
| "build (Hget k f) = cmd_hget k f" | "build (Hkeys k) = cmd_hkeys k"
| "build (Hmset k kv) = cmd_hmset k kv" | "build (Hmget k fs) = cmd_hmget k fs"
| "build (Lpush k es) = cmd_lpush k es" | "build (Rpush k es) = cmd_rpush k es"
| "build (Lpop k) = cmd_lpop k" | "build (Rpop k) = cmd_rpop k" | "build (Llen k) = cmd_llen k"
| "build (Lrange k a b) = cmd_lrange k a b" | "build (Lset k i e) = cmd_lset k i e"
| "build (Lrem k i e) = cmd_lrem k i e" | "build (Lindex k i) = cmd_lindex k i"
| "build (Ltrim k a b) = cmd_ltrim k a b"
| "build (Sadd k ms) = cmd_sadd k ms" | "build (Scard k) = cmd_scard k"
| "build (Sdiff ks) = cmd_sdiff ks" | "build (Sdiffstore d ks) = cmd_sdiffstore d ks"
| "build (Sinter ks) = cmd_sinter ks" | "build (Sinterstore d ks) = cmd_sinterstore d ks"
| "build (Smembers k) = cmd_smembers k" | "build (Spop k n) = cmd_spop k n"
| "build (Srem k ms) = cmd_srem k ms" | "build (Sunion ks) = cmd_sunion ks"
| "build (Sunionstore d ks) = cmd_sunionstore d ks"

fun call_name :: "api_call \<Rightarrow> string" where
  "call_name (Ping _) = ''PING''" | "call_name (Echo _) = ''ECHO''"
| "call_name (Set_kv _ _) = ''SET''" | "call_name (Set_type _ _ _) = ''SET''"
| "call_name (Set_ttl _ _ _) = ''SET''"
| "call_name (Set _ _ _ _) = ''SET''" | "call_name (Get _) = ''GET''"
| "call_name (Mset _) = ''MSET''" | "call_name (Mget _) = ''MGET''"
| "call_name (Del _) = ''DEL''" | "call_name (Exists _) = ''EXISTS''"
| "call_name (Expire _ _) = ''EXPIRE''" | "call_name (Pexpire _ _) = ''PEXPIRE''"
| "call_name (Ttl _) = ''TTL''" | "call_name (Pttl _) = ''PTTL''"
| "call_name (Rename _ _) = ''RENAME''" | "call_name (Keys _) = ''KEYS''"
| "call_name (Hset _ _) = ''HSET''" | "call_name (Hdel _ _) = ''HDEL''"
| "call_name (Hget _ _) = ''HGET''" | "call_name (Hkeys _) = ''HKEYS''"
| "call_name (Hmset _ _) = ''HMSET''" | "call_name (Hmget _ _) = ''HMGET''"
| "call_name (Lpush _ _) = ''LPUSH''" | "call_name (Rpush _ _) = ''RPUSH''"
| "call_name (Lpop _) = ''LPOP''" | "call_name (Rpop _) = ''RPOP''" | "call_name (Llen _) = ''LLEN''"
| "call_name (Lrange _ _ _) = ''LRANGE''" | "call_name (Lset _ _ _) = ''LSET''"
| "call_name (Lrem _ _ _) = ''LREM''" | "call_name (Lindex _ _) = ''LINDEX''"
| "call_name (Ltrim _ _ _) = ''LTRIM''"
| "call_name (Sadd _ _) = ''SADD''" | "call_name (Scard _) = ''SCARD''"
| "call_name (Sdiff _) = ''SDIFF''" | "call_name (Sdiffstore _ _) = ''SDIFFSTORE''"
| "call_name (Sinter _) = ''SINTER''" | "call_name (Sinterstore _ _) = ''SINTERSTORE''"
| "call_name (Smembers _) = ''SMEMBERS''" | "call_name (Spop _ _) = ''SPOP''"
| "call_name (Srem _ _) = ''SREM''" | "call_name (Sunion _) = ''SUNION''"
| "call_name (Sunionstore _ _) = ''SUNIONSTORE''"

fun update_words :: "UpdateType \<Rightarrow> string list" where
  "update_words UT_exist = [''XX'']"
| "update_words UT_not_exist = [''NX'']"
| "update_words _ = []"

definition ttl_words :: "int64 \<Rightarrow> string list" where
  "ttl_words t = (if 0 < sint t then [''PX'', dec_int (sint t)] else [])"

fun call_operands :: "api_call \<Rightarrow> string list" where
  "call_operands (Ping m) = (case m of None \<Rightarrow> [] | Some t \<Rightarrow> [t])"
| "call_operands (Set_kv k v) = [k, v]"
| "call_operands (Set_type k v u) = [k, v] @ update_words u"
| "call_operands (Set_ttl k v t) = [k, v] @ ttl_words t"
| "call_operands (Set k v u t) = [k, v] @ ttl_words t @ update_words u"
| "call_operands (Mset kv) = flatten_kv kv"
| "call_operands (Hset k kv) = k # flatten_kv kv" | "call_operands (Hmset k kv) = k # flatten_kv kv"
| "call_operands (Mget ks) = ks" | "call_operands (Del ks) = ks" | "call_operands (Exists ks) = ks"
| "call_operands (Sdiff ks) = ks" | "call_operands (Sinter ks) = ks" | "call_operands (Sunion ks) = ks"
| "call_operands (Hdel k xs) = k # xs" | "call_operands (Hmget k xs) = k # xs"
| "call_operands (Lpush k xs) = k # xs" | "call_operands (Rpush k xs) = k # xs"
| "call_operands (Sadd k xs) = k # xs" | "call_operands (Srem k xs) = k # xs"
| "call_operands (Sdiffstore k xs) = k # xs" | "call_operands (Sinterstore k xs) = k # xs"
| "call_operands (Sunionstore k xs) = k # xs"
| "call_operands (Expire k t) = [k, dec_int (sint t)]"
| "call_operands (Pexpire k t) = [k, dec_int (sint t)]"
| "call_operands (Rename k n) = [k, n]" | "call_operands (Hget k f) = [k, f]"
| "call_operands (Lrange k a b) = [k, dec_int (sint a), dec_int (sint b)]"
| "call_operands (Ltrim k a b) = [k, dec_int (sint a), dec_int (sint b)]"
| "call_operands (Lset k i e) = [k, dec_int (sint i), e]"
| "call_operands (Lrem k i e) = [k, dec_int (sint i), e]"
| "call_operands (Lindex k i) = [k, dec_int (sint i)]"
| "call_operands (Spop k n) = (if 0 < sint n then [k, dec_int (sint n)] else [k])"
| "call_operands (Echo k) = [k]" | "call_operands (Get k) = [k]" | "call_operands (Ttl k) = [k]"
| "call_operands (Pttl k) = [k]" | "call_operands (Keys k) = [k]" | "call_operands (Hkeys k) = [k]"
| "call_operands (Lpop k) = [k]" | "call_operands (Rpop k) = [k]" | "call_operands (Llen k) = [k]"
| "call_operands (Scard k) = [k]" | "call_operands (Smembers k) = [k]"

text \<open>The list operand a call must not leave empty, if it has one.\<close>

fun call_list :: "api_call \<Rightarrow> string list option" where
  "call_list (Mset kv) = Some (flatten_kv kv)" | "call_list (Hset _ kv) = Some (flatten_kv kv)"
| "call_list (Hmset _ kv) = Some (flatten_kv kv)"
| "call_list (Mget ks) = Some ks" | "call_list (Del ks) = Some ks" | "call_list (Exists ks) = Some ks"
| "call_list (Sdiff ks) = Some ks" | "call_list (Sinter ks) = Some ks" | "call_list (Sunion ks) = Some ks"
| "call_list (Hdel _ xs) = Some xs" | "call_list (Hmget _ xs) = Some xs"
| "call_list (Lpush _ xs) = Some xs" | "call_list (Rpush _ xs) = Some xs"
| "call_list (Sadd _ xs) = Some xs" | "call_list (Srem _ xs) = Some xs"
| "call_list (Sdiffstore _ xs) = Some xs" | "call_list (Sinterstore _ xs) = Some xs"
| "call_list (Sunionstore _ xs) = Some xs"
| "call_list _ = None"

text \<open>What the message says is missing then.\<close>

fun missing :: "api_call \<Rightarrow> string" where
  "missing (Mset _) = ''parameters''" | "missing (Mget _) = ''parameters''"
| "missing (Del _) = ''parameters''" | "missing (Exists _) = ''parameters''"
| "missing (Hset _ _) = ''[field, value]''" | "missing (Hdel _ _) = ''keys''"
| "missing (Hmset _ _) = ''fields/values''" | "missing (Hmget _ _) = ''fields''"
| "missing _ = ''elements''"

text \<open>The update type of a call, if it has one.\<close>

fun call_update :: "api_call \<Rightarrow> UpdateType" where
  "call_update (Set _ _ u _) = u"
| "call_update (Set_type _ _ u) = u"
| "call_update _ = UT_always"

definition call_error :: "api_call \<Rightarrow> string option" where
  "call_error call =
     (if call_list call = Some [] then Some (call_name call @ '' could not run without '' @ missing call)
      else case call_update call of
             UT_other v \<Rightarrow> Some (''Invalid update type '' @ dec_int v)
           | _ \<Rightarrow> None)"

lemma flatten_kv_Nil [simp]: "flatten_kv kv = [] \<longleftrightarrow> kv = []"
  by (cases kv) (auto simp: flatten_kv_def)

lemmas command_defs =
  cmd_ping_def cmd_echo_def cmd_get_def cmd_mset_def cmd_del_def cmd_exists_def
  cmd_expire_def cmd_pexpire_def cmd_ttl_def cmd_pttl_def cmd_rename_def cmd_keys_def cmd_mget_def
  cmd_hset_def cmd_hdel_def cmd_hget_def cmd_hkeys_def cmd_hmset_def cmd_hmget_def cmd_lpush_def
  cmd_rpush_def cmd_lpop_def cmd_rpop_def cmd_llen_def cmd_lrange_def cmd_lset_def cmd_lrem_def
  cmd_lindex_def cmd_ltrim_def cmd_sadd_def cmd_scard_def cmd_sdiff_def cmd_sdiffstore_def
  cmd_sinter_def cmd_sinterstore_def cmd_smembers_def cmd_spop_def cmd_srem_def cmd_sunion_def
  cmd_sunionstore_def cmd_set_kv_def cmd_set_type_def cmd_set_ttl_def

lemma single_command_Cons [simp]: "single_command (a # as) = Inr \<lparr>arguments = a # as\<rparr>"
  by (simp add: single_command_def)

lemma command_eq_iff: "c = \<lparr>arguments = xs\<rparr> \<longleftrightarrow> arguments c = xs"
  by (cases c) simp

lemma cmd_set_cases:
  "cmd_set k v u t =
     (case u of
        UT_other n \<Rightarrow> Inl (client_error (''Invalid update type '' @ dec_int n))
      | _ \<Rightarrow> Inr \<lparr>arguments = [''SET'', k, v] @ ttl_words t @ update_words u\<rparr>)"
  by (cases u; cases "0 < sint t")
    (simp_all add: cmd_set_def set_update_type_def word_sless_alt Let_def command_eqI ttl_words_def)

text \<open>The list operands, and those that choose the words of a \<^verbatim>\<open>SET\<close> or of a \<^verbatim>\<open>PING\<close>.\<close>

lemma build_spec:
  "build call =
     (case call_error call of
        Some m \<Rightarrow> Inl (client_error m)
      | None \<Rightarrow> Inr \<lparr>arguments = call_name call # call_operands call\<rparr>)"
  by (cases call)
    (simp_all add: call_error_def command_defs cmd_set_cases command_eq_iff word_sless_alt ttl_words_def
      split: UpdateType.split option.split)

lemma build_Inr: "build call = Inr cmd \<Longrightarrow> arguments cmd = call_name call # call_operands call"
  by (auto simp: build_spec split: option.splits)

end
