(* ===== verification/Rd_Options.thy ===== *)
theory Rd_Options
  imports Rd_Error
begin

text \<open>
  \<^verbatim>\<open>include/redis_async/common.hpp\<close> and \<^verbatim>\<open>src/common.cpp\<close>: the connection options and the parser of
  connection strings. Two functions of Boost are parameters, the fields of \<open>boost_str\<close>:
  \<^verbatim>\<open>boost::split(_, s, is_any_of("c"))\<close> and \<^verbatim>\<open>boost::to_lower_copy\<close>. A thrown \<^verbatim>\<open>rd_error\<close> is an \<open>Inl\<close>. Timeouts
  are the 64-bit count of milliseconds; the conversions from seconds and minutes multiply it, and
  the multiplication wraps.
\<close>

record boost_str =
  split_any :: "string \<Rightarrow> char \<Rightarrow> string list"
  to_lower_copy :: "string \<Rightarrow> string"

type_synonym rdalias = string

record connection_options =
  conn_alias :: rdalias
  schema :: string
  uri :: string
  database :: string
  password :: string
  keep_alive :: bool
  connect_timeout :: int64
  socket_timeout :: int64

definition default_options :: connection_options where
  "default_options =
     \<lparr>conn_alias = [], schema = [], uri = [], database = [], password = [], keep_alive = False,
      connect_timeout = 0, socket_timeout = 0\<rparr>"

abbreviation invalid_string :: rd_error where
  "invalid_string \<equiv> connection_error ''invalid connection string''"

section \<open>connect_string_parser\<close>

definition split_uri ::
  "string \<Rightarrow> connection_options \<Rightarrow> rd_error + (string \<times> string) \<times> connection_options" where
  "split_uri s opts =
     (case find_from s ''='' 0 of
        None \<Rightarrow> Inl invalid_string
      | Some p \<Rightarrow>
          let opts = opts\<lparr>conn_alias := substr s 0 (Some p)\<rparr> in
          if conn_alias opts = [] then Inl invalid_string
          else
            let start = p + 1 in
            case find_from s ''://'' start of
              None \<Rightarrow> Inl invalid_string
            | Some p \<Rightarrow>
                let opts = opts\<lparr>schema := substr s start (Some (p - start))\<rparr> in
                if schema opts = [] then Inl invalid_string
                else
                  let start = p + 3 in
                  case find_from s ''@'' start of
                    None \<Rightarrow> Inr (([], substr s start None), opts)
                  | Some p \<Rightarrow>
                      let auth = substr s start (Some (p - start))
                      in Inr ((auth, substr s (p + 1) None), opts))"

definition set_auth_opts :: "string \<Rightarrow> connection_options \<Rightarrow> connection_options" where
  "set_auth_opts auth opts = (if auth = [] then opts else opts\<lparr>password := auth\<rparr>)"

definition split_path :: "string \<Rightarrow> connection_options \<Rightarrow> rd_error + string \<times> connection_options" where
  "split_path path opts =
     (let parameter_pos = rfind path (CHR ''?'');
          parameter_string = (case parameter_pos of None \<Rightarrow> [] | Some p \<Rightarrow> substr path (p + 1) None);
          opts =
            (case rfind path (CHR ''/'') of
               Some p \<Rightarrow>
                 let db = substr path (p + 1) None in
                 (case stoi db of
                    Some _ \<Rightarrow> opts\<lparr>database := db, uri := substr path 0 (Some p)\<rparr>
                  | None \<Rightarrow> opts\<lparr>uri := substr path 0 parameter_pos\<rparr>)
             | None \<Rightarrow> opts\<lparr>uri := substr path 0 parameter_pos\<rparr>)
      in if uri opts = [] then Inl invalid_string else Inr (parameter_string, opts))"

definition parse_bool_option :: "boost_str \<Rightarrow> string \<Rightarrow> rd_error + bool" where
  "parse_bool_option bx str =
     (let v = to_lower_copy bx str in
      if v = ''true'' then Inr True
      else if v = ''false'' then Inr False
      else Inl (connection_error (''invalid uri parameter of bool type: '' @ str)))"

definition parse_timeout_option :: "string \<Rightarrow> rd_error + int64" where
  "parse_timeout_option str =
     (case stoul str of
        None \<Rightarrow> Inl (connection_error (''invalid uri parameter of timeout type: '' @ str))
      | Some (timeout, pos) \<Rightarrow>
          let unit = substr str pos None in
          if unit = ''ms'' then Inr timeout
          else if unit = ''s'' then Inr (1000 * timeout)
          else if unit = ''m'' then Inr (60000 * timeout)
          else Inl (connection_error (''unknown timeout unit: '' @ unit)))"

definition set_option ::
  "boost_str \<Rightarrow> string \<Rightarrow> string \<Rightarrow> connection_options \<Rightarrow> rd_error + connection_options" where
  "set_option bx key val opts =
     (if key = ''keep_alive'' then
        (case parse_bool_option bx val of Inl e \<Rightarrow> Inl e | Inr b \<Rightarrow> Inr (opts\<lparr>keep_alive := b\<rparr>))
      else if key = ''connect_timeout'' then
        (case parse_timeout_option val of Inl e \<Rightarrow> Inl e | Inr t \<Rightarrow> Inr (opts\<lparr>connect_timeout := t\<rparr>))
      else if key = ''socket_timeout'' then
        (case parse_timeout_option val of Inl e \<Rightarrow> Inl e | Inr t \<Rightarrow> Inr (opts\<lparr>socket_timeout := t\<rparr>))
      else Inl (connection_error (''unknown uri parameter '' @ key)))"

fun parse_parameter_list ::
  "boost_str \<Rightarrow> string list \<Rightarrow> connection_options \<Rightarrow> rd_error + connection_options" where
  "parse_parameter_list bx [] opts = Inr opts"
| "parse_parameter_list bx (parameter # parameters) opts =
     (let kv_pair = split_any bx parameter (CHR ''='') in
      if length kv_pair \<noteq> 2
      then Inl (connection_error (''invalid option: not a key-value pair: '' @ parameter))
      else
        case set_option bx (kv_pair ! 0) (kv_pair ! 1) opts of
          Inl e \<Rightarrow> Inl e
        | Inr opts \<Rightarrow> parse_parameter_list bx parameters opts)"

definition parse_parameters ::
  "boost_str \<Rightarrow> string \<Rightarrow> connection_options \<Rightarrow> rd_error + connection_options" where
  "parse_parameters bx parameter_string opts =
     (if parameter_string = [] then Inr opts
      else parse_parameter_list bx (split_any bx parameter_string (CHR ''&'')) opts)"

definition connect_string_parse :: "boost_str \<Rightarrow> string \<Rightarrow> rd_error + connection_options" where
  \<comment> \<open>\<^verbatim>\<open>connect_string_parser::operator()\<close>\<close>
  "connect_string_parse bx s =
     (case split_uri s default_options of
        Inl e \<Rightarrow> Inl e
      | Inr ((auth, path), opts) \<Rightarrow>
          (case split_path path (set_auth_opts auth opts) of
             Inl e \<Rightarrow> Inl e
           | Inr (parameter_string, opts) \<Rightarrow> parse_parameters bx parameter_string opts))"

definition options_parse :: "boost_str \<Rightarrow> string \<Rightarrow> rd_error + connection_options" where
  \<comment> \<open>\<^verbatim>\<open>connection_options::parse\<close>\<close>
  "options_parse bx s = connect_string_parse bx s"

definition c_str :: "string \<Rightarrow> string" where
  \<comment> \<open>the \<^verbatim>\<open>std::string\<close> made from a \<^verbatim>\<open>const char *\<close>: it ends at the first NUL\<close>
  "c_str v = takeWhile (\<lambda>c. c \<noteq> NUL) v"

definition literal_rd :: "string \<Rightarrow> rdalias" where
  "literal_rd v = c_str v"

definition literal_redis :: "boost_str \<Rightarrow> string \<Rightarrow> rd_error + connection_options" where
  "literal_redis bx v = options_parse bx (c_str v)"

section \<open>The interface to Boost\<close>

fun join :: "char \<Rightarrow> string list \<Rightarrow> string" where
  "join c [] = []"
| "join c [x] = x"
| "join c (x # y # xs) = x @ c # join c (y # xs)"

locale boost_strings =
  fixes bx :: boost_str
  assumes split_join:
      "parts \<noteq> [] \<Longrightarrow> (\<And>p. p \<in> set parts \<Longrightarrow> c \<notin> set p) \<Longrightarrow> split_any bx (join c parts) c = parts"
    and lower_ascii: "to_lower_copy bx ''true'' = ''true''" "to_lower_copy bx ''false'' = ''false''"
begin

lemma split_one: "c \<notin> set p \<Longrightarrow> split_any bx p c = [p]"
  using split_join[of "[p]" c] by simp

lemma split_pair: "c \<notin> set k \<Longrightarrow> c \<notin> set v \<Longrightarrow> split_any bx (k @ c # v) c = [k, v]"
  using split_join[of "[k, v]" c] by auto

lemma bool_text: "parse_bool_option bx (if b then ''true'' else ''false'') = Inr b"
  by (simp add: parse_bool_option_def lower_ascii)

lemma parameter_step:
  assumes "CHR ''='' \<notin> set k" "CHR ''='' \<notin> set v" "set_option bx k v opts = Inr opts'"
  shows "parse_parameter_list bx ((k @ CHR ''='' # v) # ps) opts = parse_parameter_list bx ps opts'"
  using assms split_pair[of "CHR ''=''" k v] by simp

lemma parameter_list:
  assumes "ps \<noteq> []" "\<And>p. p \<in> set ps \<Longrightarrow> CHR ''&'' \<notin> set p" "join (CHR ''&'') ps \<noteq> []"
  shows "parse_parameters bx (join (CHR ''&'') ps) opts = parse_parameter_list bx ps opts"
  using assms split_join[of ps "CHR ''&''"] by (simp add: parse_parameters_def)

end

text \<open>Functions that keep the contract.\<close>

fun split_at :: "string \<Rightarrow> char \<Rightarrow> string list" where
  "split_at [] c = [[]]"
| "split_at (x # xs) c =
     (if x = c then [] # split_at xs c
      else (case split_at xs c of [] \<Rightarrow> [[x]] | p # ps \<Rightarrow> (x # p) # ps))"

definition ascii_lower :: "char \<Rightarrow> char" where
  "ascii_lower c = (let n = (of_char c :: nat) in if 65 \<le> n \<and> n \<le> 90 then char_of (n + 32) else c)"

definition ref_boost :: boost_str where
  "ref_boost = \<lparr>split_any = split_at, to_lower_copy = map ascii_lower\<rparr>"

lemma split_at_append: "c \<notin> set p \<Longrightarrow> split_at (p @ c # s) c = p # split_at s c"
  by (induction p) auto

lemma split_at_self: "c \<notin> set p \<Longrightarrow> split_at p c = [p]"
  by (induction p) auto

interpretation ref_boost: boost_strings ref_boost
proof
  show "split_any ref_boost (join c parts) c = parts"
    if "parts \<noteq> []" "\<And>p. p \<in> set parts \<Longrightarrow> c \<notin> set p" for parts c
    using that
    by (induction c parts rule: join.induct) (simp_all add: ref_boost_def split_at_self split_at_append)
qed (simp_all add: ref_boost_def ascii_lower_def)

section \<open>What the parser accepts\<close>

text \<open>The exceptions of the parser are \<^verbatim>\<open>connection_error\<close>s.\<close>

definition is_connection_error :: "rd_error \<Rightarrow> bool" where
  "is_connection_error e \<longleftrightarrow> (\<exists>m. e = connection_error m)"

lemma split_uri_Inl: "split_uri s opts = Inl e \<Longrightarrow> is_connection_error e"
  by (auto simp: split_uri_def is_connection_error_def Let_def split: option.splits if_splits)

lemma split_uri_Inr:
  "split_uri s opts = Inr (ap, opts') \<Longrightarrow>
     conn_alias opts' \<noteq> [] \<and> schema opts' \<noteq> [] \<and> uri opts' = uri opts \<and> database opts' = database opts \<and>
     password opts' = password opts"
  by (auto simp: split_uri_def Let_def split: option.splits if_splits)

lemma split_path_Inl: "split_path p opts = Inl e \<Longrightarrow> is_connection_error e"
  by (auto simp: split_path_def is_connection_error_def Let_def split: if_splits)

lemma split_path_Inr:
  "split_path p opts = Inr (ps, opts') \<Longrightarrow>
     uri opts' \<noteq> [] \<and> conn_alias opts' = conn_alias opts \<and> schema opts' = schema opts \<and> password opts' = password opts"
  by (auto simp: split_path_def Let_def split: if_splits option.splits)

lemma set_option_frame:
  "set_option bx k v opts = Inr opts' \<Longrightarrow>
     conn_alias opts' = conn_alias opts \<and> schema opts' = schema opts \<and> uri opts' = uri opts \<and>
     database opts' = database opts \<and> password opts' = password opts"
  by (auto simp: set_option_def split: if_splits sum.splits)

lemma parse_bool_Inl: "parse_bool_option bx v = Inl e \<Longrightarrow> is_connection_error e"
  by (auto simp: parse_bool_option_def is_connection_error_def Let_def split: if_splits)

lemma parse_timeout_Inl: "parse_timeout_option v = Inl e \<Longrightarrow> is_connection_error e"
  by (auto simp: parse_timeout_option_def is_connection_error_def Let_def split: if_splits option.splits)

lemma set_option_Inl: "set_option bx k v opts = Inl e \<Longrightarrow> is_connection_error e"
  by (auto simp: set_option_def dest: parse_bool_Inl parse_timeout_Inl split: if_splits sum.splits)
    (simp add: is_connection_error_def)

lemma parameter_list_frame:
  "parse_parameter_list bx ps opts = Inr opts' \<Longrightarrow>
     conn_alias opts' = conn_alias opts \<and> schema opts' = schema opts \<and> uri opts' = uri opts \<and>
     database opts' = database opts \<and> password opts' = password opts"
proof (induction ps arbitrary: opts)
  case (Cons p ps)
  then show ?case
    by (auto simp: Let_def dest!: set_option_frame split: if_splits sum.splits)
qed simp

lemma parameter_list_Inl: "parse_parameter_list bx ps opts = Inl e \<Longrightarrow> is_connection_error e"
proof (induction ps arbitrary: opts)
  case (Cons p ps)
  then show ?case
    by (auto simp: Let_def is_connection_error_def dest: set_option_Inl split: if_splits sum.splits)
qed simp

lemma parse_Inl: "options_parse bx s = Inl e \<Longrightarrow> is_connection_error e"
  by (auto simp: options_parse_def connect_string_parse_def parse_parameters_def
      dest!: split_uri_Inl split_path_Inl parameter_list_Inl split: sum.splits if_splits)

lemma parse_Inr:
  assumes "options_parse bx s = Inr opts"
  shows "conn_alias opts \<noteq> [] \<and> schema opts \<noteq> [] \<and> uri opts \<noteq> []"
proof -
  from assms obtain auth path o1 ps o2 where
    1: "split_uri s default_options = Inr ((auth, path), o1)" and
    2: "split_path path (set_auth_opts auth o1) = Inr (ps, o2)" and
    3: "parse_parameters bx ps o2 = Inr opts"
    by (auto simp: options_parse_def connect_string_parse_def split: sum.splits)
  from 3 have "conn_alias opts = conn_alias o2 \<and> schema opts = schema o2 \<and> uri opts = uri o2"
    by (auto simp: parse_parameters_def dest: parameter_list_frame split: if_splits)
  with split_uri_Inr[OF 1] split_path_Inr[OF 2] show ?thesis
    by (auto simp: set_auth_opts_def)
qed

section \<open>Reading back what is written\<close>

lemma find_from_0: "find_from s pat 0 = search pat s"
  by (cases "search pat s") (simp_all add: find_from_def)

text \<open>A scheme whose text has no colon is cut at the first \<open>://\<close>.\<close>

lemma search_scheme:
  assumes "CHR '':'' \<notin> set sc"
  shows "search ''://'' (sc @ ''://'' @ rest) = Some (length sc)"
  using assms by (induction sc) (auto simp: take_Cons')

lemma split_uri_auth:
  assumes "CHR ''='' \<notin> set al" "al \<noteq> []" "CHR '':'' \<notin> set sc" "sc \<noteq> []" "CHR ''@'' \<notin> set pw"
  shows "split_uri (al @ ''='' @ sc @ ''://'' @ pw @ ''@'' @ path) opts =
     Inr ((pw, path), opts\<lparr>conn_alias := al, schema := sc\<rparr>)"
proof -
  let ?s = "al @ ''='' @ sc @ ''://'' @ pw @ ''@'' @ path"
  have 1: "find_from ?s ''='' 0 = Some (length al)"
    using search_single[OF assms(1), of "sc @ ''://'' @ pw @ ''@'' @ path"] by (simp add: find_from_0)
  have 2: "find_from ?s ''://'' (length al + 1) = Some (length al + 1 + length sc)"
    using search_scheme[OF assms(3), of "pw @ ''@'' @ path"] by (simp add: find_from_def)
  let ?p = "al @ ''='' @ sc @ ''://''"
  have s: "?s = ?p @ pw @ CHR ''@'' # path" and lp: "length al + 1 + length sc + 3 = length ?p" by simp_all
  have 3: "find_from ?s ''@'' (length al + 1 + length sc + 3) = Some (length al + 1 + length sc + 3 + length pw)"
    unfolding s lp find_from_append using search_single[OF assms(5), of path] by simp
  have 4: "substr ?s (length al + 1 + length sc + 3) (Some (length pw)) = pw"
    unfolding s lp substr_append by simp
  have 5: "substr ?s (length al + 1 + length sc + 3 + length pw + 1) None = path"
  proof -
    have s': "?s = (?p @ pw @ ''@'') @ path"
      and l': "length al + 1 + length sc + 3 + length pw + 1 = length (?p @ pw @ ''@'')" by simp_all
    show ?thesis unfolding s' l' substr_append by simp
  qed
  show ?thesis
    unfolding split_uri_def Let_def 1 option.case 2 3 diff_add_inverse 4 5
    using assms by (simp add: substr_def)
qed

lemma split_uri_no_auth:
  assumes "CHR ''='' \<notin> set al" "al \<noteq> []" "CHR '':'' \<notin> set sc" "sc \<noteq> []" "CHR ''@'' \<notin> set path"
  shows "split_uri (al @ ''='' @ sc @ ''://'' @ path) opts = Inr (([], path), opts\<lparr>conn_alias := al, schema := sc\<rparr>)"
proof -
  let ?s = "al @ ''='' @ sc @ ''://'' @ path"
  have 1: "find_from ?s ''='' 0 = Some (length al)"
    using search_single[OF assms(1), of "sc @ ''://'' @ path"] by (simp add: find_from_0)
  have 2: "find_from ?s ''://'' (length al + 1) = Some (length al + 1 + length sc)"
    using search_scheme[OF assms(3), of path] by (simp add: find_from_def)
  let ?p = "al @ ''='' @ sc @ ''://''"
  have s: "?s = ?p @ path" and lp: "length al + 1 + length sc + 3 = length ?p" by simp_all
  have 3: "find_from ?s ''@'' (length al + 1 + length sc + 3) = None"
    unfolding s lp find_from_append using assms(5) search_single_None[of "CHR ''@''" path] by simp
  have 4: "substr ?s (length al + 1 + length sc + 3) None = path"
    unfolding s lp substr_append by simp
  show ?thesis
    unfolding split_uri_def Let_def 1 option.case 2 3 4
    using assms by (simp add: substr_def)
qed

lemma stoi_dec_nat:
  assumes "n < 2 ^ 31" "rest = [] \<or> \<not> is_digit (hd rest)"
  shows "stoi (dec_nat n @ rest) = Some (of_nat n)"
  using assms by (simp add: stoi_def read_number_dec)

text \<open>A database number after the last slash, with nothing after it.\<close>

lemma split_path_db:
  assumes "h \<noteq> []" "n < 2 ^ 31" "CHR ''?'' \<notin> set h"
  shows "split_path (h @ ''/'' @ dec_nat n) opts = Inr ([], opts\<lparr>database := dec_nat n, uri := h\<rparr>)"
proof -
  have nd: "CHR ''/'' \<notin> set (dec_nat n)" "CHR ''?'' \<notin> set (dec_nat n)"
    by (auto dest: dec_nat_digits simp: is_digit_def)
  with assms stoi_dec_nat[of n "[]"] rfind_last[of "CHR ''/''" "dec_nat n" h] show ?thesis
    by (simp add: split_path_def Let_def substr_def option.case_eq_if)
qed

text \<open>Parameters after a path without a slash.\<close>

lemma split_path_params:
  assumes "h \<noteq> []" "CHR ''/'' \<notin> set h" "CHR ''/'' \<notin> set ps" "CHR ''?'' \<notin> set ps"
  shows "split_path (h @ ''?'' @ ps) opts = Inr (ps, opts\<lparr>uri := h\<rparr>)"
  using assms rfind_last[of "CHR ''?''" ps h] rfind_None[of "h @ ''?'' @ ps" "CHR ''/''"]
  by (simp add: split_path_def Let_def substr_def del: rfind_None)

text \<open>
  Both together: the text after the last slash is accepted as a database because it starts with
  digits, and it is stored whole, parameters included.
\<close>

lemma split_path_db_params:
  assumes "h \<noteq> []" "n < 2 ^ 31" "CHR ''/'' \<notin> set ps" "CHR ''?'' \<notin> set ps"
  shows "split_path (h @ ''/'' @ dec_nat n @ ''?'' @ ps) opts =
     Inr (ps, opts\<lparr>database := dec_nat n @ ''?'' @ ps, uri := h\<rparr>)"
proof -
  have nd: "CHR ''/'' \<notin> set (dec_nat n)" by (auto dest: dec_nat_digits simp: is_digit_def)
  have 1: "rfind (h @ ''/'' @ dec_nat n @ ''?'' @ ps) (CHR ''/'') = Some (length h)"
    using rfind_last[of "CHR ''/''" "dec_nat n @ ''?'' @ ps" h] nd assms by simp
  have 2: "rfind (h @ ''/'' @ dec_nat n @ ''?'' @ ps) (CHR ''?'') = Some (length h + 1 + length (dec_nat n))"
    using rfind_last[of "CHR ''?''" ps "h @ ''/'' @ dec_nat n"] assms by simp
  have 3: "stoi (dec_nat n @ ''?'' @ ps) = Some (of_nat n)"
    using assms(2) by (intro stoi_dec_nat) (simp_all add: is_digit_def)
  show ?thesis
    unfolding split_path_def Let_def 1 2 option.case
    using 3 assms(1) by (simp add: substr_def)
qed

lemma split_path_plain:
  assumes "h \<noteq> []" "CHR ''/'' \<notin> set h" "CHR ''?'' \<notin> set h"
  shows "split_path h opts = Inr ([], opts\<lparr>uri := h\<rparr>)"
  using assms rfind_None[of h "CHR ''/''"] rfind_None[of h "CHR ''?''"]
  by (simp add: split_path_def Let_def substr_def del: rfind_None)

lemma timeout_text:
  assumes "n < 2 ^ 64"
  shows "parse_timeout_option (dec_nat n @ ''ms'') = Inr (of_nat n)"
    and "parse_timeout_option (dec_nat n @ ''s'') = Inr (1000 * of_nat n)"
    and "parse_timeout_option (dec_nat n @ ''m'') = Inr (60000 * of_nat n)"
  using assms
  by (simp_all add: parse_timeout_option_def stoul_def read_number_dec is_digit_def substr_def)

text \<open>The parameters, written out in full.\<close>

definition parameter_text :: "bool \<Rightarrow> nat \<Rightarrow> nat \<Rightarrow> string" where
  "parameter_text b n m =
     ''keep_alive='' @ (if b then ''true'' else ''false'') @ ''&connect_timeout='' @ dec_nat n @
     ''ms&socket_timeout='' @ dec_nat m @ ''s''"

lemma dec_nat_free: "c \<in> {CHR ''/'', CHR ''?'', CHR ''='', CHR ''&'', CHR ''@''} \<Longrightarrow> c \<notin> set (dec_nat n)"
  by (auto dest: dec_nat_digits simp: is_digit_def)

context boost_strings
begin

lemma parameters:
  assumes "n < 2 ^ 64" "m < 2 ^ 64"
  shows "parse_parameters bx (parameter_text b n m) opts =
    Inr (opts\<lparr>keep_alive := b, connect_timeout := of_nat n, socket_timeout := 1000 * of_nat m\<rparr>)"
proof -
  let ?ka = "''keep_alive'' @ CHR ''='' # (if b then ''true'' else ''false'')"
  let ?ct = "''connect_timeout'' @ CHR ''='' # (dec_nat n @ ''ms'')"
  let ?st = "''socket_timeout'' @ CHR ''='' # (dec_nat m @ ''s'')"
  have tx: "parameter_text b n m = join (CHR ''&'') [?ka, ?ct, ?st]"
    by (simp add: parameter_text_def)
  have "parse_parameters bx (parameter_text b n m) opts = parse_parameter_list bx [?ka, ?ct, ?st] opts"
    unfolding tx by (intro parameter_list) (auto simp: dec_nat_free split: if_splits)
  also have "\<dots> = parse_parameter_list bx [?ct, ?st] (opts\<lparr>keep_alive := b\<rparr>)"
    using bool_text[of b] by (intro parameter_step) (auto simp: set_option_def)
  also have "\<dots> = parse_parameter_list bx [?st] (opts\<lparr>keep_alive := b, connect_timeout := of_nat n\<rparr>)"
    using timeout_text(1)[OF assms(1)] by (intro parameter_step) (auto simp: set_option_def dec_nat_free)
  also have "\<dots> = parse_parameter_list bx []
      (opts\<lparr>keep_alive := b, connect_timeout := of_nat n, socket_timeout := 1000 * of_nat m\<rparr>)"
    using timeout_text(2)[OF assms(2)] by (intro parameter_step) (auto simp: set_option_def dec_nat_free)
  finally show ?thesis by simp
qed

end

end
