(* ===== verification/Rd_Read_Loop.thy ===== *)
theory Rd_Read_Loop
  imports Rd_Wire Rd_Options
begin

text \<open>
  \<^verbatim>\<open>details/connection/events.hpp\<close>, \<^verbatim>\<open>handler_parse_result.hpp\<close> and \<^verbatim>\<open>connection_fsm_def::read_message\<close>:
  the events of a connection and the loop that turns received bytes into events. The state machine
  is a template parameter of the handler, here the function \<open>pe\<close> that processes one event.
\<close>

section \<open>Events\<close>

text \<open>A callback object is named by a number; an empty \<^verbatim>\<open>std::function\<close> is \<^const>\<open>None\<close>.\<close>

type_synonym callback = nat

record execute_event =
  buff :: string
  result_cb :: "callback option"
  error_cb :: "callback option"

definition empty_execute :: execute_event where
  "empty_execute = \<lparr>buff = [], result_cb = None, error_cb = None\<rparr>"

datatype event =
  Ev_options connection_options
| Ev_execute execute_event
| Ev_recv result_t
| Ev_terminate
| Ev_complete
| Ev_connection_error string
| Ev_query_error string

section \<open>The read loop\<close>

fun handler_parse_result :: "parse_result_t \<Rightarrow> event \<times> nat" where
  "handler_parse_result (Protocol_error code) = (Ev_query_error (ec_message code), 0)"
| "handler_parse_result (Error_reply str consumed) = (Ev_query_error str, consumed)"
| "handler_parse_result (Positive res consumed) = (Ev_recv res, consumed)"

definition sub_size :: "nat \<Rightarrow> nat \<Rightarrow> nat" where
  \<comment> \<open>subtraction of two \<^verbatim>\<open>size_t\<close>\<close>
  "sub_size a b = nat ((int a - int b) mod 2 ^ 64)"

text \<open>One round of the loop: the event it raises, then \<^verbatim>\<open>max_bytes\<close> and the buffer after \<^verbatim>\<open>consume\<close>.\<close>

definition read_step :: "penv \<Rightarrow> nat \<Rightarrow> string \<Rightarrow> thrown + event \<times> nat \<times> string" where
  "read_step env max_bytes incoming =
     (case raw_parse env incoming of
        Inl t \<Rightarrow> Inl t
      | Inr parsed_result \<Rightarrow>
          let (ev, consumed) = handler_parse_result parsed_result;
              consumed = (if consumed = 0 then max_bytes else consumed)
          in Inr (ev, sub_size max_bytes consumed, drop consumed incoming))"

lemma raw_parse_Nil: "raw_parse env [] = Inr ned"
  by (simp add: raw_parse.simps construct_Nil ned_def)

lemma sub_size_self [simp]: "sub_size a a = 0"
  by (simp add: sub_size_def)

lemma sub_size_less: "a < 2 ^ 64 \<Longrightarrow> b \<le> a \<Longrightarrow> sub_size a b = a - b"
  by (simp add: sub_size_def)

lemma read_step_cases:
  assumes "read_step env m s = Inr (ev, m', s')"
  obtains (protocol) code where "raw_parse env s = Inr (Protocol_error code)"
      "ev = Ev_query_error (ec_message code)" "m' = 0" "s' = drop m s"
  | (error) e n where "raw_parse env s = Inr (Error_reply e n)" "ev = Ev_query_error e"
      "m' = sub_size m n" "s' = drop n s" "0 < n" "n \<le> length s"
  | (reply) r n where "raw_parse env s = Inr (Positive r n)" "ev = Ev_recv r"
      "m' = sub_size m n" "s' = drop n s" "0 < n" "n \<le> length s"
proof (cases "raw_parse env s")
  case (Inl t)
  with assms show ?thesis by (simp add: read_step_def)
next
  case (Inr out)
  show ?thesis
  proof (cases out)
    case (Protocol_error code)
    with Inr assms protocol show ?thesis by (simp add: read_step_def Let_def)
  next
    case (Error_reply e n)
    with Inr error_bounds(1)[of env s e n] assms error show ?thesis by (simp add: read_step_def Let_def)
  next
    case (Positive r n)
    with Inr parse_bounds(1)[of env s r n] assms reply show ?thesis by (simp add: read_step_def Let_def)
  qed
qed

lemma read_step_decreases:
  assumes "read_step env m s = Inr (ev, m', s')" "m \<noteq> 0"
  shows "length s' + (if m' = 0 then 0 else 1) < length s + (1 :: nat)"
  using assms(1) by (cases rule: read_step_cases) auto

function read_message ::
  "penv \<Rightarrow> ('c \<Rightarrow> event \<Rightarrow> 'c) \<Rightarrow> nat \<Rightarrow> string \<Rightarrow> 'c \<Rightarrow> thrown + 'c \<times> string" where
  "read_message env pe max_bytes incoming fsm =
     (if max_bytes = 0 then Inr (fsm, incoming)
      else
        case read_step env max_bytes incoming of
          Inl t \<Rightarrow> Inl t
        | Inr (ev, max_bytes', incoming') \<Rightarrow> read_message env pe max_bytes' incoming' (pe fsm ev))"
  by pat_completeness auto
termination
proof (relation "measure (\<lambda>(_, _, m, s, _). length s + (if m = 0 then 0 else 1))", goal_cases)
  case (2 env pe m s c x xa xb xc xd)
  then show ?case by (auto dest: read_step_decreases)
qed simp

declare read_message.simps [simp del]

lemma read_message_0 [simp]: "read_message env pe 0 s c = Inr (c, s)"
  by (simp add: read_message.simps)

lemma read_message_step:
  "0 < m \<Longrightarrow> read_step env m s = Inr (ev, m', s') \<Longrightarrow>
     read_message env pe m s c = read_message env pe m' s' (pe c ev)"
  "0 < m \<Longrightarrow> read_step env m s = Inl t \<Longrightarrow> read_message env pe m s c = Inl t"
  by (simp_all add: read_message.simps[of env pe m])

section \<open>Laws of the loop\<close>

text \<open>
  \<^verbatim>\<open>max_bytes\<close> is the length of the buffer in every round, so the subtraction never wraps, and
  the loop leaves the buffer empty.
\<close>

lemma read_step_balance:
  assumes "read_step env (length s) s = Inr (ev, m', s')" "length s < 2 ^ 64"
  shows "m' = length s'"
  using assms by (cases rule: read_step_cases) (auto simp: sub_size_less)

lemma read_message_drains:
  assumes "read_message env pe (length s) s c = Inr (c', s')" "length s < 2 ^ 64"
  shows "s' = []"
  using assms
proof (induction s arbitrary: c rule: length_induct)
  case (1 s)
  show ?case
  proof (cases "s = []")
    case True
    with "1.prems" show ?thesis by simp
  next
    case False
    then have m: "0 < length s" by simp
    show ?thesis
    proof (cases "read_step env (length s) s")
      case (Inl t)
      with "1.prems" m show ?thesis by (simp add: read_message_step)
    next
      case (Inr x)
      then obtain ev m' s'' where st: "read_step env (length s) s = Inr (ev, m', s'')" by (cases x) auto
      from read_step_balance[OF st "1.prems"(2)] have m': "m' = length s''" .
      from st m have lt: "length s'' < length s"
        by (cases rule: read_step_cases) auto
      have "read_message env pe (length s'') s'' (pe c ev) = Inr (c', s')"
        using "1.prems"(1) m st m' by (simp add: read_message_step)
      moreover have "length s'' < 2 ^ 64" using lt "1.prems"(2) by simp
      ultimately show ?thesis using "1.IH" lt by blast
    qed
  qed
qed

context reply_reader
begin

text \<open>Whole replies give one \<^verbatim>\<open>recv\<close> each, in the order they were sent.\<close>

lemma stream:
  assumes "\<And>r. r \<in> set rs \<Longrightarrow> wire_ok limit r" "length (concat (map resp rs)) < 2 ^ 64"
  shows "read_message env pe (length (concat (map resp rs))) (concat (map resp rs)) c =
     Inr (foldl pe c (map Ev_recv rs), [])"
  using assms
proof (induction rs arbitrary: c)
  case Nil
  then show ?case by simp
next
  case (Cons r rs)
  let ?s = "concat (map resp (r # rs))" and ?n = "length (resp r)"
  have rp: "raw_parse env ?s = Inr (Positive r ?n)"
    using roundtrip[of r "concat (map resp rs)"] Cons.prems(1) by simp
  with parse_bounds(1)[OF rp] have pos: "0 < ?n" by simp
  have "sub_size (length ?s) ?n = length (concat (map resp rs))"
    using Cons.prems(2) by (subst sub_size_less) auto
  with rp pos have "read_step env (length ?s) ?s =
      Inr (Ev_recv r, length (concat (map resp rs)), concat (map resp rs))"
    by (simp add: read_step_def)
  moreover have "0 < length ?s" using pos by simp
  ultimately show ?case using Cons by (simp add: read_message_step)
qed

text \<open>
  A reply that arrives in two reads: the first part alone is reported as a query error and thrown
  away with the whole buffer.
\<close>

lemma partial_step:
  assumes "wire_ok limit r" "j < length (resp r)"
  shows "read_step env j (take j (resp r)) =
     Inr (Ev_query_error (ec_message (make_error_code not_enough_data)), 0, [])"
proof -
  have "raw_parse env (take j (resp r)) = Inr ned"
    using roundtrip[OF assms(1), of "[]"] assms(2) by (intro parse_prefix_ned) auto
  then show ?thesis by (simp add: read_step_def ned_def)
qed

end

end
