(* ===== verification/Rd_Transport.thy ===== *)
theory Rd_Transport
  imports Rd_Options
begin

text \<open>
  \<^verbatim>\<open>details/connection/transport.hpp\<close> and \<^verbatim>\<open>transport.cpp\<close>: what the two transports ask of Boost.Asio.
  Asio itself is outside the sources: a request to it is a value of \<open>connect_request\<close>, its answer an
  input of the handlers. A \<^verbatim>\<open>boost::system::error_code\<close> is \<^const>\<open>None\<close> for success and its message
  otherwise; a socket is the flag that \<^verbatim>\<open>is_open()\<close> reads.
\<close>

type_synonym sys_error = "string option"

datatype connect_request =
  Async_resolve string string    \<comment> \<open>host and service, for \<^verbatim>\<open>tcp::resolver::async_resolve\<close>\<close>
| Async_connect_unix string      \<comment> \<open>a path, for \<^verbatim>\<open>stream_protocol::socket::async_connect\<close>\<close>

text \<open>What a handler does next: connect to the endpoints it was given, or call the connect callback.\<close>

datatype 'ep transport_step =
  Async_connect_endpoints "'ep list"
| Connect_callback sys_error

section \<open>tcp_transport\<close>

definition tcp_connect_async :: "connection_options \<Rightarrow> rd_error + connect_request" where
  "tcp_connect_async conn =
     (if uri conn = [] then Inl (connection_error ''No connection uri!'')
      else if schema conn \<noteq> ''tcp'' then
        Inl (connection_error ''Wrong connection schema for TCP transport'')
      else
        let host = uri conn; svc = ''6379'' in
        case find_from (uri conn) '':'' 0 of
          Some p \<Rightarrow> Inr (Async_resolve (substr (uri conn) 0 (Some p)) (substr (uri conn) (p + 1) None))
        | None \<Rightarrow> Inr (Async_resolve host svc))"

definition tcp_handle_resolve :: "sys_error \<Rightarrow> 'ep list \<Rightarrow> 'ep transport_step" where
  "tcp_handle_resolve ec endpoints =
     (case ec of None \<Rightarrow> Async_connect_endpoints endpoints | Some _ \<Rightarrow> Connect_callback ec)"

definition tcp_handle_connect :: "sys_error \<Rightarrow> 'ep transport_step" where
  "tcp_handle_connect ec = Connect_callback ec"

definition tcp_connected :: "bool \<Rightarrow> bool" where
  "tcp_connected is_open = is_open"

definition tcp_close :: "bool \<Rightarrow> bool" where
  \<comment> \<open>the socket after \<^verbatim>\<open>close()\<close>\<close>
  "tcp_close is_open = (if is_open then False else is_open)"

section \<open>socket_transport\<close>

definition unix_connect_async :: "connection_options \<Rightarrow> rd_error + connect_request" where
  "unix_connect_async conn =
     (if schema conn \<noteq> ''unix'' then
        Inl (connection_error ''Wrong connection schema for Unix Domain socket transport'')
      else
        let path = uri conn;
            path = (if path = [] then ''/tmp/.s.REDIS.6379'' else path)
        in Inr (Async_connect_unix path))"

definition unix_connected :: "bool \<Rightarrow> bool" where
  "unix_connected is_open = is_open"

definition unix_close :: "bool \<Rightarrow> bool" where
  "unix_close is_open = (if is_open then False else is_open)"

section \<open>The interface a connection is built on\<close>

text \<open>The members of a \<^verbatim>\<open>TransportType\<close> that \<^verbatim>\<open>connection_fsm_def\<close> uses.\<close>

record transport =
  connect_async :: "connection_options \<Rightarrow> rd_error + connect_request"
  connected :: "bool \<Rightarrow> bool"
  close_socket :: "bool \<Rightarrow> bool"

definition tcp_transport :: transport where
  "tcp_transport = \<lparr>connect_async = tcp_connect_async, connected = tcp_connected, close_socket = tcp_close\<rparr>"

definition socket_transport :: transport where
  "socket_transport =
     \<lparr>connect_async = unix_connect_async, connected = unix_connected, close_socket = unix_close\<rparr>"

locale transport_contract =
  fixes tr :: transport and scheme :: string
  assumes accepts: "schema opts = scheme \<Longrightarrow> uri opts \<noteq> [] \<Longrightarrow> \<exists>req. connect_async tr opts = Inr req"
    and rejects: "schema opts \<noteq> scheme \<Longrightarrow> \<exists>e. connect_async tr opts = Inl e"
    and connected_open: "connected tr is_open = is_open"
    and closed: "\<not> connected tr (close_socket tr is_open)"
begin

lemma connects_iff: "uri opts \<noteq> [] \<Longrightarrow> (\<exists>req. connect_async tr opts = Inr req) \<longleftrightarrow> schema opts = scheme"
  using accepts rejects by fastforce

end

interpretation tcp: transport_contract tcp_transport "''tcp''"
  by unfold_locales
    (auto simp: tcp_transport_def tcp_connect_async_def tcp_connected_def tcp_close_def Let_def
      split: option.splits)

interpretation unix: transport_contract socket_transport "''unix''"
  by unfold_locales
    (auto simp: socket_transport_def unix_connect_async_def unix_connected_def unix_close_def Let_def)

text \<open>\<open>host:port\<close> is cut at the first colon; without one the port is Redis's default.\<close>

lemma tcp_host_port:
  assumes "schema conn = ''tcp''" "uri conn = host @ '':'' @ port" "CHR '':'' \<notin> set host"
  shows "tcp_connect_async conn = Inr (Async_resolve host port)"
proof -
  have "find_from (uri conn) '':'' 0 = Some (length host)"
    using assms search_single[OF assms(3), of port] by (simp add: find_from_def)
  moreover have "uri conn \<noteq> []" using assms(2) by simp
  moreover have "substr (uri conn) 0 (Some (length host)) = host" "substr (uri conn) (length host + 1) None = port"
    using assms(2) by (simp_all add: substr_def)
  ultimately show ?thesis using assms(1) by (simp add: tcp_connect_async_def Let_def)
qed

lemma tcp_default_port:
  assumes "schema conn = ''tcp''" "uri conn = host" "host \<noteq> []" "CHR '':'' \<notin> set host"
  shows "tcp_connect_async conn = Inr (Async_resolve host ''6379'')"
proof -
  have "find_from (uri conn) '':'' 0 = None"
    using assms by (simp add: find_from_def search_single_None)
  with assms show ?thesis by (simp add: tcp_connect_async_def Let_def)
qed

end
