(* ===== verification/Rd_Connection.thy ===== *)
theory Rd_Connection
  imports Rd_Read_Loop Rd_Transport Rd_Serializer
begin

text \<open>
  \<^verbatim>\<open>details/connection/connection_fsm.hpp\<close>, \<^verbatim>\<open>concrete_connection.hpp\<close> and \<^verbatim>\<open>base_connection.hpp/.cpp\<close>: one
  connection. The transition table, the deferred events, the entry and exit actions and the handlers
  of Asio are the definitions; what the connection asks of the outside (Asio, its callbacks) is a
  list of \<open>action\<close>s, in the order of the calls.

  Boost.MSM, which drives the table, is outside the sources. Of it the model uses the documented
  meaning of a row (exit of the source, action, entry of the target), of a deferred event (stored, and
  offered again in a state that does not defer it), of a terminate state (every event is ignored), of
  \<^verbatim>\<open>no_transition\<close>, and run to completion (an event raised while another is processed is stored).
  Which stored event comes next is left open: \<open>conn_step\<close> allows every choice.
\<close>

section \<open>State\<close>

datatype fsm_state = Unplugged | Connecting | Authn | Idle | Query | Terminated

record connection_callbacks =
  idle_cb :: "callback option"
  terminated_cb :: "callback option"
  conn_error_cb :: "callback option"

definition no_callbacks :: connection_callbacks where
  "no_callbacks = \<lparr>idle_cb = None, terminated_cb = None, conn_error_cb = None\<rparr>"

text \<open>
  \<open>msg_queue\<close> and \<open>deferred\<close> are the events MSM stores. \<open>reading\<close> says that \<^verbatim>\<open>handle_read\<close> is active
  with \<open>read_left\<close> bytes of its loop to go: each event of the loop is processed to completion before
  the next reply is parsed.
\<close>

record connection =
  fsm_state :: fsm_state
  conn_opts :: connection_options
  cur_query :: execute_event
  incoming :: string
  sock_open :: bool
  callbacks :: connection_callbacks
  msg_queue :: "event list"
  deferred :: "event list"
  reading :: bool
  read_left :: nat

definition new_connection :: "connection_callbacks \<Rightarrow> connection" where
  "new_connection cbs =
     \<lparr>fsm_state = Unplugged, conn_opts = default_options, cur_query = empty_execute, incoming = [],
      sock_open = False, callbacks = cbs, msg_queue = [], deferred = [], reading = False, read_left = 0\<rparr>"

datatype action =
  Out_connect connect_request
| Out_read
| Out_write string
| Out_close
| Out_post "callback" "callback option" result_t    \<comment> \<open>the handler posted by \<^verbatim>\<open>notify_result\<close>\<close>
| Out_query_error callback string                    \<comment> \<open>a call of \<^verbatim>\<open>query_.error\<close>\<close>
| Out_idle callback
| Out_terminated callback
| Out_conn_error callback string

datatype fault =
  Thrown rd_error
| Uncaught thrown
| Out_of_bounds
| No_transition fsm_state event

section \<open>Operations of connection_fsm_def\<close>

definition process_event :: "connection \<Rightarrow> event \<Rightarrow> connection" where
  "process_event c e = c\<lparr>msg_queue := msg_queue c @ [e]\<rparr>"

definition connect_transport ::
  "transport \<Rightarrow> connection_options \<Rightarrow> connection \<Rightarrow> fault + connection \<times> action list" where
  "connect_transport tr opts c =
     (if uri opts = [] then Inl (Thrown (connection_error ''No connection uri!''))
      else
        let c = c\<lparr>conn_opts := opts\<rparr> in
        case connect_async tr (conn_opts c) of
          Inl e \<Rightarrow> Inl (Thrown e)
        | Inr req \<Rightarrow> Inr (c, [Out_connect req]))"

definition start_read :: "action list" where
  "start_read = [Out_read]"

definition send :: "transport \<Rightarrow> string \<Rightarrow> connection \<Rightarrow> action list" where
  "send tr m c = (if connected tr (sock_open c) then [Out_write m] else [])"

definition send_startup_message :: "transport \<Rightarrow> connection \<Rightarrow> fault + connection \<times> action list" where
  "send_startup_message tr c =
     (if password (conn_opts c) = [] then Inr (process_event c Ev_complete, [])
      else
        case single_command [''AUTH'', password (conn_opts c)] of
          Inl e \<Rightarrow> Inl (Thrown e)
        | Inr cmd \<Rightarrow>
            (case serialize [] cmd of
               None \<Rightarrow> Inl Out_of_bounds
             | Some b \<Rightarrow> Inr (c, send tr b c)))"

definition close_transport :: "transport \<Rightarrow> connection \<Rightarrow> connection \<times> action list" where
  "close_transport tr c = (c\<lparr>sock_open := close_socket tr (sock_open c)\<rparr>, [Out_close])"

definition notify_result :: "execute_event \<Rightarrow> result_t \<Rightarrow> action list" where
  "notify_result q res =
     (case result_cb q of None \<Rightarrow> [] | Some cb \<Rightarrow> [Out_post cb (error_cb q) res])"

definition notify_query_error :: "execute_event \<Rightarrow> string \<Rightarrow> action list" where
  "notify_query_error q m = (case error_cb q of None \<Rightarrow> [] | Some cb \<Rightarrow> [Out_query_error cb m])"

text \<open>The overrides of \<^verbatim>\<open>concrete_connection\<close>.\<close>

definition notify_idle :: "connection \<Rightarrow> action list" where
  "notify_idle c = (case idle_cb (callbacks c) of None \<Rightarrow> [] | Some cb \<Rightarrow> [Out_idle cb])"

definition notify_terminated :: "connection \<Rightarrow> connection \<times> action list" where
  "notify_terminated c =
     (c\<lparr>callbacks := no_callbacks\<rparr>,
      case terminated_cb (callbacks c) of None \<Rightarrow> [] | Some cb \<Rightarrow> [Out_terminated cb])"

definition notify_error :: "connection \<Rightarrow> string \<Rightarrow> action list" where
  "notify_error c m = (case conn_error_cb (callbacks c) of None \<Rightarrow> [] | Some cb \<Rightarrow> [Out_conn_error cb m])"

section \<open>The transition table\<close>

datatype row_action = A_none | A_on_connection_error | A_disconnect

fun defers :: "fsm_state \<Rightarrow> event \<Rightarrow> bool" where
  "defers Unplugged e = (case e of Ev_terminate \<Rightarrow> True | Ev_execute _ \<Rightarrow> True | _ \<Rightarrow> False)"
| "defers Connecting e = (case e of Ev_terminate \<Rightarrow> True | Ev_execute _ \<Rightarrow> True | _ \<Rightarrow> False)"
| "defers Authn e = (case e of Ev_terminate \<Rightarrow> True | Ev_execute _ \<Rightarrow> True | _ \<Rightarrow> False)"
| "defers Query e = (e = Ev_terminate)"
| "defers _ e = False"

fun row :: "fsm_state \<Rightarrow> event \<Rightarrow> (fsm_state \<times> row_action) option" where
  "row Unplugged (Ev_options _) = Some (Connecting, A_none)"
| "row Unplugged Ev_terminate = Some (Terminated, A_none)"
| "row Connecting Ev_complete = Some (Authn, A_none)"
| "row Connecting (Ev_connection_error _) = Some (Terminated, A_on_connection_error)"
| "row Authn Ev_complete = Some (Idle, A_none)"
| "row Authn (Ev_recv _) = Some (Idle, A_none)"
| "row Authn (Ev_connection_error _) = Some (Terminated, A_on_connection_error)"
| "row Idle (Ev_execute _) = Some (Query, A_none)"
| "row Idle Ev_terminate = Some (Terminated, A_disconnect)"
| "row Idle (Ev_connection_error _) = Some (Terminated, A_on_connection_error)"
| "row Query (Ev_recv _) = Some (Idle, A_none)"
| "row Query (Ev_query_error _) = Some (Idle, A_none)"
| "row Query (Ev_connection_error _) = Some (Terminated, A_on_connection_error)"
| "row _ _ = None"

definition on_exit :: "event \<Rightarrow> connection \<Rightarrow> connection \<times> action list" where
  "on_exit e c =
     (case fsm_state c of
        Connecting \<Rightarrow> (c, (case e of Ev_complete \<Rightarrow> start_read | _ \<Rightarrow> []))
      | Query \<Rightarrow>
          (c\<lparr>cur_query := empty_execute\<rparr>,
           (case e of
              Ev_query_error m \<Rightarrow> notify_query_error (cur_query c) m
            | Ev_recv res \<Rightarrow> notify_result (cur_query c) res
            | _ \<Rightarrow> []))
      | _ \<Rightarrow> (c, []))"

definition run_action :: "transport \<Rightarrow> row_action \<Rightarrow> event \<Rightarrow> connection \<Rightarrow> connection \<times> action list" where
  "run_action tr a e c =
     (case a of
        A_none \<Rightarrow> (c, [])
      | A_on_connection_error \<Rightarrow> (c, (case e of Ev_connection_error m \<Rightarrow> notify_error c m | _ \<Rightarrow> []))
      | A_disconnect \<Rightarrow> close_transport tr c)"

definition on_entry ::
  "transport \<Rightarrow> fsm_state \<Rightarrow> event \<Rightarrow> connection \<Rightarrow> fault + connection \<times> action list" where
  "on_entry tr target e c =
     (case target of
        Unplugged \<Rightarrow> Inr (c, [])
      | Terminated \<Rightarrow> Inr (notify_terminated c)
      | Connecting \<Rightarrow> (case e of Ev_options opts \<Rightarrow> connect_transport tr opts c | _ \<Rightarrow> Inr (c, []))
      | Authn \<Rightarrow> send_startup_message tr c
      | Idle \<Rightarrow> Inr (c, notify_idle c)
      | Query \<Rightarrow>
          (case e of
             Ev_execute evt \<Rightarrow>
               let c = c\<lparr>cur_query := evt\<rparr>; out = send tr (buff (cur_query c)) c
               in Inr (if out = [] then c else c\<lparr>cur_query := (cur_query c)\<lparr>buff := []\<rparr>\<rparr>, out)
           | _ \<Rightarrow> Inr (c\<lparr>cur_query := empty_execute\<rparr>, [])))"

text \<open>One event in the current state.\<close>

definition dispatch :: "transport \<Rightarrow> connection \<Rightarrow> event \<Rightarrow> fault + connection \<times> action list" where
  "dispatch tr c e =
     (if fsm_state c = Terminated then Inr (c, [])
      else
        case row (fsm_state c) e of
          Some (target, a) \<Rightarrow>
            (case on_exit e c of
               (c1, o1) \<Rightarrow>
                 case run_action tr a e c1 of
                   (c2, o2) \<Rightarrow>
                     case on_entry tr target e c2 of
                       Inl f \<Rightarrow> Inl f
                     | Inr (c3, o3) \<Rightarrow> Inr (c3\<lparr>fsm_state := target\<rparr>, o1 @ o2 @ o3))
        | None \<Rightarrow>
            if defers (fsm_state c) e then Inr (c\<lparr>deferred := deferred c @ [e]\<rparr>, [])
            else Inl (No_transition (fsm_state c) e))"

section \<open>Handlers of Asio and the public operations\<close>

definition handle_connect :: "sys_error \<Rightarrow> connection \<Rightarrow> connection" where
  "handle_connect ec c =
     (case ec of
        None \<Rightarrow> process_event c Ev_complete
      | Some m \<Rightarrow> process_event c (Ev_connection_error m))"

definition handle_write :: "sys_error \<Rightarrow> connection \<Rightarrow> connection" where
  "handle_write ec c = (case ec of Some m \<Rightarrow> process_event c (Ev_connection_error m) | None \<Rightarrow> c)"

text \<open>
  The bytes that arrived are appended to the buffer; on success the loop is entered, and
  \<open>read_round\<close> makes one round of it or, when no byte is left, starts the next read.
\<close>

definition handle_read :: "sys_error \<Rightarrow> string \<Rightarrow> connection \<Rightarrow> connection" where
  "handle_read ec bytes c =
     (let c = c\<lparr>incoming := incoming c @ bytes\<rparr> in
      case ec of
        None \<Rightarrow> c\<lparr>reading := True, read_left := length bytes\<rparr>
      | Some m \<Rightarrow> process_event c (Ev_connection_error m))"

definition read_round :: "penv \<Rightarrow> connection \<Rightarrow> fault + connection \<times> action list" where
  "read_round env c =
     (if read_left c = 0 then Inr (c\<lparr>reading := False\<rparr>, start_read)
      else
        case read_step env (read_left c) (incoming c) of
          Inl t \<Rightarrow> Inl (Uncaught t)
        | Inr (ev, left, rest) \<Rightarrow> Inr (process_event (c\<lparr>incoming := rest, read_left := left\<rparr>) ev, []))"

definition connect :: "connection_options \<Rightarrow> connection \<Rightarrow> connection" where
  "connect opts c = process_event c (Ev_options opts)"

definition execute :: "execute_event \<Rightarrow> connection \<Rightarrow> connection" where
  "execute evt c = process_event c (Ev_execute evt)"

definition terminate :: "connection \<Rightarrow> connection" where
  "terminate c = process_event c Ev_terminate"

definition alias_of :: "connection \<Rightarrow> rdalias" where
  "alias_of c = conn_alias (conn_opts c)"

text \<open>\<^verbatim>\<open>basic_connection::create\<close>: the transport is chosen by the scheme, the machine is started and connected.\<close>

definition create_with :: "connection_options \<Rightarrow> connection_callbacks \<Rightarrow> connection" where
  "create_with opts cbs = connect opts (new_connection cbs)"

definition connection_create ::
  "connection_options \<Rightarrow> connection_callbacks \<Rightarrow> rd_error + transport \<times> connection" where
  "connection_create opts cbs =
     (if schema opts = ''tcp'' then Inr (tcp_transport, create_with opts cbs)
      else if schema opts = ''unix'' then Inr (socket_transport, create_with opts cbs)
      else Inl (connection_error (''Schema '' @ schema opts @ '' is unsupported'')))"

text \<open>The handler that \<^verbatim>\<open>notify_result\<close> posted, run later: the user's callbacks it calls, in order.
  \<open>user\<close> says what the result callback throws, if anything. Calling an empty \<^verbatim>\<open>std::function\<close> throws.\<close>

datatype user_call =
  Call_result callback result_t
| Call_error callback rd_error

definition bad_function_call :: thrown where
  "bad_function_call = Std_exception ''bad_function_call''"

definition error_for :: "thrown \<Rightarrow> rd_error" where
  "error_for t =
     (case t of
        Rd_error e \<Rightarrow> e
      | Std_exception m \<Rightarrow> client_error_of m
      | Other_exception \<Rightarrow> client_error ''Unknown exception'')"

definition run_posted ::
  "(callback \<Rightarrow> result_t \<Rightarrow> thrown option) \<Rightarrow> callback \<Rightarrow> callback option \<Rightarrow> result_t \<Rightarrow>
     user_call list \<times> thrown option" where
  "run_posted user res_cb err_cb res =
     (case user res_cb res of
        None \<Rightarrow> ([Call_result res_cb res], None)
      | Some t \<Rightarrow>
          (case err_cb of
             Some cb \<Rightarrow> ([Call_result res_cb res, Call_error cb (error_for t)], None)
           | None \<Rightarrow> ([Call_result res_cb res], Some bad_function_call)))"

text \<open>
  What leaves \<^verbatim>\<open>notify_idle\<close>, \<^verbatim>\<open>notify_terminated\<close> and the two \<^verbatim>\<open>notify_error\<close> when the callback that they
  call throws: all are guarded but the one that reports a connection error.
\<close>

fun leaves_notification :: "action \<Rightarrow> thrown option \<Rightarrow> thrown option" where
  "leaves_notification (Out_idle cb) t = None"
| "leaves_notification (Out_terminated cb) t = None"
| "leaves_notification (Out_query_error cb m) t = None"
| "leaves_notification (Out_conn_error cb m) t = t"
| "leaves_notification _ t = None"     \<comment> \<open>calls no callback\<close>

end
