(* ===== verification/Rd_Pool.thy ===== *)
theory Rd_Pool
  imports Rd_Connection
begin

text \<open>
  \<^verbatim>\<open>details/connection/connection_pool.hpp\<close> and \<^verbatim>\<open>connection_pool.cpp\<close>: the pool of connections to one
  database. The operations of \<^verbatim>\<open>connection_pool::impl\<close> pass the pool's state; the calls they make to
  connections and to callbacks are a list of \<open>pool_call\<close>s, in order. A connection is named by the
  number that stands for its pointer, and the null pointer is \<^const>\<open>None\<close>. An operation is
  one step here; \<open>Rd_Pool_Threads\<close> has the steps that threads make under the mutexes.
\<close>

section \<open>State\<close>

type_synonym conn_id = nat

record pool =
  pool_size :: nat
  co :: connection_options
  connections :: "conn_id list"
  ready_connections :: "conn_id list"
  queue :: "execute_event list"
  closed :: bool
  closed_callback :: "callback option"

datatype pool_call =
  P_create conn_id                  \<comment> \<open>a connection made by \<^verbatim>\<open>basic_connection::create\<close>\<close>
| P_execute conn_id execute_event
| P_terminate conn_id
| P_error callback rd_error         \<comment> \<open>a call of a request's error callback\<close>
| P_closed callback                 \<comment> \<open>a call of \<^verbatim>\<open>closed_callback_\<close>\<close>

text \<open>The three lambdas that the pool gives to each of its connections.\<close>

definition pool_callbacks :: connection_callbacks where
  "pool_callbacks = \<lparr>idle_cb = Some 0, terminated_cb = Some 1, conn_error_cb = Some 2\<rparr>"

section \<open>Operations of connection_pool::impl\<close>

definition pool_impl :: "nat \<Rightarrow> connection_options \<Rightarrow> rd_error + pool" where
  \<comment> \<open>the constructor\<close>
  "pool_impl n opts =
     (let p = \<lparr>pool_size = n, co = opts, connections = [], ready_connections = [], queue = [],
               closed = False, closed_callback = None\<rparr>
      in if pool_size p = 0 then
           Inl (connection_error ''Database connection pool size cannot be zero'')
         else if uri (co p) = [] then Inl (connection_error ''No URI in database connection string'')
         else Inr p)"

definition pool_alias :: "pool \<Rightarrow> rdalias" where
  "pool_alias p = conn_alias (co p)"

definition get_idle_connection :: "pool \<Rightarrow> (conn_id \<times> pool) option" where
  "get_idle_connection p =
     (if closed p then None
      else case ready_connections p of
             [] \<Rightarrow> None
           | c # cs \<Rightarrow> Some (c, p\<lparr>ready_connections := cs\<rparr>))"

definition add_idle_connection :: "conn_id \<Rightarrow> pool \<Rightarrow> pool" where
  "add_idle_connection c p =
     (if \<not> closed p then p\<lparr>ready_connections := ready_connections p @ [c]\<rparr> else p)"

definition erase_connection :: "conn_id option \<Rightarrow> pool \<Rightarrow> pool" where
  "erase_connection conn p =
     (case conn of
        None \<Rightarrow> p
      | Some c \<Rightarrow> if c \<in> set (connections p) then p\<lparr>connections := remove1 c (connections p)\<rparr> else p)"

definition next_event :: "pool \<Rightarrow> (execute_event \<times> pool) option" where
  "next_event p = (case queue p of [] \<Rightarrow> None | evt # q \<Rightarrow> Some (evt, p\<lparr>queue := q\<rparr>))"

definition enqueue_event :: "execute_event \<Rightarrow> pool \<Rightarrow> pool" where
  "enqueue_event evt p = p\<lparr>queue := queue p @ [evt]\<rparr>"

fun clear_queue_loop :: "execute_event list \<Rightarrow> rd_error \<Rightarrow> pool_call list" where
  "clear_queue_loop [] ec = []"
| "clear_queue_loop (req # q) ec =
     (case error_cb req of Some cb \<Rightarrow> [P_error cb ec] | None \<Rightarrow> []) @ clear_queue_loop q ec"

definition clear_queue :: "rd_error \<Rightarrow> pool \<Rightarrow> pool \<times> pool_call list" where
  "clear_queue ec p = (p\<lparr>queue := []\<rparr>, clear_queue_loop (queue p) ec)"

definition create_new_connection :: "conn_id \<Rightarrow> pool \<Rightarrow> fault + pool \<times> pool_call list" where
  \<comment> \<open>\<open>conn\<close> is the pointer that the new connection gets\<close>
  "create_new_connection conn p =
     (if closed p then Inr (p, [])
      else
        case connection_create (co p) pool_callbacks of
          Inl e \<Rightarrow> Inl (Thrown e)
        | Inr _ \<Rightarrow> Inr (p\<lparr>connections := connections p @ [conn]\<rparr>, [P_create conn]))"

definition close_connections :: "pool \<Rightarrow> pool_call list" where
  "close_connections p =
     (if connections p \<noteq> [] then map P_terminate (connections p) else []) @
     (case closed_callback p of Some cb \<Rightarrow> [P_closed cb] | None \<Rightarrow> [])"

definition connection_ready :: "conn_id \<Rightarrow> pool \<Rightarrow> pool \<times> pool_call list" where
  "connection_ready c p =
     (case next_event p of
        Some (evt, p) \<Rightarrow> (p, [P_execute c evt])
      | None \<Rightarrow>
          if closed p then (p, close_connections p)
          else (add_idle_connection c p, []))"

definition connection_terminated :: "conn_id \<Rightarrow> pool \<Rightarrow> pool \<times> pool_call list" where
  "connection_terminated c p =
     (let p = erase_connection (Some c) p in
      (p, if connections p = [] \<and> closed p
          then (case closed_callback p of Some cb \<Rightarrow> [P_closed cb] | None \<Rightarrow> []) else []))"

definition pool_connection_error :: "conn_id option \<Rightarrow> rd_error \<Rightarrow> pool \<Rightarrow> pool \<times> pool_call list" where
  "pool_connection_error c ec p = clear_queue ec (erase_connection c p)"

definition get_connection ::
  "conn_id \<Rightarrow> command_wrapper_t \<Rightarrow> callback option \<Rightarrow> callback option \<Rightarrow> pool \<Rightarrow>
     fault + pool \<times> pool_call list" where
  "get_connection conn cmd conn_cb err p =
     (if closed p then
        (case err of
           Some cb \<Rightarrow> Inr (p, [P_error cb (connection_error ''Connection pool is closed'')])
         | None \<Rightarrow> Inl (Uncaught bad_function_call))
      else
        case serialize_wrapper [] cmd of
          None \<Rightarrow> Inl Out_of_bounds
        | Some b \<Rightarrow>
            let evt = \<lparr>buff = b, result_cb = conn_cb, error_cb = err\<rparr> in
            case get_idle_connection p of
              Some (c, p) \<Rightarrow> Inr (p, [P_execute c evt])
            | None \<Rightarrow>
                (case (if \<not> closed p \<and> length (connections p) < pool_size p
                       then create_new_connection conn p else Inr (p, [])) of
                   Inl f \<Rightarrow> Inl f
                 | Inr (p, calls) \<Rightarrow> Inr (enqueue_event evt p, calls)))"

definition pool_close :: "callback option \<Rightarrow> pool \<Rightarrow> pool \<times> pool_call list" where
  "pool_close close_cb p =
     (if \<not> closed p then
        let p = p\<lparr>closed := True, closed_callback := close_cb\<rparr> in
        (p, if queue p = [] then close_connections p else [])
      else (p, []))"

definition pool_create :: "nat \<Rightarrow> connection_options \<Rightarrow> conn_id \<Rightarrow> fault + pool \<times> pool_call list" where
  "pool_create n opts conn =
     (case pool_impl n opts of
        Inl e \<Rightarrow> Inl (Thrown e)
      | Inr p \<Rightarrow> create_new_connection conn p)"

section \<open>The queues\<close>

text \<open>What the pool relies on of a queue: first in, first out.\<close>

locale fifo_queue =
  fixes push :: "'a \<Rightarrow> 'q \<Rightarrow> 'q" and pop :: "'q \<Rightarrow> ('a \<times> 'q) option" and items :: "'q \<Rightarrow> 'a list"
  assumes items_push: "items (push x q) = items q @ [x]"
    and pop_None: "pop q = None \<longleftrightarrow> items q = []"
    and pop_Some: "pop q = Some (x, q') \<Longrightarrow> items q = x # items q'"
begin

lemma pop_push_empty: "items q = [] \<Longrightarrow> \<exists>q'. pop (push x q) = Some (x, q') \<and> items q' = []"
proof -
  assume "items q = []"
  then have i: "items (push x q) = [x]" by (simp add: items_push)
  then obtain y q' where "pop (push x q) = Some (y, q')" using pop_None by (cases "pop (push x q)") auto
  with pop_Some[OF this] i show ?thesis by auto
qed

text \<open>Across a push, the next item to be popped stays the same, and what was pushed is the last.\<close>

lemma pop_push:
  assumes "pop q = Some (x, q')"
  shows "\<exists>q''. pop (push y q) = Some (x, q'') \<and> items q'' = items q' @ [y]"
proof -
  have i: "items (push y q) = x # items q' @ [y]" using pop_Some[OF assms] by (simp add: items_push)
  then obtain z q'' where "pop (push y q) = Some (z, q'')" using pop_None by (cases "pop (push y q)") auto
  with pop_Some[OF this] i show ?thesis by auto
qed

end

interpretation requests: fifo_queue enqueue_event next_event queue
  by unfold_locales (auto simp: enqueue_event_def next_event_def split: list.splits)

section \<open>Histories\<close>

text \<open>
  The operations that the outside performs on a pool: requests of the client (with the pointer a new
  connection would get), notifications of its connections, and the close of the service.
\<close>

datatype pool_op =
  Op_get conn_id command_wrapper_t "callback option" "callback option"
| Op_ready conn_id
| Op_terminated conn_id
| Op_error "conn_id option" rd_error
| Op_close "callback option"

fun pool_step :: "pool_op \<Rightarrow> pool \<Rightarrow> fault + pool \<times> pool_call list" where
  "pool_step (Op_get conn cmd rcb ecb) p = get_connection conn cmd rcb ecb p"
| "pool_step (Op_ready c) p = Inr (connection_ready c p)"
| "pool_step (Op_terminated c) p = Inr (connection_terminated c p)"
| "pool_step (Op_error c ec) p = Inr (pool_connection_error c ec p)"
| "pool_step (Op_close cb) p = Inr (pool_close cb p)"

text \<open>
  A history records, in order, the requests that were accepted, those handed to a connection, those
  failed by \<^const>\<open>clear_queue\<close>, and all calls.
\<close>

record history =
  accepted :: "execute_event list"
  handed :: "execute_event list"
  failed :: "execute_event list"
  calls :: "pool_call list"

fun executed :: "pool_call \<Rightarrow> execute_event list" where
  "executed (P_execute _ evt) = [evt]"
| "executed _ = []"

fun op_accepts :: "pool_op \<Rightarrow> pool \<Rightarrow> execute_event list" where
  "op_accepts (Op_get _ cmd rcb ecb) p =
     (if closed p then []
      else case serialize_wrapper [] cmd of
             None \<Rightarrow> []
           | Some b \<Rightarrow> [\<lparr>buff = b, result_cb = rcb, error_cb = ecb\<rparr>])"
| "op_accepts _ p = []"

fun op_fails :: "pool_op \<Rightarrow> pool \<Rightarrow> execute_event list" where
  "op_fails (Op_error _ _) p = queue p"
| "op_fails _ p = []"

definition extend :: "pool_op \<Rightarrow> pool \<Rightarrow> pool_call list \<Rightarrow> history \<Rightarrow> history" where
  "extend op p out h =
     \<lparr>accepted = accepted h @ op_accepts op p,
      handed = handed h @ concat (map executed out),
      failed = failed h @ op_fails op p,
      calls = calls h @ out\<rparr>"

definition no_history :: history where
  "no_history = \<lparr>accepted = [], handed = [], failed = [], calls = []\<rparr>"

inductive pool_run :: "pool \<Rightarrow> history \<Rightarrow> bool" where
  create: "pool_create n opts conn = Inr (p, out) \<Longrightarrow> pool_run p (no_history\<lparr>calls := out\<rparr>)"
| step: "pool_run p h \<Longrightarrow> pool_step op p = Inr (p', out) \<Longrightarrow> pool_run p' (extend op p out h)"

end
