(* ===== verification/Rd_Pool_Laws.thy ===== *)
theory Rd_Pool_Laws
  imports Rd_Pool "HOL-Library.Multiset" "HOL-Library.Code_Target_Nat"
begin

text \<open>
  The laws of \<^verbatim>\<open>connection_pool\<close> over every history of operations: the bound on its connections, the
  order in which requests reach connections, the account of every accepted request, what a closed pool
  does, and what happens to a connection that dies while it is idle.
\<close>

section \<open>Single operations\<close>

lemma pool_impl_Inr:
  "pool_impl n opts = Inr p \<longleftrightarrow>
     n \<noteq> 0 \<and> uri opts \<noteq> [] \<and>
     p = \<lparr>pool_size = n, co = opts, connections = [], ready_connections = [], queue = [],
          closed = False, closed_callback = None\<rparr>"
  by (auto simp: pool_impl_def Let_def)

lemma create_new_connection_Inr:
  "create_new_connection conn p = Inr (p', out) \<Longrightarrow>
     (closed p \<and> p' = p \<and> out = []) \<or>
     (\<not> closed p \<and> p' = p\<lparr>connections := connections p @ [conn]\<rparr> \<and> out = [P_create conn])"
  by (auto simp: create_new_connection_def split: if_splits sum.splits)

lemma connection_create_cases:
  "connection_create opts cbs =
     (if schema opts \<in> {''tcp'', ''unix''}
      then Inr (if schema opts = ''tcp'' then tcp_transport else socket_transport, create_with opts cbs)
      else Inl (connection_error (''Schema '' @ schema opts @ '' is unsupported'')))"
  by (simp add: connection_create_def)

lemma pool_create_Inr:
  "pool_create n opts conn = Inr (p, out) \<longleftrightarrow>
     n \<noteq> 0 \<and> uri opts \<noteq> [] \<and> schema opts \<in> {''tcp'', ''unix''} \<and>
     p = \<lparr>pool_size = n, co = opts, connections = [conn], ready_connections = [], queue = [],
          closed = False, closed_callback = None\<rparr> \<and> out = [P_create conn]"
  by (auto simp: pool_create_def pool_impl_def Let_def create_new_connection_def connection_create_cases
      split: if_splits)

text \<open>\<^verbatim>\<open>clear_queue\<close> calls the error callback of every queued request once, in the order of the queue.\<close>

lemma clear_queue_loop_eq:
  "clear_queue_loop q ec = map (\<lambda>cb. P_error cb ec) (List.map_filter error_cb q)"
  by (induction q ec rule: clear_queue_loop.induct) (auto simp: List.map_filter_simps split: option.splits)

lemma executed_clear_queue [simp]: "call \<in> set (clear_queue_loop q ec) \<Longrightarrow> executed call = []"
  by (induction q) (auto split: option.splits)

lemma executed_close_connections [simp]: "call \<in> set (close_connections p) \<Longrightarrow> executed call = []"
  by (auto simp: close_connections_def split: option.splits if_splits)

text \<open>The ways a request that is not refused can go.\<close>

lemma get_connection_Inr:
  assumes "get_connection conn cmd rcb ecb p = Inr (p', out)" and "\<not> closed p"
  obtains (idle) c cs b where "ready_connections p = c # cs" "serialize_wrapper [] cmd = Some b"
      "p' = p\<lparr>ready_connections := cs\<rparr>"
      "out = [P_execute c \<lparr>buff = b, result_cb = rcb, error_cb = ecb\<rparr>]"
    | (grow) b where "ready_connections p = []" "serialize_wrapper [] cmd = Some b"
      "length (connections p) < pool_size p" "out = [P_create conn]"
      "p' = p\<lparr>connections := connections p @ [conn],
              queue := queue p @ [\<lparr>buff = b, result_cb = rcb, error_cb = ecb\<rparr>]\<rparr>"
    | (full) b where "ready_connections p = []" "serialize_wrapper [] cmd = Some b"
      "\<not> length (connections p) < pool_size p" "out = []"
      "p' = p\<lparr>queue := queue p @ [\<lparr>buff = b, result_cb = rcb, error_cb = ecb\<rparr>]\<rparr>"
  using assms
  by (auto simp: get_connection_def get_idle_connection_def enqueue_event_def Let_def
      create_new_connection_def split: option.splits list.splits if_splits sum.splits)

section \<open>The invariant\<close>

text \<open>
  A pool never has more connections than its size, and no idle connection waits while a request does.
\<close>

definition pool_inv :: "pool \<Rightarrow> bool" where
  "pool_inv p \<longleftrightarrow>
     0 < pool_size p \<and> length (connections p) \<le> pool_size p \<and>
     (ready_connections p = [] \<or> queue p = []) \<and> (closed_callback p = None \<or> closed p)"

lemma pool_create_inv: "pool_create n opts conn = Inr (p, out) \<Longrightarrow> pool_inv p"
  by (auto simp: pool_create_Inr pool_inv_def)

lemma pool_step_inv: "pool_step op p = Inr (p', out) \<Longrightarrow> pool_inv p \<Longrightarrow> pool_inv p'"
proof (induction op p rule: pool_step.induct)
  case (1 conn cmd rcb ecb p)
  show ?case
  proof (cases "closed p")
    case True
    with 1 show ?thesis by (auto simp: get_connection_def split: option.splits)
  next
    case False
    from 1(1) have "get_connection conn cmd rcb ecb p = Inr (p', out)" by simp
    from this False show ?thesis
      by (cases rule: get_connection_Inr) (use 1(2) in \<open>auto simp: pool_inv_def\<close>)
  qed
next
  case (2 c p)
  then show ?case
    by (auto simp: pool_inv_def connection_ready_def next_event_def add_idle_connection_def
        split: list.splits if_splits)
next
  case (3 c p)
  then show ?case
    by (auto simp: pool_inv_def connection_terminated_def erase_connection_def Let_def length_remove1
        split: if_splits)
next
  case (4 c ec p)
  then show ?case
    by (auto simp: pool_inv_def pool_connection_error_def clear_queue_def erase_connection_def
        length_remove1 split: if_splits option.splits)
next
  case (5 cb p)
  then show ?case by (auto simp: pool_inv_def pool_close_def Let_def split: if_splits)
qed

lemma run_pool_inv: "pool_run p h \<Longrightarrow> pool_inv p"
  by (induction rule: pool_run.induct) (auto intro: pool_create_inv pool_step_inv)

section \<open>The order and the account of the requests\<close>

lemma shuffles_append1: "xs \<in> shuffles a b \<Longrightarrow> xs @ ys \<in> shuffles (a @ ys) b"
proof (induction a b arbitrary: xs rule: shuffles.induct)
  case (1 b)
  have "b @ ys \<in> shuffles ys b"
    by (induction b) (auto intro: Cons_in_shuffles_rightI)
  with 1 show ?case by simp
qed (auto simp: Cons_in_shuffles_iff intro: Cons_in_shuffles_leftI Cons_in_shuffles_rightI)

lemma shuffles_append2: "xs \<in> shuffles a b \<Longrightarrow> xs @ ys \<in> shuffles a (b @ ys)"
  using shuffles_append1[of xs b a ys] by (simp add: shuffles_commutes)

text \<open>
  The accepted requests are an interleaving of those handed to a connection and those failed, each in
  the order of acceptance, followed by those still queued.
\<close>

definition accounted :: "pool \<Rightarrow> history \<Rightarrow> bool" where
  "accounted p h \<longleftrightarrow> (\<exists>xs \<in> shuffles (handed h) (failed h). accepted h = xs @ queue p)"

lemma accounted_create: "pool_create n opts conn = Inr (p, out) \<Longrightarrow> accounted p (no_history\<lparr>calls := out\<rparr>)"
  by (auto simp: pool_create_Inr accounted_def no_history_def)

lemma accounted_hand:
  assumes "accounted p h" and "queue p = evt # q" and "queue p' = q"
    and "handed h' = handed h @ [evt]" "failed h' = failed h" "accepted h' = accepted h"
  shows "accounted p' h'"
proof -
  from assms(1) obtain xs where "xs \<in> shuffles (handed h) (failed h)" "accepted h = xs @ queue p"
    by (auto simp: accounted_def)
  with assms shuffles_append1[of xs _ _ "[evt]"] show ?thesis
    by (auto simp: accounted_def intro!: bexI[of _ "xs @ [evt]"])
qed

lemma accounted_direct:
  assumes "accounted p h" and "queue p = []" and "queue p' = []"
    and "handed h' = handed h @ [evt]" "failed h' = failed h" "accepted h' = accepted h @ [evt]"
  shows "accounted p' h'"
  using assms shuffles_append1[of _ _ _ "[evt]"] by (auto simp: accounted_def)

lemma accounted_fail:
  assumes "accounted p h" and "queue p' = []"
    and "handed h' = handed h" "failed h' = failed h @ queue p" "accepted h' = accepted h"
  shows "accounted p' h'"
  using assms shuffles_append2[of _ _ _ "queue p"] by (auto simp: accounted_def)

lemma accounted_enqueue:
  assumes "accounted p h" and "queue p' = queue p @ evts"
    and "handed h' = handed h" "failed h' = failed h" "accepted h' = accepted h @ evts"
  shows "accounted p' h'"
  using assms by (auto simp: accounted_def)

lemma accounted_step:
  assumes "pool_step op p = Inr (p', out)" and "pool_inv p" and "accounted p h"
  shows "accounted p' (extend op p out h)"
proof (cases op)
  case (Op_get conn cmd rcb ecb)
  show ?thesis
  proof (cases "closed p")
    case True
    with assms Op_get show ?thesis
      by (intro accounted_enqueue[OF assms(3), of _ "[]"])
        (auto simp: extend_def get_connection_def split: option.splits)
  next
    case False
    from assms(1) Op_get have "get_connection conn cmd rcb ecb p = Inr (p', out)" by simp
    from this False show ?thesis
    proof (cases rule: get_connection_Inr)
      case idle
      with assms(2) have "queue p = []" by (auto simp: pool_inv_def)
      with idle False Op_get show ?thesis
        by (intro accounted_direct[OF assms(3)]) (auto simp: extend_def)
    qed (use False Op_get in \<open>auto simp: extend_def intro!: accounted_enqueue[OF assms(3)]\<close>)
  qed
next
  case (Op_ready c)
  show ?thesis
  proof (cases "queue p")
    case Nil
    with assms(1) Op_ready show ?thesis
      by (intro accounted_enqueue[OF assms(3), of _ "[]"])
        (auto simp: extend_def connection_ready_def next_event_def add_idle_connection_def
          split: if_splits)
  next
    case (Cons evt q)
    with assms(1) Op_ready show ?thesis
      by (intro accounted_hand[OF assms(3) Cons])
        (auto simp: extend_def connection_ready_def next_event_def)
  qed
next
  case (Op_terminated c)
  with assms(1) show ?thesis
    by (intro accounted_enqueue[OF assms(3), of _ "[]"])
      (auto simp: extend_def connection_terminated_def erase_connection_def Let_def
        split: if_splits option.splits)
next
  case (Op_error c ec)
  with assms(1) show ?thesis
    by (intro accounted_fail[OF assms(3)])
      (auto simp: extend_def pool_connection_error_def clear_queue_def erase_connection_def
        split: if_splits option.splits)
next
  case (Op_close cb)
  with assms(1) show ?thesis
    by (intro accounted_enqueue[OF assms(3), of _ "[]"])
      (auto simp: extend_def pool_close_def Let_def split: if_splits)
qed

lemma run_accounted: "pool_run p h \<Longrightarrow> accounted p h"
  by (induction rule: pool_run.induct) (auto intro: accounted_create accounted_step run_pool_inv)

lemma accounted_mset:
  "accounted p h \<Longrightarrow> mset (accepted h) = mset (handed h) + mset (failed h) + mset (queue p)"
  by (auto simp: accounted_def mset_shuffles)

lemma accounted_fifo: "accounted p h \<Longrightarrow> failed h = [] \<Longrightarrow> accepted h = handed h @ queue p"
  by (auto simp: accounted_def)

section \<open>The totality of a request\<close>

text \<open>
  On a pool that exists, a request whose commands have an argument each is taken, if the pool is open,
  and refused through its error callback, if the pool is closed.
\<close>

fun command_lists :: "command_wrapper_t \<Rightarrow> string list list" where
  "command_lists (Container cont) = map arguments cont"
| "command_lists (Single cmd) = [arguments cmd]"

lemma serialize_wrapper_exact:
  "[] \<notin> set (command_lists cmd) \<Longrightarrow>
     serialize_wrapper [] cmd = Some (concat (map wire_command (command_lists cmd)))"
proof (cases cmd)
  case (Container cont)
  moreover assume "[] \<notin> set (command_lists cmd)"
  ultimately have "\<And>c. c \<in> set cont \<Longrightarrow> arguments c \<noteq> []" by (force simp: image_iff)
  from serialize_container_exact[OF this, of cont "[]"] Container show ?thesis by (simp add: comp_def)
qed (auto simp: serialize_exact)

lemma get_connection_closed:
  "closed p \<Longrightarrow> get_connection conn cmd rcb (Some cb) p =
     Inr (p, [P_error cb (connection_error ''Connection pool is closed'')])"
  by (simp add: get_connection_def)

lemma get_connection_closed_no_callback:
  "closed p \<Longrightarrow> get_connection conn cmd rcb None p = Inl (Uncaught bad_function_call)"
  by (simp add: get_connection_def)

definition usable :: "connection_options \<Rightarrow> bool" where
  "usable opts \<longleftrightarrow> schema opts \<in> {''tcp'', ''unix''}"

lemma get_connection_open:
  fixes rcb ecb
  assumes "\<not> closed p" and "usable (co p)" and "[] \<notin> set (command_lists cmd)"
  defines "evt \<equiv> \<lparr>buff = concat (map wire_command (command_lists cmd)), result_cb = rcb, error_cb = ecb\<rparr>"
  shows "get_connection conn cmd rcb ecb p = Inr
    (case ready_connections p of
       c # cs \<Rightarrow> (p\<lparr>ready_connections := cs\<rparr>, [P_execute c evt])
     | [] \<Rightarrow>
         if length (connections p) < pool_size p
         then (p\<lparr>connections := connections p @ [conn], queue := queue p @ [evt]\<rparr>, [P_create conn])
         else (p\<lparr>queue := queue p @ [evt]\<rparr>, []))"
  using assms
  by (auto simp: get_connection_def serialize_wrapper_exact get_idle_connection_def Let_def
      create_new_connection_def connection_create_cases enqueue_event_def usable_def
      split: list.splits)

section \<open>The options of a pool never change\<close>

lemma step_co: "pool_step op p = Inr (p', out) \<Longrightarrow> co p' = co p \<and> pool_size p' = pool_size p"
  by (induction op p rule: pool_step.induct)
    (auto simp: get_connection_def get_idle_connection_def enqueue_event_def Let_def
      create_new_connection_def connection_ready_def next_event_def add_idle_connection_def
      connection_terminated_def pool_connection_error_def erase_connection_def clear_queue_def
      pool_close_def split: option.splits list.splits if_splits sum.splits)

lemma run_usable: "pool_run p h \<Longrightarrow> usable (co p)"
  by (induction rule: pool_run.induct) (auto simp: pool_create_Inr usable_def dest: step_co)

section \<open>A closed pool\<close>

fun creates :: "pool_call \<Rightarrow> bool" where
  "creates (P_create _) = True"
| "creates _ = False"

lemma close_connections_creates [simp]: "filter creates (close_connections p) = []"
  by (auto simp: close_connections_def filter_empty_conv split: option.splits if_splits)

lemma clear_queue_creates [simp]: "filter creates (clear_queue_loop q ec) = []"
  by (induction q) (auto split: option.splits)

text \<open>
  It stays closed, takes no request, makes no connection, and hands out only what it had queued.
\<close>

lemma closed_step:
  assumes "pool_step op p = Inr (p', out)" and "closed p"
  shows "closed p' \<and> op_accepts op p = [] \<and> filter creates out = [] \<and>
    (\<exists>gone. queue p = gone @ queue p') \<and> ready_connections p' = ready_connections p \<and>
    length (connections p') \<le> length (connections p)"
  using assms
proof (induction op p rule: pool_step.induct)
  case (2 c p)
  then show ?case
    by (auto simp: connection_ready_def next_event_def split: list.splits)
next
  case (3 c p)
  then show ?case
    by (auto simp: connection_terminated_def erase_connection_def Let_def length_remove1
        split: if_splits option.splits)
next
  case (4 c ec p)
  then show ?case
    by (auto simp: pool_connection_error_def clear_queue_def erase_connection_def length_remove1
        split: if_splits option.splits)
qed (auto simp: get_connection_def pool_close_def split: option.splits)

text \<open>
  Closing an idle pool terminates all its connections; a pool with requests waits, serves them in
  order as its connections become ready, and then terminates its connections.
\<close>

lemma pool_close_idle:
  "\<not> closed p \<Longrightarrow> queue p = [] \<Longrightarrow>
     pool_close cb p = (p\<lparr>closed := True, closed_callback := cb\<rparr>,
       map P_terminate (connections p) @ (case cb of None \<Rightarrow> [] | Some k \<Rightarrow> [P_closed k]))"
  by (simp add: pool_close_def close_connections_def Let_def)

lemma pool_close_busy:
  "\<not> closed p \<Longrightarrow> queue p \<noteq> [] \<Longrightarrow>
     pool_close cb p = (p\<lparr>closed := True, closed_callback := cb\<rparr>, [])"
  by (simp add: pool_close_def Let_def)

lemma pool_close_again: "closed p \<Longrightarrow> pool_close cb p = (p, [])"
  by (simp add: pool_close_def Let_def)

fun ready_all :: "conn_id list \<Rightarrow> pool \<Rightarrow> pool \<times> pool_call list" where
  "ready_all [] p = (p, [])"
| "ready_all (c # cs) p =
     (case connection_ready c p of (p, out) \<Rightarrow> (case ready_all cs p of (p, out') \<Rightarrow> (p, out @ out')))"

lemma ready_serves:
  "length cs = length (queue p) \<Longrightarrow>
     ready_all cs p = (p\<lparr>queue := []\<rparr>, map2 P_execute cs (queue p))"
proof (induction cs arbitrary: p)
  case Nil
  then show ?case by simp
next
  case (Cons c cs)
  then obtain evt q where q: "queue p = evt # q" by (cases "queue p") auto
  with Cons.prems have "length cs = length (queue (p\<lparr>queue := q\<rparr>))" by simp
  with Cons.IH[OF this] q show ?case by (simp add: connection_ready_def next_event_def)
qed

lemma ready_drained:
  "closed p \<Longrightarrow> queue p = [] \<Longrightarrow> connection_ready c p = (p, close_connections p)"
  by (simp add: connection_ready_def next_event_def)

lemma ready_all_append:
  "ready_all (cs @ ds) p =
     (case ready_all cs p of (p, out) \<Rightarrow> (case ready_all ds p of (p, out') \<Rightarrow> (p, out @ out')))"
  by (induction cs arbitrary: p) (auto split: prod.splits)

lemma closed_drains:
  assumes "closed p" and "length cs = length (queue p)"
  shows "ready_all (cs @ [c]) p = (p\<lparr>queue := []\<rparr>,
    map2 P_execute cs (queue p) @ map P_terminate (connections p) @
    (case closed_callback p of None \<Rightarrow> [] | Some k \<Rightarrow> [P_closed k]))"
  using assms
  by (simp add: ready_all_append ready_serves ready_drained close_connections_def)

text \<open>
  After the close of an idle pool each connection reports its end; with the last one the closed
  callback is called once more.
\<close>

fun terminated_all :: "conn_id list \<Rightarrow> pool \<Rightarrow> pool \<times> pool_call list" where
  "terminated_all [] p = (p, [])"
| "terminated_all (c # cs) p =
     (case connection_terminated c p of
        (p, out) \<Rightarrow> (case terminated_all cs p of (p, out') \<Rightarrow> (p, out @ out')))"

lemma terminated_all_calls:
  assumes "closed p" and "closed_callback p = Some k" and "connections p \<noteq> []"
  shows "terminated_all (connections p) p = (p\<lparr>connections := []\<rparr>, [P_closed k])"
  using assms
proof (induction "connections p" arbitrary: p)
  case Nil
  then show ?case by simp
next
  case (Cons c cs)
  let ?p = "p\<lparr>connections := cs\<rparr>"
  from Cons.hyps(2) have erase: "erase_connection (Some c) p = ?p"
    by (simp add: erase_connection_def flip: Cons.hyps(2))
  show ?case
  proof (cases "cs = []")
    case True
    with Cons.prems erase show ?thesis
      by (simp add: connection_terminated_def flip: Cons.hyps(2))
  next
    case False
    from Cons.hyps(1)[of ?p] Cons.prems False
    have "terminated_all cs ?p = (p\<lparr>connections := []\<rparr>, [P_closed k])" by simp
    with Cons.prems erase False show ?thesis
      by (simp add: connection_terminated_def flip: Cons.hyps(2))
  qed
qed

lemma close_calls_twice:
  assumes "\<not> closed p" and "queue p = []" and "connections p \<noteq> []"
  shows "case pool_close (Some k) p of (p1, out1) \<Rightarrow> case terminated_all (connections p1) p1 of
    (p2, out2) \<Rightarrow> out1 @ out2 = map P_terminate (connections p) @ [P_closed k, P_closed k] \<and>
      connections p2 = []"
  using assms terminated_all_calls[of "p\<lparr>closed := True, closed_callback := Some k\<rparr>" k]
  by (simp add: pool_close_idle)

section \<open>A connection that dies while it is idle\<close>

text \<open>
  Neither the error nor the end of a connection takes it out of the idle connections, so the next
  request goes to it.
\<close>

lemma stale_ready:
  fixes c ec
  assumes "\<not> closed p" and "queue p = []" and "ready_connections p = []"
    and "[] \<notin> set (command_lists cmd)" and "usable (co p)"
  defines "p1 \<equiv> fst (connection_ready c p)"
  defines "p2 \<equiv> fst (pool_connection_error None ec p1)"
  defines "p3 \<equiv> fst (connection_terminated c p2)"
  shows "get_connection conn cmd rcb ecb p3 =
    Inr (p3\<lparr>ready_connections := []\<rparr>,
      [P_execute c \<lparr>buff = concat (map wire_command (command_lists cmd)),
                    result_cb = rcb, error_cb = ecb\<rparr>])"
proof -
  have p3: "p3 = erase_connection (Some c) (p\<lparr>ready_connections := [c], queue := []\<rparr>)"
    using assms(1-3)
    by (simp add: p3_def p2_def p1_def connection_ready_def next_event_def add_idle_connection_def
        pool_connection_error_def clear_queue_def erase_connection_def connection_terminated_def)
  then have "\<not> closed p3" "usable (co p3)" "ready_connections p3 = [c]"
    using assms(1,5) by (auto simp: erase_connection_def)
  with get_connection_open[OF this(1,2) assms(4)] show ?thesis by simp
qed

section \<open>Executable histories\<close>

fun pool_exec :: "pool_op list \<Rightarrow> pool \<times> history \<Rightarrow> (pool \<times> history) option" where
  "pool_exec [] s = Some s"
| "pool_exec (op # ops) (p, h) =
     (case pool_step op p of
        Inl f \<Rightarrow> None
      | Inr (p', out) \<Rightarrow> pool_exec ops (p', extend op p out h))"

lemma pool_exec_run:
  "pool_exec ops (p, h) = Some (p', h') \<Longrightarrow> pool_run p h \<Longrightarrow> pool_run p' h'"
proof (induction ops arbitrary: p h)
  case (Cons op ops)
  then obtain p1 out where s: "pool_step op p = Inr (p1, out)"
    and r: "pool_exec ops (p1, extend op p out h) = Some (p', h')"
    by (auto split: sum.splits)
  from Cons.IH[OF r pool_run.step[OF Cons.prems(2) s]] show ?case .
qed simp

text \<open>
  A pool of two connections takes four requests, while its connections become ready, and then loses the
  requests it still holds to a connection error.
\<close>

definition pool_options :: connection_options where
  "pool_options = default_options\<lparr>conn_alias := ''main'', schema := ''tcp'', uri := ''localhost:7000''\<rparr>"

definition get_op :: "conn_id \<Rightarrow> string \<Rightarrow> nat \<Rightarrow> pool_op" where
  "get_op c key n = Op_get c (Single \<lparr>arguments = [''GET'', key]\<rparr>) (Some n) (Some (n + 1))"

definition get_request :: "string \<Rightarrow> nat \<Rightarrow> execute_event" where
  "get_request key n = \<lparr>buff = wire_command [''GET'', key], result_cb = Some n, error_cb = Some (n + 1)\<rparr>"

definition sample_ops :: "pool_op list" where
  "sample_ops =
     [get_op 1 ''a'' 10, Op_ready 0, Op_ready 1, get_op 2 ''b'' 20, get_op 2 ''c'' 30, get_op 2 ''d'' 40,
      Op_error None (connection_error ''lost'')]"

definition sample_pool :: "(pool \<times> history) option" where
  "sample_pool =
     (case pool_create 2 pool_options 0 of
        Inl f \<Rightarrow> None
      | Inr (p, out) \<Rightarrow> pool_exec sample_ops (p, no_history\<lparr>calls := out\<rparr>))"

lemma sample_pool_outcome:
  "map_option (\<lambda>(p, h). (connections p, queue p, accepted h, handed h, failed h, calls h)) sample_pool =
     Some ([0, 1], [],
       [get_request ''a'' 10, get_request ''b'' 20, get_request ''c'' 30, get_request ''d'' 40],
       [get_request ''a'' 10, get_request ''b'' 20], [get_request ''c'' 30, get_request ''d'' 40],
       [P_create 0, P_create 1, P_execute 0 (get_request ''a'' 10), P_execute 1 (get_request ''b'' 20),
        P_error 31 (connection_error ''lost''), P_error 41 (connection_error ''lost'')])"
  by code_simp

lemma sample_pool_run:
  obtains p h where "sample_pool = Some (p, h)" and "pool_run p h"
proof -
  from sample_pool_outcome obtain p h where s: "sample_pool = Some (p, h)" by auto
  then obtain p0 out where "pool_create 2 pool_options 0 = Inr (p0, out)"
    "pool_exec sample_ops (p0, no_history\<lparr>calls := out\<rparr>) = Some (p, h)"
    by (auto simp: sample_pool_def split: sum.splits)
  from pool_exec_run[OF this(2) pool_run.create[OF this(1)]] have "pool_run p h" .
  with s that show thesis by blast
qed

end
