(* ===== verification/Rd_Pool_Threads.thy ===== *)
theory Rd_Pool_Threads
  imports Rd_Pool_Laws
begin

text \<open>
  The operations of \<^verbatim>\<open>connection_pool::impl\<close> as threads execute them. \<open>Rd_Pool\<close> takes an operation as one
  step; in the source it takes its locks piece by piece and reads \<^verbatim>\<open>closed_\<close> and the sizes without one,
  so that operations of different threads interleave. Here the step is what one thread does between two
  points at which another may act: one access of an atomic flag, one section under a mutex, one unlocked
  read, one call. A thread that runs alone performs the operation of \<open>Rd_Pool\<close>.
\<close>

section \<open>Program points\<close>

text \<open>
  The point a thread has reached, with its local variables. \<open>conn\<close> is the pointer that a new connection
  would get.
\<close>

datatype point =
  Get_start conn_id command_wrapper_t "callback option" "callback option"
| Get_closed conn_id execute_event     \<comment> \<open>\<^verbatim>\<open>get_idle_connection\<close>, reads \<^verbatim>\<open>closed_\<close>\<close>
| Get_pop conn_id execute_event        \<comment> \<open>under \<^verbatim>\<open>conn_mutex_\<close>\<close>
| Get_open conn_id execute_event       \<comment> \<open>no idle connection: reads \<^verbatim>\<open>closed_\<close>\<close>
| Get_size conn_id execute_event       \<comment> \<open>reads \<^verbatim>\<open>connections_.size()\<close>, no lock\<close>
| New_closed conn_id execute_event     \<comment> \<open>\<^verbatim>\<open>create_new_connection\<close>, reads \<^verbatim>\<open>closed_\<close>\<close>
| New_make conn_id execute_event       \<comment> \<open>calls \<^verbatim>\<open>basic_connection::create\<close>\<close>
| New_push conn_id execute_event       \<comment> \<open>under \<^verbatim>\<open>conn_mutex_\<close>\<close>
| Enqueue execute_event                \<comment> \<open>under \<^verbatim>\<open>event_mutex_\<close>\<close>
| Hand conn_id execute_event           \<comment> \<open>calls \<^verbatim>\<open>conn->execute\<close>\<close>
| Next conn_id                         \<comment> \<open>\<^verbatim>\<open>next_event\<close>, under \<^verbatim>\<open>event_mutex_\<close>\<close>
| Ready_closed conn_id                 \<comment> \<open>\<^verbatim>\<open>connection_ready\<close>, reads \<^verbatim>\<open>closed_\<close>\<close>
| Idle_closed conn_id                  \<comment> \<open>\<^verbatim>\<open>add_idle_connection\<close>, reads \<^verbatim>\<open>closed_\<close>\<close>
| Idle_push conn_id                    \<comment> \<open>under \<^verbatim>\<open>conn_mutex_\<close>\<close>
| Close_empty                          \<comment> \<open>\<^verbatim>\<open>close_connections\<close>, reads \<^verbatim>\<open>connections_.empty()\<close>, no lock\<close>
| Close_all                            \<comment> \<open>under \<^verbatim>\<open>conn_mutex_\<close>\<close>
| Close_call
| Gone_erase conn_id                   \<comment> \<open>\<^verbatim>\<open>erase_connection\<close>, under \<^verbatim>\<open>conn_mutex_\<close>\<close>
| Gone_empty                           \<comment> \<open>\<^verbatim>\<open>connection_terminated\<close>, reads \<^verbatim>\<open>connections_.empty()\<close>, no lock\<close>
| Gone_closed
| Gone_call
| Failed_erase "conn_id option" rd_error
| Failed_clear rd_error                \<comment> \<open>\<^verbatim>\<open>clear_queue\<close>, under \<^verbatim>\<open>event_mutex_\<close>\<close>
| Shut_flag "callback option"          \<comment> \<open>\<^verbatim>\<open>close\<close>, \<^verbatim>\<open>closed_.compare_exchange_strong\<close>\<close>
| Shut_callback "callback option"
| Shut_queue                           \<comment> \<open>takes \<^verbatim>\<open>event_mutex_\<close> and keeps it to the end of \<^verbatim>\<open>close\<close>\<close>

fun start_point :: "pool_op \<Rightarrow> point" where
  "start_point (Op_get conn cmd rcb ecb) = Get_start conn cmd rcb ecb"
| "start_point (Op_ready c) = Next c"
| "start_point (Op_terminated c) = Gone_erase c"
| "start_point (Op_error c ec) = Failed_erase c ec"
| "start_point (Op_close cb) = Shut_flag cb"

text \<open>One step of a thread: the pool after it, the calls it makes, and the point reached, if any.\<close>

fun point_step :: "point \<Rightarrow> pool \<Rightarrow> fault + pool \<times> pool_call list \<times> point option" where
  "point_step (Get_start conn cmd rcb ecb) p =
     (if closed p then
        (case ecb of
           Some cb \<Rightarrow> Inr (p, [P_error cb (connection_error ''Connection pool is closed'')], None)
         | None \<Rightarrow> Inl (Uncaught bad_function_call))
      else
        case serialize_wrapper [] cmd of
          None \<Rightarrow> Inl Out_of_bounds
        | Some b \<Rightarrow> Inr (p, [], Some (Get_closed conn \<lparr>buff = b, result_cb = rcb, error_cb = ecb\<rparr>)))"
| "point_step (Get_closed conn evt) p =
     Inr (p, [], Some (if closed p then Get_open conn evt else Get_pop conn evt))"
| "point_step (Get_pop conn evt) p =
     (case ready_connections p of
        [] \<Rightarrow> Inr (p, [], Some (Get_open conn evt))
      | c # cs \<Rightarrow> Inr (p\<lparr>ready_connections := cs\<rparr>, [], Some (Hand c evt)))"
| "point_step (Get_open conn evt) p = Inr (p, [], Some (if closed p then Enqueue evt else Get_size conn evt))"
| "point_step (Get_size conn evt) p =
     Inr (p, [], Some (if length (connections p) < pool_size p then New_closed conn evt else Enqueue evt))"
| "point_step (New_closed conn evt) p = Inr (p, [], Some (if closed p then Enqueue evt else New_make conn evt))"
| "point_step (New_make conn evt) p =
     (case connection_create (co p) pool_callbacks of
        Inl e \<Rightarrow> Inl (Thrown e)
      | Inr _ \<Rightarrow> Inr (p, [P_create conn], Some (New_push conn evt)))"
| "point_step (New_push conn evt) p = Inr (p\<lparr>connections := connections p @ [conn]\<rparr>, [], Some (Enqueue evt))"
| "point_step (Enqueue evt) p = Inr (enqueue_event evt p, [], None)"
| "point_step (Hand c evt) p = Inr (p, [P_execute c evt], None)"
| "point_step (Next c) p =
     (case next_event p of
        Some (evt, p) \<Rightarrow> Inr (p, [], Some (Hand c evt))
      | None \<Rightarrow> Inr (p, [], Some (Ready_closed c)))"
| "point_step (Ready_closed c) p = Inr (p, [], Some (if closed p then Close_empty else Idle_closed c))"
| "point_step (Idle_closed c) p = Inr (p, [], if closed p then None else Some (Idle_push c))"
| "point_step (Idle_push c) p = Inr (p\<lparr>ready_connections := ready_connections p @ [c]\<rparr>, [], None)"
| "point_step Close_empty p = Inr (p, [], Some (if connections p = [] then Close_call else Close_all))"
| "point_step Close_all p = Inr (p, map P_terminate (connections p), Some Close_call)"
| "point_step Close_call p =
     Inr (p, (case closed_callback p of Some cb \<Rightarrow> [P_closed cb] | None \<Rightarrow> []), None)"
| "point_step (Gone_erase c) p = Inr (erase_connection (Some c) p, [], Some Gone_empty)"
| "point_step Gone_empty p = Inr (p, [], if connections p = [] then Some Gone_closed else None)"
| "point_step Gone_closed p = Inr (p, [], if closed p then Some Gone_call else None)"
| "point_step Gone_call p =
     Inr (p, (case closed_callback p of Some cb \<Rightarrow> [P_closed cb] | None \<Rightarrow> []), None)"
| "point_step (Failed_erase c ec) p = Inr (erase_connection c p, [], Some (Failed_clear ec))"
| "point_step (Failed_clear ec) p = (case clear_queue ec p of (p, out) \<Rightarrow> Inr (p, out, None))"
| "point_step (Shut_flag cb) p =
     (if closed p then Inr (p, [], None) else Inr (p\<lparr>closed := True\<rparr>, [], Some (Shut_callback cb)))"
| "point_step (Shut_callback cb) p = Inr (p\<lparr>closed_callback := cb\<rparr>, [], Some Shut_queue)"
| "point_step Shut_queue p = Inr (p, [], if queue p = [] then Some Close_empty else None)"

section \<open>A thread alone\<close>

text \<open>No thread goes round in circles: each step brings it nearer to the end of its operation.\<close>

fun steps_left :: "point \<Rightarrow> nat" where
  "steps_left (Get_start _ _ _ _) = 9"
| "steps_left (Get_closed _ _) = 8"
| "steps_left (Get_pop _ _) = 7"
| "steps_left (Get_open _ _) = 6"
| "steps_left (Get_size _ _) = 5"
| "steps_left (New_closed _ _) = 4"
| "steps_left (New_make _ _) = 3"
| "steps_left (New_push _ _) = 2"
| "steps_left (Enqueue _) = 1"
| "steps_left (Hand _ _) = 1"
| "steps_left (Next _) = 5"
| "steps_left (Ready_closed _) = 4"
| "steps_left (Idle_closed _) = 2"
| "steps_left (Idle_push _) = 1"
| "steps_left Close_empty = 3"
| "steps_left Close_all = 2"
| "steps_left Close_call = 1"
| "steps_left (Gone_erase _) = 4"
| "steps_left Gone_empty = 3"
| "steps_left Gone_closed = 2"
| "steps_left Gone_call = 1"
| "steps_left (Failed_erase _ _) = 2"
| "steps_left (Failed_clear _) = 1"
| "steps_left (Shut_flag _) = 6"
| "steps_left (Shut_callback _) = 5"
| "steps_left Shut_queue = 4"

lemma point_step_nearer:
  "point_step pt p = Inr (p', out, Some pt') \<Longrightarrow> steps_left pt' < steps_left pt"
  by (induction pt p rule: point_step.induct) (auto split: option.splits if_splits list.splits sum.splits prod.splits)

function alone :: "point \<Rightarrow> pool \<Rightarrow> fault + pool \<times> pool_call list" where
  "alone pt p =
     (case point_step pt p of
        Inl f \<Rightarrow> Inl f
      | Inr (p', out, None) \<Rightarrow> Inr (p', out)
      | Inr (p', out, Some pt') \<Rightarrow> map_sum id (map_prod id ((@) out)) (alone pt' p'))"
  by pat_completeness auto

termination
  by (relation "measure (\<lambda>(pt, p). steps_left pt)") (auto dest: point_step_nearer)

declare alone.simps [simp del]

lemma alone_step:
  "point_step pt p = Inl f \<Longrightarrow> alone pt p = Inl f"
  "point_step pt p = Inr (p', out, None) \<Longrightarrow> alone pt p = Inr (p', out)"
  "point_step pt p = Inr (p', out, Some pt') \<Longrightarrow> alone pt p = map_sum id (map_prod id ((@) out)) (alone pt' p')"
  by (simp_all add: alone.simps[of pt p])

lemma no_calls_before [simp]: "map_sum id (map_prod id ((@) [])) r = r"
  by (cases r) auto

lemma alone_Enqueue [simp]: "alone (Enqueue evt) p = Inr (enqueue_event evt p, [])"
  by (simp add: alone_step)

lemma alone_Close [simp]: "alone Close_empty p = Inr (p, close_connections p)"
  by (cases "connections p = []") (simp_all add: alone_step close_connections_def)

lemma alone_New:
  "alone (New_closed conn evt) p =
     (case create_new_connection conn p of
        Inl f \<Rightarrow> Inl f
      | Inr (p', out) \<Rightarrow> Inr (enqueue_event evt p', out))"
proof (cases "closed p")
  case True
  then show ?thesis by (simp add: alone_step create_new_connection_def)
next
  case False
  then show ?thesis
    by (cases "connection_create (co p) pool_callbacks") (simp_all add: alone_step create_new_connection_def)
qed

lemma alone_Get_open:
  "alone (Get_open conn evt) p =
     (case (if \<not> closed p \<and> length (connections p) < pool_size p
            then create_new_connection conn p else Inr (p, [])) of
        Inl f \<Rightarrow> Inl f
      | Inr (p, out) \<Rightarrow> Inr (enqueue_event evt p, out))"
proof (cases "closed p")
  case False
  have "alone (Get_size conn evt) p = (if length (connections p) < pool_size p
      then alone (New_closed conn evt) p else Inr (enqueue_event evt p, []))"
    by (cases "length (connections p) < pool_size p") (simp_all add: alone_step)
  with False show ?thesis
    by (simp add: alone_step alone_New split: sum.split)
qed (simp add: alone_step)

lemma alone_operation: "alone (start_point op) p = pool_step op p"
proof (cases op)
  case (Op_get conn cmd rcb ecb)
  show ?thesis
  proof (cases "closed p")
    case True
    then show ?thesis by (cases ecb) (simp_all add: Op_get alone_step get_connection_def)
  next
    case False
    show ?thesis
    proof (cases "serialize_wrapper [] cmd")
      case None
      with False show ?thesis by (simp add: Op_get alone_step get_connection_def)
    next
      case (Some b)
      with False show ?thesis
        by (cases "ready_connections p")
          (simp_all add: Op_get alone_step get_connection_def get_idle_connection_def alone_Get_open
            Let_def)
    qed
  qed
next
  case (Op_ready c)
  then show ?thesis
    by (cases "queue p"; cases "closed p")
      (simp_all add: alone_step connection_ready_def next_event_def add_idle_connection_def
       )
next
  case (Op_terminated c)
  then show ?thesis
    by (cases "connections (erase_connection (Some c) p) = []"; cases "closed (erase_connection (Some c) p)")
      (simp_all add: alone_step connection_terminated_def Let_def)
next
  case (Op_error c ec)
  then show ?thesis by (simp add: alone_step pool_connection_error_def clear_queue_def)
next
  case (Op_close cb)
  then show ?thesis
    by (cases "closed p"; cases "queue p = []")
      (simp_all add: alone_step pool_close_def Let_def)
qed

section \<open>Threads together\<close>

text \<open>
  The shared pool, the owner of \<^verbatim>\<open>event_mutex_\<close> between steps (only \<^verbatim>\<open>close\<close> keeps it), and the points of
  the threads. The mutex is recursive: its owner may take it again.
\<close>

record shared_pool =
  the_pool :: pool
  owner :: "thread_id option"
  points :: "thread_id \<Rightarrow> point option"

fun takes_event_mutex :: "point \<Rightarrow> bool" where
  "takes_event_mutex (Enqueue _) = True"
| "takes_event_mutex (Next _) = True"
| "takes_event_mutex (Failed_clear _) = True"
| "takes_event_mutex Shut_queue = True"
| "takes_event_mutex _ = False"

definition may_step :: "thread_id \<Rightarrow> point \<Rightarrow> shared_pool \<Rightarrow> bool" where
  "may_step t pt s \<longleftrightarrow> (takes_event_mutex pt \<longrightarrow> owner s = None \<or> owner s = Some t)"

definition owner_after :: "thread_id \<Rightarrow> point \<Rightarrow> point option \<Rightarrow> thread_id option \<Rightarrow> thread_id option" where
  "owner_after t pt next own =
     (if next = None then (if own = Some t then None else own)
      else if pt = Shut_queue then Some t else own)"

definition after_step :: "thread_id \<Rightarrow> point \<Rightarrow> pool \<Rightarrow> point option \<Rightarrow> shared_pool \<Rightarrow> shared_pool" where
  "after_step t pt p next s =
     \<lparr>the_pool = p, owner = owner_after t pt next (owner s), points = (points s)(t := next)\<rparr>"

text \<open>
  The book of a run: requests accepted, handed to connections and failed; connections that were offered
  by \<^verbatim>\<open>connection_ready\<close>, and those let go because the pool was closed.
\<close>

record pool_book =
  b_accepted :: "execute_event multiset"
  b_handed :: "(conn_id \<times> execute_event) multiset"
  b_failed :: "execute_event multiset"
  b_offered :: "conn_id multiset"
  b_let_go :: "conn_id multiset"

fun enters :: "point \<Rightarrow> point option \<Rightarrow> execute_event multiset" where
  "enters (Get_start _ _ _ _) (Some (Get_closed _ evt)) = {#evt#}"
| "enters _ _ = {#}"

fun hands :: "point \<Rightarrow> (conn_id \<times> execute_event) multiset" where
  "hands (Hand c evt) = {#(c, evt)#}"
| "hands _ = {#}"

fun fails :: "point \<Rightarrow> pool \<Rightarrow> execute_event multiset" where
  "fails (Failed_clear _) p = mset (queue p)"
| "fails _ p = {#}"

fun lets_go :: "point \<Rightarrow> pool \<Rightarrow> conn_id multiset" where
  "lets_go (Ready_closed c) p = (if closed p then {#c#} else {#})"
| "lets_go (Idle_closed c) p = (if closed p then {#c#} else {#})"
| "lets_go _ p = {#}"

definition enter_pool_book :: "point \<Rightarrow> point option \<Rightarrow> pool \<Rightarrow> pool_book \<Rightarrow> pool_book" where
  "enter_pool_book pt next p b =
     \<lparr>b_accepted = b_accepted b + enters pt next, b_handed = b_handed b + hands pt,
      b_failed = b_failed b + fails pt p, b_offered = b_offered b, b_let_go = b_let_go b + lets_go pt p\<rparr>"

fun offers :: "pool_op \<Rightarrow> conn_id multiset" where
  "offers (Op_ready c) = {#c#}"
| "offers _ = {#}"

definition empty_pool_book :: pool_book where
  "empty_pool_book = \<lparr>b_accepted = {#}, b_handed = {#}, b_failed = {#}, b_offered = {#}, b_let_go = {#}\<rparr>"

text \<open>\<open>threads_run N p0 s b\<close>: \<open>N\<close> threads started from the pool \<open>p0\<close> have come to \<open>s\<close>.\<close>

inductive threads_run :: "nat \<Rightarrow> pool \<Rightarrow> shared_pool \<Rightarrow> pool_book \<Rightarrow> bool" for N p0 where
  nobody: "threads_run N p0 \<lparr>the_pool = p0, owner = None, points = (\<lambda>_. None)\<rparr> empty_pool_book"
| begins: "threads_run N p0 s b \<Longrightarrow> t < N \<Longrightarrow> points s t = None \<Longrightarrow>
     threads_run N p0 (s\<lparr>points := (points s)(t := Some (start_point op))\<rparr>) (b\<lparr>b_offered := b_offered b + offers op\<rparr>)"
| moves: "threads_run N p0 s b \<Longrightarrow> t < N \<Longrightarrow> points s t = Some pt \<Longrightarrow> may_step t pt s \<Longrightarrow>
     point_step pt (the_pool s) = Inr (p, out, next) \<Longrightarrow>
     threads_run N p0 (after_step t pt p next s) (enter_pool_book pt next (the_pool s) b)"
| throws: "threads_run N p0 s b \<Longrightarrow> t < N \<Longrightarrow> points s t = Some pt \<Longrightarrow> may_step t pt s \<Longrightarrow>
     point_step pt (the_pool s) = Inl f \<Longrightarrow>
     threads_run N p0 (after_step t pt (the_pool s) None s) b"

section \<open>What holds of every interleaving\<close>

text \<open>What a thread holds: a request, and a connection that it was offered or took from the idle ones.\<close>

fun request_of :: "point \<Rightarrow> execute_event multiset" where
  "request_of (Get_closed _ evt) = {#evt#}"
| "request_of (Get_pop _ evt) = {#evt#}"
| "request_of (Get_open _ evt) = {#evt#}"
| "request_of (Get_size _ evt) = {#evt#}"
| "request_of (New_closed _ evt) = {#evt#}"
| "request_of (New_make _ evt) = {#evt#}"
| "request_of (New_push _ evt) = {#evt#}"
| "request_of (Enqueue evt) = {#evt#}"
| "request_of (Hand _ evt) = {#evt#}"
| "request_of _ = {#}"

fun conn_of :: "point \<Rightarrow> conn_id multiset" where
  "conn_of (Hand c _) = {#c#}"
| "conn_of (Next c) = {#c#}"
| "conn_of (Ready_closed c) = {#c#}"
| "conn_of (Idle_closed c) = {#c#}"
| "conn_of (Idle_push c) = {#c#}"
| "conn_of _ = {#}"

definition growing :: "point \<Rightarrow> nat" where
  "growing pt = (case pt of New_closed _ _ \<Rightarrow> 1 | New_make _ _ \<Rightarrow> 1 | New_push _ _ \<Rightarrow> 1 | _ \<Rightarrow> 0)"

text \<open>One step keeps the books.\<close>

lemma point_step_books:
  assumes "point_step pt p = Inr (p', out, next)"
  shows "enters pt next + request_of pt + mset (queue p) =
      image_mset snd (hands pt) + fails pt p + (case next of None \<Rightarrow> {#} | Some pt' \<Rightarrow> request_of pt') + mset (queue p')"
    and "conn_of pt + mset (ready_connections p) =
      image_mset fst (hands pt) + lets_go pt p + (case next of None \<Rightarrow> {#} | Some pt' \<Rightarrow> conn_of pt') +
        mset (ready_connections p')"
  using assms
  by (induction pt p rule: point_step.induct)
    (auto simp: next_event_def enqueue_event_def erase_connection_def clear_queue_def
      split: option.splits if_splits list.splits sum.splits prod.splits)

lemma point_step_throws:
  assumes "point_step pt p = Inl f" and "usable (co p)"
  shows "request_of pt = {#} \<and> conn_of pt = {#} \<and> growing pt = 0"
  using assms
  by (induction pt p rule: point_step.induct)
    (auto simp: connection_create_cases usable_def growing_def
      split: option.splits if_splits list.splits sum.splits prod.splits)

text \<open>The connections grow only between the unlocked read of their number and \<^verbatim>\<open>push_back\<close>.\<close>

lemma point_step_growth:
  assumes "point_step pt p = Inr (p', out, next)"
  shows "co p' = co p \<and> pool_size p' = pool_size p"
    and "length (connections p') + (case next of None \<Rightarrow> 0 | Some pt' \<Rightarrow> growing pt') \<le>
        length (connections p) + growing pt \<or>
      length (connections p) < pool_size p \<and> connections p' = connections p \<and> growing pt = 0 \<and>
        (case next of None \<Rightarrow> 0 | Some pt' \<Rightarrow> growing pt') \<le> 1"
  using assms
  by (induction pt p rule: point_step.induct)
    (auto simp: next_event_def enqueue_event_def erase_connection_def clear_queue_def growing_def
      length_remove1 split: option.splits if_splits list.splits sum.splits prod.splits)

lemma growing_le: "growing pt \<le> 1"
  by (cases pt) (simp_all add: growing_def)

lemma growing_start [simp]: "growing (start_point op) = 0" "request_of (start_point op) = {#}"
  "conn_of (start_point op) = offers op"
  by (cases op; simp add: growing_def)+

lemma all_growing_le:
  assumes "t < N"
  shows "all_threads N growing (pts(t := None)) \<le> N - 1"
proof -
  have "all_threads N growing (pts(t := None)) = (\<Sum>u\<in>{..<N} - {t}. case (pts(t := None)) u of None \<Rightarrow> 0 | Some pt \<Rightarrow> growing pt)"
    unfolding all_threads_def using assms by (subst sum.remove[of _ t]) auto
  also have "\<dots> \<le> of_nat (card ({..<N} - {t})) * 1"
    by (rule sum_bounded_above) (use growing_le in \<open>auto split: option.split\<close>)
  finally show ?thesis using assms by simp
qed

definition threads_inv :: "nat \<Rightarrow> pool \<Rightarrow> shared_pool \<Rightarrow> pool_book \<Rightarrow> bool" where
  "threads_inv N p0 s b \<longleftrightarrow>
     co (the_pool s) = co p0 \<and> pool_size (the_pool s) = pool_size p0 \<and>
     b_accepted b + mset (queue p0) =
       image_mset snd (b_handed b) + b_failed b + all_threads N request_of (points s) + mset (queue (the_pool s)) \<and>
     b_offered b + mset (ready_connections p0) =
       image_mset fst (b_handed b) + b_let_go b + all_threads N conn_of (points s) +
         mset (ready_connections (the_pool s)) \<and>
     length (connections (the_pool s)) + all_threads N growing (points s) < pool_size p0 + N"

lemma threads_run_inv:
  assumes "threads_run N p0 s b" and "usable (co p0)" "length (connections p0) < pool_size p0 + N"
  shows "threads_inv N p0 s b"
  using assms
proof (induction rule: threads_run.induct)
  case nobody
  then show ?case by (simp add: threads_inv_def empty_pool_book_def)
next
  case (begins s b t op)
  note u = all_threads_update[OF begins(2), of _ "points s" "Some (start_point op)"]
    all_threads_split[OF begins(2), of _ "points s"]
  from begins show ?case by (simp add: threads_inv_def u ac_simps)
next
  case (moves s b t pt p out "next")
  note u = all_threads_update[OF moves(2), of _ "points s" "next"]
    all_threads_split[OF moves(2), of _ "points s"]
  note g = point_step_growth[OF moves(5)] all_growing_le[OF moves(2), of "points s"]
  note k = point_step_books[OF moves(5)]
  from moves have inv: "threads_inv N p0 s b" by simp
  let ?R = "all_threads N request_of ((points s)(t := None))" and ?C = "all_threads N conn_of ((points s)(t := None))"
  let ?r = "case next of None \<Rightarrow> {#} | Some pt' \<Rightarrow> request_of pt'"
    and ?c = "case next of None \<Rightarrow> {#} | Some pt' \<Rightarrow> conn_of pt'"
  have "b_accepted b + enters pt next + mset (queue p0) =
      image_mset snd (b_handed b + hands pt) + (b_failed b + fails pt (the_pool s)) +
        all_threads N request_of ((points s)(t := next)) + mset (queue p)"
  proof -
    have "b_accepted b + enters pt next + mset (queue p0) = enters pt next + (b_accepted b + mset (queue p0))"
      by (simp only: ac_simps)
    also have "\<dots> = enters pt next + (image_mset snd (b_handed b) + b_failed b + (request_of pt + ?R) +
        mset (queue (the_pool s)))"
      using inv moves(3) by (simp add: threads_inv_def u(2))
    also have "\<dots> = (enters pt next + request_of pt + mset (queue (the_pool s))) +
        (image_mset snd (b_handed b) + b_failed b + ?R)" by (simp only: ac_simps)
    also have "\<dots> = image_mset snd (b_handed b + hands pt) + (b_failed b + fails pt (the_pool s)) + (?r + ?R) +
        mset (queue p)" unfolding k(1) by (simp add: ac_simps)
    finally show ?thesis unfolding u(1) .
  qed
  moreover have "b_offered b + mset (ready_connections p0) =
      image_mset fst (b_handed b + hands pt) + (b_let_go b + lets_go pt (the_pool s)) +
        all_threads N conn_of ((points s)(t := next)) + mset (ready_connections p)"
  proof -
    have "b_offered b + mset (ready_connections p0) = image_mset fst (b_handed b) + b_let_go b + (conn_of pt + ?C) +
        mset (ready_connections (the_pool s))"
      using inv moves(3) by (simp add: threads_inv_def u(2))
    also have "\<dots> = (conn_of pt + mset (ready_connections (the_pool s))) +
        (image_mset fst (b_handed b) + b_let_go b + ?C)" by (simp only: ac_simps)
    also have "\<dots> = image_mset fst (b_handed b + hands pt) + (b_let_go b + lets_go pt (the_pool s)) + (?c + ?C) +
        mset (ready_connections p)" unfolding k(2) by (simp add: ac_simps)
    finally show ?thesis unfolding u(1) .
  qed
  moreover have "length (connections p) + all_threads N growing ((points s)(t := next)) < pool_size p0 + N"
    using inv g moves(2,3) unfolding u(1) threads_inv_def by (auto simp: u(2))
  moreover have "co p = co p0 \<and> pool_size p = pool_size p0" using inv g(1) by (simp add: threads_inv_def)
  ultimately show ?case
    unfolding threads_inv_def after_step_def enter_pool_book_def shared_pool.simps pool_book.simps by blast
next
  case (throws s b t pt f)
  note u = all_threads_split[OF throws(2), of _ "points s"]
  from throws have inv: "threads_inv N p0 s b" by simp
  with throws have "request_of pt = {#} \<and> conn_of pt = {#} \<and> growing pt = 0"
    by (intro point_step_throws[OF throws(5)]) (simp add: threads_inv_def)
  with inv throws(3) show ?case by (simp add: threads_inv_def after_step_def u)
qed

text \<open>
  No thread waits forever: the only lock that is kept between steps is kept by a thread that is on its way,
  and every step brings its thread nearer to the end of its operation.
\<close>

lemma owner_active: "threads_run N p0 s b \<Longrightarrow> owner s = Some t \<Longrightarrow> t < N \<and> points s t \<noteq> None"
  by (induction arbitrary: t rule: threads_run.induct)
    (auto simp: after_step_def owner_after_def split: if_splits)

definition work_left :: "nat \<Rightarrow> shared_pool \<Rightarrow> nat" where
  "work_left N s = all_threads N steps_left (points s)"

lemma after_step_work:
  assumes "t < N" "points s t = Some pt" and "point_step pt (the_pool s) = Inr (p, out, next)"
  shows "work_left N (after_step t pt p next s) < work_left N s"
proof -
  have "0 < steps_left pt" by (cases pt) simp_all
  then have "(case next of None \<Rightarrow> 0 | Some pt' \<Rightarrow> steps_left pt') < steps_left pt"
    using point_step_nearer[of pt "the_pool s" p out] assms(3) by (cases "next") auto
  then show ?thesis
    using all_threads_update[OF assms(1), of steps_left "points s" "next"]
      all_threads_split[OF assms(1), of steps_left "points s"] assms(2)
    by (simp add: work_left_def after_step_def)
qed

lemma after_throw_work:
  assumes "t < N" "points s t = Some pt"
  shows "work_left N (after_step t pt p None s) < work_left N s"
proof -
  have "0 < steps_left pt" by (cases pt) simp_all
  then show ?thesis
    using all_threads_split[OF assms(1), of steps_left "points s"] assms(2)
    by (simp add: work_left_def after_step_def)
qed

lemma somebody_moves:
  assumes "threads_run N p0 s b" and "t < N" "points s t \<noteq> None"
  shows "\<exists>u pt. u < N \<and> points s u = Some pt \<and> may_step u pt s"
proof (cases "owner s")
  case None
  with assms show ?thesis by (auto simp: may_step_def)
next
  case (Some u)
  with owner_active[OF assms(1) Some] show ?thesis by (auto simp: may_step_def)
qed

section \<open>Schedules\<close>

text \<open>A thread begins an operation, or makes one step.\<close>

datatype turn =
  Begin thread_id pool_op
| Turn thread_id

fun take_turn :: "nat \<Rightarrow> turn \<Rightarrow> shared_pool \<times> pool_book \<Rightarrow> (shared_pool \<times> pool_book) option" where
  "take_turn N (Begin t op) (s, b) =
     (if t < N \<and> points s t = None
      then Some (s\<lparr>points := (points s)(t := Some (start_point op))\<rparr>, b\<lparr>b_offered := b_offered b + offers op\<rparr>)
      else None)"
| "take_turn N (Turn t) (s, b) =
     (case points s t of
        None \<Rightarrow> None
      | Some pt \<Rightarrow>
          if t < N \<and> may_step t pt s
          then (case point_step pt (the_pool s) of
                  Inl f \<Rightarrow> Some (after_step t pt (the_pool s) None s, b)
                | Inr (p, out, next) \<Rightarrow> Some (after_step t pt p next s, enter_pool_book pt next (the_pool s) b))
          else None)"

fun take_turns :: "nat \<Rightarrow> turn list \<Rightarrow> shared_pool \<times> pool_book \<Rightarrow> (shared_pool \<times> pool_book) option" where
  "take_turns N [] sb = Some sb"
| "take_turns N (x # xs) sb = Option.bind (take_turn N x sb) (take_turns N xs)"

lemma take_turn_run:
  "take_turn N x (s, b) = Some (s', b') \<Longrightarrow> threads_run N p0 s b \<Longrightarrow> threads_run N p0 s' b'"
  by (cases x)
    (auto split: option.splits if_splits sum.splits prod.splits intro: threads_run.begins threads_run.moves threads_run.throws)

lemma take_turns_run:
  "take_turns N xs (s, b) = Some (s', b') \<Longrightarrow> threads_run N p0 s b \<Longrightarrow> threads_run N p0 s' b'"
proof (induction xs arbitrary: s b)
  case (Cons x xs)
  then obtain s1 b1 where "take_turn N x (s, b) = Some (s1, b1)" "take_turns N xs (s1, b1) = Some (s', b')"
    by (auto simp: bind_eq_Some_conv)
  with Cons take_turn_run show ?case by blast
qed simp

definition quiet_pool :: "pool \<Rightarrow> shared_pool" where
  "quiet_pool p = \<lparr>the_pool = p, owner = None, points = (\<lambda>_. None)\<rparr>"

lemma turns_from_quiet:
  "take_turns N xs (quiet_pool p, empty_pool_book) = Some (s, b) \<Longrightarrow> threads_run N p s b"
  using take_turns_run[of N xs "quiet_pool p" empty_pool_book s b p] threads_run.nobody[of N p]
  by (simp add: quiet_pool_def)

section \<open>What interleaving breaks\<close>

lemmas turn_defs = may_step_def after_step_def owner_after_def enter_pool_book_def quiet_pool_def
  serialize_wrapper_exact empty_pool_book_def

text \<open>
  A connection reports that it is ready while another thread asks for one: the first finds no request,
  the second finds no idle connection, and then the connection is listed and the request queued.
\<close>

definition lost_wakeup_turns :: "pool_op \<Rightarrow> pool_op \<Rightarrow> turn list" where
  "lost_wakeup_turns ready get =
     [Begin 0 ready, Turn 0, Turn 0, Turn 0, Begin 1 get, Turn 1, Turn 1, Turn 1, Turn 1, Turn 1, Turn 1, Turn 0]"

definition event_of :: "command_wrapper_t \<Rightarrow> callback option \<Rightarrow> callback option \<Rightarrow> execute_event" where
  "event_of cmd rcb ecb =
     \<lparr>buff = concat (map wire_command (command_lists cmd)), result_cb = rcb, error_cb = ecb\<rparr>"

lemma lost_wakeup_race:
  assumes "\<not> closed p" "queue p = []" "ready_connections p = []" "pool_size p \<le> length (connections p)"
    and "[] \<notin> set (command_lists cmd)"
  shows "take_turns 2 (lost_wakeup_turns (Op_ready c) (Op_get new cmd rcb ecb)) (quiet_pool p, empty_pool_book) =
    Some (quiet_pool (p\<lparr>ready_connections := [c], queue := [event_of cmd rcb ecb]\<rparr>),
      \<lparr>b_accepted = {#event_of cmd rcb ecb#}, b_handed = {#}, b_failed = {#}, b_offered = {#c#}, b_let_go = {#}\<rparr>)"
  using assms
  by (simp add: lost_wakeup_turns_def turn_defs next_event_def enqueue_event_def event_of_def)

text \<open>
  A request that was let in before the pool was closed is queued after its last connection has ended.
\<close>

definition stranded_turns :: "pool_op \<Rightarrow> pool_op \<Rightarrow> pool_op \<Rightarrow> turn list" where
  "stranded_turns get close gone =
     Begin 0 get # [Turn 0, Turn 0, Turn 0, Turn 0, Turn 0] @
     Begin 1 close # [Turn 1, Turn 1, Turn 1, Turn 1, Turn 1, Turn 1] @
     Begin 1 gone # [Turn 1, Turn 1, Turn 1, Turn 1, Turn 0]"

lemma stranded_race:
  assumes "\<not> closed p" "queue p = []" "ready_connections p = []" "connections p = [c]" "pool_size p = 1"
    and "[] \<notin> set (command_lists cmd)"
  shows "take_turns 2 (stranded_turns (Op_get new cmd rcb ecb) (Op_close cb) (Op_terminated c))
      (quiet_pool p, empty_pool_book) =
    Some (quiet_pool (p\<lparr>closed := True, closed_callback := cb, connections := [], queue := [event_of cmd rcb ecb]\<rparr>),
      \<lparr>b_accepted = {#event_of cmd rcb ecb#}, b_handed = {#}, b_failed = {#}, b_offered = {#}, b_let_go = {#}\<rparr>)"
  using assms
  by (simp add: stranded_turns_def turn_defs erase_connection_def enqueue_event_def event_of_def)

text \<open>
  \<open>N\<close> threads that read the number of connections before any of them adds one: all add one.
\<close>

abbreviation reached :: "nat \<Rightarrow> pool \<Rightarrow> shared_pool \<Rightarrow> bool" where
  "reached N p0 s \<equiv> \<exists>b. threads_run N p0 s b"

lemma reached_silent:
  assumes "reached N p0 s" and "t < N" "points s t = Some pt" "\<not> takes_event_mutex pt"
    and "point_step pt (the_pool s) = Inr (p, out, Some pt')"
  shows "reached N p0 \<lparr>the_pool = p, owner = owner s, points = (points s)(t := Some pt')\<rparr>"
proof -
  from assms(4) have "may_step t pt s" "pt \<noteq> Shut_queue" by (auto simp: may_step_def)
  with assms threads_run.moves[of N p0 s _ t pt p out "Some pt'"] show ?thesis
    by (auto simp: after_step_def owner_after_def)
qed

lemma reached_begins:
  "reached N p0 s \<Longrightarrow> t < N \<Longrightarrow> points s t = None \<Longrightarrow>
     reached N p0 \<lparr>the_pool = the_pool s, owner = owner s, points = (points s)(t := Some (start_point op))\<rparr>"
  using threads_run.begins[of N p0 s _ t op] by (cases s) auto

lemma reached_push:
  assumes "reached N p0 \<lparr>the_pool = p, owner = own, points = pts\<rparr>" and "t < N" "pts t = None"
    and p: "\<not> closed p" "ready_connections p = []" "length (connections p) < pool_size p" "usable (co p)"
    and cmd: "[] \<notin> set (command_lists cmd)"
  shows "reached N p0 \<lparr>the_pool = p, owner = own, points = pts(t := Some (New_push new (event_of cmd rcb ecb)))\<rparr>"
proof -
  let ?at = "\<lambda>pt. \<lparr>the_pool = p, owner = own, points = pts(t := Some pt)\<rparr>" and ?e = "event_of cmd rcb ecb"
  have go: "reached N p0 (?at pt')"
    if "reached N p0 (?at pt)" "\<not> takes_event_mutex pt" "point_step pt p = Inr (p, out, Some pt')" for pt pt' out
    using reached_silent[OF that(1) assms(2), of pt p out pt'] that(2,3) by simp
  have "reached N p0 (?at (Get_start new cmd rcb ecb))"
    using reached_begins[OF assms(1,2), of "Op_get new cmd rcb ecb"] assms(3) by simp
  then have "reached N p0 (?at (Get_closed new ?e))"
    by (rule go) (use p cmd in \<open>simp_all add: serialize_wrapper_exact event_of_def\<close>)
  then have "reached N p0 (?at (Get_pop new ?e))" by (rule go) (use p in simp_all)
  then have "reached N p0 (?at (Get_open new ?e))" by (rule go) (use p in simp_all)
  then have "reached N p0 (?at (Get_size new ?e))" by (rule go) (use p in simp_all)
  then have "reached N p0 (?at (New_closed new ?e))" by (rule go) (use p in simp_all)
  then have "reached N p0 (?at (New_make new ?e))" by (rule go) (use p in simp_all)
  then show ?thesis by (rule go) (use p in \<open>simp_all add: connection_create_cases usable_def\<close>)
qed

lemma all_reach_push:
  assumes p: "\<not> closed p" "ready_connections p = []" "length (connections p) < pool_size p" "usable (co p)"
    and cmd: "[] \<notin> set (command_lists cmd)" and "k \<le> N"
  shows "reached N p \<lparr>the_pool = p, owner = None,
    points = (\<lambda>t. if t < k then Some (New_push (f t) (event_of cmd rcb ecb)) else None)\<rparr>"
  using assms(6)
proof (induction k)
  case 0
  show ?case using threads_run.nobody[of N p] by auto
next
  case (Suc k)
  let ?pts = "\<lambda>k t. if t < k then Some (New_push (f t) (event_of cmd rcb ecb)) else None"
  have "(?pts k)(k := Some (New_push (f k) (event_of cmd rcb ecb))) = ?pts (Suc k)"
    by (auto simp: fun_eq_iff less_Suc_eq)
  with reached_push[OF Suc.IH _ _ p cmd, of k "f k" rcb ecb] Suc.prems show ?case by simp
qed

lemma overshoot_race:
  assumes p: "\<not> closed p" "ready_connections p = []" "length (connections p) < pool_size p" "usable (co p)"
    and cmd: "[] \<notin> set (command_lists cmd)" and "k \<le> N"
  shows "reached N p \<lparr>the_pool = p\<lparr>connections := connections p @ map f [0..<k]\<rparr>, owner = None,
    points = (\<lambda>t. if t < k then Some (Enqueue (event_of cmd rcb ecb))
      else if t < N then Some (New_push (f t) (event_of cmd rcb ecb)) else None)\<rparr>"
  using assms(6)
proof (induction k)
  case 0
  show ?case using all_reach_push[OF p cmd order_refl, of N f rcb ecb] by simp
next
  case (Suc k)
  let ?e = "event_of cmd rcb ecb"
  let ?pts = "\<lambda>k t. if t < k then Some (Enqueue ?e) else if t < N then Some (New_push (f t) ?e) else None"
  have "(?pts k)(k := Some (Enqueue ?e)) = ?pts (Suc k)" by (auto simp: fun_eq_iff less_Suc_eq)
  with reached_silent[OF Suc.IH, of k "New_push (f k) ?e"] Suc.prems show ?case by simp
qed

text \<open>As whole operations the two give the connection the request, in either order.\<close>

lemma serial_orders:
  assumes "\<not> closed p" "queue p = []" "ready_connections p = []" "pool_size p \<le> length (connections p)"
    and "[] \<notin> set (command_lists cmd)"
  shows "\<exists>p1. pool_step (Op_ready c) p = Inr (p1, []) \<and>
      pool_step (Op_get new cmd rcb ecb) p1 = Inr (p, [P_execute c (event_of cmd rcb ecb)])"
    and "\<exists>p2. pool_step (Op_get new cmd rcb ecb) p = Inr (p2, []) \<and>
      pool_step (Op_ready c) p2 = Inr (p, [P_execute c (event_of cmd rcb ecb)])"
proof -
  have p: "p\<lparr>ready_connections := []\<rparr> = p" "p\<lparr>queue := []\<rparr> = p" using assms(2,3) by (cases p; simp)+
  have "pool_step (Op_ready c) p = Inr (p\<lparr>ready_connections := [c]\<rparr>, [])"
    using assms(1-3) by (simp add: connection_ready_def next_event_def add_idle_connection_def)
  moreover have "pool_step (Op_get new cmd rcb ecb) (p\<lparr>ready_connections := [c]\<rparr>) =
      Inr (p, [P_execute c (event_of cmd rcb ecb)])"
    using assms p(1)
    by (simp add: get_connection_def get_idle_connection_def serialize_wrapper_exact event_of_def Let_def)
  ultimately show "\<exists>p1. pool_step (Op_ready c) p = Inr (p1, []) \<and>
      pool_step (Op_get new cmd rcb ecb) p1 = Inr (p, [P_execute c (event_of cmd rcb ecb)])" by blast
  have "pool_step (Op_get new cmd rcb ecb) p = Inr (p\<lparr>queue := [event_of cmd rcb ecb]\<rparr>, [])"
    using assms
    by (simp add: get_connection_def get_idle_connection_def serialize_wrapper_exact event_of_def
        enqueue_event_def Let_def)
  moreover have "pool_step (Op_ready c) (p\<lparr>queue := [event_of cmd rcb ecb]\<rparr>) =
      Inr (p, [P_execute c (event_of cmd rcb ecb)])"
    using p(2) by (simp add: connection_ready_def next_event_def)
  ultimately show "\<exists>p2. pool_step (Op_get new cmd rcb ecb) p = Inr (p2, []) \<and>
      pool_step (Op_ready c) p2 = Inr (p, [P_execute c (event_of cmd rcb ecb)])" by blast
qed

text \<open>The queue of a closed pool without connections stays as it is, whatever the outside asks.\<close>

lemma stranded_stays:
  assumes "pool_step op p = Inr (p', out)" and "closed p" and "\<And>c. op \<noteq> Op_ready c" "\<And>x ec. op \<noteq> Op_error x ec"
  shows "queue p' = queue p"
  using assms
  by (cases op)
    (auto simp: get_connection_def connection_terminated_def erase_connection_def pool_close_def Let_def
      split: option.splits if_splits)

end
