(* ===== verification/Rd_Service.thy ===== *)
theory Rd_Service
  imports Rd_Pool_Laws "HOL-Library.List_Lexorder" "HOL-Library.Char_ord"
begin

text \<open>
  \<^verbatim>\<open>details/redis_impl.hpp\<close>, \<^verbatim>\<open>redis_impl.cpp\<close>, \<^verbatim>\<open>redis_async.hpp\<close> and \<^verbatim>\<open>redis_async.cpp\<close>: the service, its
  registry of pools by alias, and the static facade. Pools live in a heap, as they do behind their
  shared pointers; the \<^verbatim>\<open>pool_count\<close> of \<^verbatim>\<open>stop\<close> is a \<^verbatim>\<open>size_t\<close> cell that the closed callbacks share. An
  \<^verbatim>\<open>io_service\<close> is a number and the flag that says it was stopped.
\<close>

section \<open>State\<close>

type_synonym pool_id = nat

datatype state_type = Svc_running | Svc_closing | Svc_closed

record redis_impl =
  io_svc :: nat
  default_size :: nat
  registry :: "(rdalias \<times> pool_id) list"      \<comment> \<open>the \<^verbatim>\<open>std::map\<close>, in the order of its keys\<close>
  svc_state :: state_type

record world =
  pools :: "pool_id \<Rightarrow> pool option"
  pool_counts :: "nat \<Rightarrow> size64"               \<comment> \<open>the counter of each service's \<^verbatim>\<open>stop\<close>\<close>
  io_stopped :: "nat \<Rightarrow> bool"
  next_pool :: pool_id
  next_conn :: conn_id
  next_io :: nat

definition initial_world :: world where
  "initial_world =
     \<lparr>pools = (\<lambda>_. None), pool_counts = (\<lambda>_. 0), io_stopped = (\<lambda>_. False),
      next_pool = 0, next_conn = 0, next_io = 0\<rparr>"

type_synonym out_call = "pool_id \<times> pool_call"

fun map_insert :: "rdalias \<Rightarrow> 'a \<Rightarrow> (rdalias \<times> 'a) list \<Rightarrow> (rdalias \<times> 'a) list" where
  \<comment> \<open>\<^verbatim>\<open>std::map::insert\<close>: an existing key keeps its value\<close>
  "map_insert k v [] = [(k, v)]"
| "map_insert k v ((k', v') # m) =
     (if k < k' then (k, v) # (k', v') # m
      else if k = k' then (k', v') # m
      else (k', v') # map_insert k v m)"

section \<open>Operations of redis_impl\<close>

definition redis_impl_new :: "nat \<Rightarrow> world \<Rightarrow> redis_impl \<times> world" where
  "redis_impl_new n w =
     (\<lparr>io_svc = next_io w, default_size = n, registry = [], svc_state = Svc_running\<rparr>,
      w\<lparr>next_io := next_io w + 1\<rparr>)"

definition set_defaults :: "nat \<Rightarrow> redis_impl \<Rightarrow> redis_impl" where
  "set_defaults n i = i\<lparr>default_size := n\<rparr>"

definition add_pool ::
  "connection_options \<Rightarrow> nat option \<Rightarrow> redis_impl \<times> world \<Rightarrow>
     fault + pool_id \<times> (redis_impl \<times> world) \<times> out_call list" where
  "add_pool opts sz s =
     (case s of (i, w) \<Rightarrow>
        case map_of (registry i) (conn_alias opts) of
          Some pid \<Rightarrow> Inr (pid, (i, w), [])
        | None \<Rightarrow>
            let n = (case sz of None \<Rightarrow> default_size i | Some n \<Rightarrow> n) in
            case pool_create n opts (next_conn w) of
              Inl f \<Rightarrow> Inl f
            | Inr (p, out) \<Rightarrow>
                let pid = next_pool w in
                Inr (pid,
                  (i\<lparr>registry := map_insert (conn_alias opts) pid (registry i)\<rparr>,
                   w\<lparr>pools := (pools w)(pid := Some p), next_pool := pid + 1,
                     next_conn := next_conn w + 1\<rparr>),
                  map (Pair pid) out))"

definition add_connection ::
  "connection_options \<Rightarrow> nat option \<Rightarrow> redis_impl \<times> world \<Rightarrow>
     fault + (redis_impl \<times> world) \<times> out_call list" where
  "add_connection opts sz s =
     (if svc_state (fst s) \<noteq> Svc_running then
        Inl (Thrown (connection_error ''Database service is not running''))
      else if uri opts = [] then
        Inl (Thrown (connection_error ''No URI in database connection string''))
      else if conn_alias opts = [] then
        Inl (Thrown (connection_error ''No alias name in database connection string''))
      else case add_pool opts sz s of Inl f \<Rightarrow> Inl f | Inr (_, r) \<Rightarrow> Inr r)"

definition add_connection_string ::
  "boost_str \<Rightarrow> string \<Rightarrow> nat option \<Rightarrow> redis_impl \<times> world \<Rightarrow>
     fault + (redis_impl \<times> world) \<times> out_call list" where
  "add_connection_string bx str sz s =
     (if svc_state (fst s) \<noteq> Svc_running then
        Inl (Thrown (connection_error ''Database service is not running''))
      else case options_parse bx str of
             Inl e \<Rightarrow> Inl (Thrown e)
           | Inr opts \<Rightarrow> add_connection opts sz s)"

definition service_get_connection ::
  "rdalias \<Rightarrow> command_wrapper_t \<Rightarrow> callback option \<Rightarrow> callback option \<Rightarrow> redis_impl \<times> world \<Rightarrow>
     fault + (redis_impl \<times> world) \<times> out_call list" where
  "service_get_connection alias cmd conn_cb err s =
     (case s of (i, w) \<Rightarrow>
        if svc_state i \<noteq> Svc_running then
          Inl (Thrown (connection_error ''Database service is not running''))
        else case Option.bind (map_of (registry i) alias) (\<lambda>pid. map_option (Pair pid) (pools w pid)) of
               None \<Rightarrow>
                 Inl (Thrown (connection_error (''Database alias '' @ [CHR 0x27] @ alias @ [CHR 0x27] @
                   '' is not registered'')))
             | Some (pid, p) \<Rightarrow>
                 (case get_connection (next_conn w) cmd conn_cb err p of
                    Inl f \<Rightarrow> Inl f
                  | Inr (p, out) \<Rightarrow>
                      Inr ((i, w\<lparr>pools := (pools w)(pid := Some p), next_conn := next_conn w + 1\<rparr>),
                           map (Pair pid) out)))"

text \<open>The loop of \<^verbatim>\<open>stop\<close>; \<open>k\<close> is the closed callback that it passes.\<close>

fun close_all :: "callback \<Rightarrow> (rdalias \<times> pool_id) list \<Rightarrow> world \<Rightarrow> world \<times> out_call list" where
  "close_all k [] w = (w, [])"
| "close_all k ((_, pid) # m) w =
     (case pools w pid of
        None \<Rightarrow> close_all k m w
      | Some p \<Rightarrow>
          (case pool_close (Some k) p of
             (p, out) \<Rightarrow>
               case close_all k m (w\<lparr>pools := (pools w)(pid := Some p)\<rparr>) of
                 (w, out') \<Rightarrow> (w, map (Pair pid) out @ out')))"

definition redis_impl_stop :: "redis_impl \<times> world \<Rightarrow> (redis_impl \<times> world) \<times> out_call list" where
  "redis_impl_stop s =
     (case s of (i, w) \<Rightarrow>
        if svc_state i = Svc_running then
          let i = i\<lparr>svc_state := Svc_closing\<rparr>;
              w = w\<lparr>pool_counts := (pool_counts w)(io_svc i := of_nat (length (registry i)))\<rparr>
          in case close_all (io_svc i) (registry i) w of
               (w, out) \<Rightarrow> ((i\<lparr>registry := []\<rparr>, w), out)
        else (s, []))"

text \<open>The lambda that \<^verbatim>\<open>stop\<close> passes to every pool; \<open>k\<close> is the service it captures.\<close>

definition closed_lambda :: "callback \<Rightarrow> world \<Rightarrow> world" where
  "closed_lambda k w =
     (let n = pool_counts w k - 1;
          w = w\<lparr>pool_counts := (pool_counts w)(k := n)\<rparr>
      in if n = 0 then w\<lparr>io_stopped := (io_stopped w)(k := True)\<rparr> else w)"

section \<open>The static facade rd_service\<close>

type_synonym rd_state = "redis_impl option \<times> world"

definition DEFAULT_POOL_SIZE :: nat where
  "DEFAULT_POOL_SIZE = 4"

definition rd_impl :: "nat \<Rightarrow> rd_state \<Rightarrow> redis_impl \<times> world" where
  "rd_impl n r =
     (case r of (Some i, w) \<Rightarrow> (i, w) | (None, w) \<Rightarrow> redis_impl_new n w)"

text \<open>An exception leaves the facade with the implementation that it has made.\<close>

definition via_impl ::
  "(redis_impl \<times> world \<Rightarrow> fault + (redis_impl \<times> world) \<times> out_call list) \<Rightarrow> rd_state \<Rightarrow>
     (fault + out_call list) \<times> rd_state" where
  "via_impl f r =
     (let s = rd_impl DEFAULT_POOL_SIZE r in
      case f s of
        Inl e \<Rightarrow> (Inl e, Some (fst s), snd s)
      | Inr (s, out) \<Rightarrow> (Inr out, Some (fst s), snd s))"

definition rd_add_connection_string ::
  "boost_str \<Rightarrow> string \<Rightarrow> nat option \<Rightarrow> rd_state \<Rightarrow> (fault + out_call list) \<times> rd_state" where
  "rd_add_connection_string bx str sz r = via_impl (add_connection_string bx str sz) r"

definition rd_add_connection ::
  "connection_options \<Rightarrow> nat option \<Rightarrow> rd_state \<Rightarrow> (fault + out_call list) \<times> rd_state" where
  "rd_add_connection opts sz r = via_impl (add_connection opts sz) r"

definition rd_execute ::
  "rdalias \<Rightarrow> single_command_t \<Rightarrow> callback option \<Rightarrow> callback option \<Rightarrow> rd_state \<Rightarrow>
     (fault + out_call list) \<times> rd_state" where
  "rd_execute alias cmd res err r = via_impl (service_get_connection alias (Single cmd) res err) r"

definition rd_io_service :: "rd_state \<Rightarrow> nat \<times> rd_state" where
  "rd_io_service r = (case rd_impl DEFAULT_POOL_SIZE r of (i, w) \<Rightarrow> (io_svc i, Some i, w))"

definition rd_stop :: "rd_state \<Rightarrow> out_call list \<times> rd_state" where
  "rd_stop r =
     (case r of
        (None, w) \<Rightarrow> ([], None, w)
      | (Some i, w) \<Rightarrow> (case redis_impl_stop (i, w) of ((i, w), out) \<Rightarrow> (out, None, w)))"

end
