(* ===== verification/Rd_Service_Laws.thy ===== *)
theory Rd_Service_Laws
  imports Rd_Service
begin

text \<open>
  The laws of the service: the registry behaves as a map with unique aliases, every registered pool
  exists, is open and carries its alias, a request reaches the pool of its alias, stopping closes every
  pool, and what the shared counter of \<^verbatim>\<open>stop\<close> does.
\<close>

section \<open>The registry\<close>

text \<open>What the service relies on of its \<^verbatim>\<open>std::map\<close>.\<close>

locale key_map =
  fixes ins :: "'k \<Rightarrow> 'v \<Rightarrow> 'm \<Rightarrow> 'm" and lkp :: "'m \<Rightarrow> 'k \<Rightarrow> 'v option" and wf :: "'m \<Rightarrow> bool"
  assumes wf_ins: "wf m \<Longrightarrow> wf (ins k v m)"
    and lkp_ins: "wf m \<Longrightarrow>
      lkp (ins k v m) k' = (if k' = k \<and> lkp m k = None then Some v else lkp m k')"
begin

lemma ins_keeps: "wf m \<Longrightarrow> lkp m k = Some v \<Longrightarrow> lkp (ins k' v' m) k = Some v"
  by (auto simp: lkp_ins)

lemma ins_fresh: "wf m \<Longrightarrow> lkp m k = None \<Longrightarrow> lkp (ins k v m) k = Some v"
  by (simp add: lkp_ins)

lemma ins_again: "wf m \<Longrightarrow> lkp (ins k v' (ins k v m)) = lkp (ins k v m)"
  by (rule ext) (auto simp: lkp_ins wf_ins split: if_splits)

end

definition reg_wf :: "(rdalias \<times> 'a) list \<Rightarrow> bool" where
  "reg_wf m = sorted_wrt (<) (map fst m)"

lemma fst_set_map_insert: "fst ` set (map_insert k v m) = insert k (fst ` set m)"
  by (induction k v m rule: map_insert.induct) auto

lemma set_map_insert_sub: "set (map_insert k v m) \<subseteq> insert (k, v) (set m)"
  by (induction k v m rule: map_insert.induct) auto

lemma reg_wf_map_insert: "reg_wf m \<Longrightarrow> reg_wf (map_insert k v m)"
proof (induction k v m rule: map_insert.induct)
  case (2 k v k' v' m)
  have "a \<in> fst ` set (map_insert k v m) \<Longrightarrow> a = k \<or> a \<in> fst ` set m" for a
    by (simp add: fst_set_map_insert)
  with 2 show ?case by (fastforce simp: reg_wf_def)
qed (simp add: reg_wf_def)

lemma map_of_map_insert:
  "reg_wf m \<Longrightarrow>
     map_of (map_insert k v m) k' = (if k' = k \<and> map_of m k = None then Some v else map_of m k')"
proof (induction k v m rule: map_insert.induct)
  case (2 k v k'' v' m)
  have "k < k'' \<Longrightarrow> reg_wf ((k'', v') # m) \<Longrightarrow> map_of m k = None"
    by (auto simp: reg_wf_def map_of_eq_None_iff)
  with 2 show ?case by (auto simp: reg_wf_def)
qed simp

interpretation pool_map: key_map map_insert map_of reg_wf
  by unfold_locales (simp_all add: reg_wf_map_insert map_of_map_insert)

section \<open>Runs of the service\<close>

text \<open>
  What happens to a service: the operations of the facade, the notifications that its pools get from
  their connections, and calls of the closed callback.
\<close>

datatype svc_op =
  S_add_string string "nat option"
| S_add connection_options "nat option"
| S_execute rdalias single_command_t "callback option" "callback option"
| S_io_service
| S_stop
| S_ready pool_id conn_id
| S_terminated pool_id conn_id
| S_error pool_id "conn_id option" rd_error
| S_closed_call callback

definition on_pool ::
  "pool_id \<Rightarrow> (pool \<Rightarrow> pool \<times> pool_call list) \<Rightarrow> rd_state \<Rightarrow> (fault + out_call list) \<times> rd_state" where
  "on_pool pid f r =
     (case r of (i, w) \<Rightarrow>
        case pools w pid of
          None \<Rightarrow> (Inr [], i, w)
        | Some p \<Rightarrow>
            (case f p of (p, out) \<Rightarrow> (Inr (map (Pair pid) out), i, w\<lparr>pools := (pools w)(pid := Some p)\<rparr>)))"

fun svc_step :: "boost_str \<Rightarrow> svc_op \<Rightarrow> rd_state \<Rightarrow> (fault + out_call list) \<times> rd_state" where
  "svc_step bx (S_add_string s n) r = rd_add_connection_string bx s n r"
| "svc_step bx (S_add opts n) r = rd_add_connection opts n r"
| "svc_step bx (S_execute alias cmd res err) r = rd_execute alias cmd res err r"
| "svc_step bx S_io_service r = (Inr [], snd (rd_io_service r))"
| "svc_step bx S_stop r = (case rd_stop r of (out, r) \<Rightarrow> (Inr out, r))"
| "svc_step bx (S_ready pid c) r = on_pool pid (connection_ready c) r"
| "svc_step bx (S_terminated pid c) r = on_pool pid (connection_terminated c) r"
| "svc_step bx (S_error pid c ec) r = on_pool pid (pool_connection_error c ec) r"
| "svc_step bx (S_closed_call k) r = (Inr [], fst r, closed_lambda k (snd r))"

inductive svc_run :: "boost_str \<Rightarrow> rd_state \<Rightarrow> bool" for bx where
  start: "svc_run bx (None, initial_world)"
| step: "svc_run bx r \<Longrightarrow> svc_run bx (snd (svc_step bx op r))"

section \<open>The invariant\<close>

definition pool_ok :: "redis_impl option \<Rightarrow> pool_id \<Rightarrow> pool \<Rightarrow> bool" where
  "pool_ok impl pid p \<longleftrightarrow>
     pool_inv p \<and> usable (co p) \<and> pool_alias p \<noteq> [] \<and> uri (co p) \<noteq> [] \<and>
     (closed p \<or> (\<exists>i. impl = Some i \<and> (pool_alias p, pid) \<in> set (registry i)))"

definition world_inv :: "redis_impl option \<Rightarrow> world \<Rightarrow> bool" where
  "world_inv impl w \<longleftrightarrow> (\<forall>pid p. pools w pid = Some p \<longrightarrow> pid < next_pool w \<and> pool_ok impl pid p)"

definition impl_inv :: "redis_impl \<Rightarrow> world \<Rightarrow> bool" where
  "impl_inv i w \<longleftrightarrow>
     svc_state i = Svc_running \<and> reg_wf (registry i) \<and>
     (\<forall>alias pid. (alias, pid) \<in> set (registry i) \<longrightarrow>
        (\<exists>p. pools w pid = Some p \<and> pool_alias p = alias \<and> \<not> closed p))"

definition rd_inv :: "rd_state \<Rightarrow> bool" where
  "rd_inv r \<longleftrightarrow> world_inv (fst r) (snd r) \<and> (\<forall>i. fst r = Some i \<longrightarrow> impl_inv i (snd r))"

lemma rd_impl_inv: "rd_inv r \<Longrightarrow> rd_impl n r = (i, w) \<Longrightarrow> rd_inv (Some i, w)"
  by (auto simp: rd_inv_def rd_impl_def redis_impl_new_def world_inv_def impl_inv_def pool_ok_def
      reg_wf_def split: prod.splits option.splits)

lemma world_invD: "world_inv impl w \<Longrightarrow> pools w pid = Some p \<Longrightarrow> pid < next_pool w \<and> pool_ok impl pid p"
  by (simp add: world_inv_def)

text \<open>Replacing a pool by one with the same options and the same registration keeps the invariant.\<close>

lemma update_pool_inv:
  assumes "rd_inv (impl, w)" and "pools w pid = Some p"
    and "pool_inv p'" "co p' = co p" "closed p' = closed p"
  shows "rd_inv (impl, w\<lparr>pools := (pools w)(pid := Some p')\<rparr>)"
proof -
  from assms(1) have wi: "world_inv impl w" and ii: "\<And>i. impl = Some i \<Longrightarrow> impl_inv i w"
    by (auto simp: rd_inv_def)
  from world_invD[OF wi assms(2)] assms(3-5) have "pid < next_pool w" "pool_ok impl pid p'"
    by (auto simp: pool_ok_def pool_alias_def)
  with wi have "world_inv impl (w\<lparr>pools := (pools w)(pid := Some p')\<rparr>)"
    by (simp add: world_inv_def)
  moreover have "impl_inv i (w\<lparr>pools := (pools w)(pid := Some p')\<rparr>)" if "impl = Some i" for i
    using ii[OF that] assms(2,4,5) by (fastforce simp: impl_inv_def pool_alias_def)
  ultimately show ?thesis by (simp add: rd_inv_def)
qed

lemma rd_inv_next_conn [simp]:
  "rd_inv (impl, w\<lparr>next_conn := n\<rparr>) \<longleftrightarrow> rd_inv (impl, w)"
  "rd_inv (impl, w\<lparr>pool_counts := f\<rparr>) \<longleftrightarrow> rd_inv (impl, w)"
  "rd_inv (impl, w\<lparr>io_stopped := g\<rparr>) \<longleftrightarrow> rd_inv (impl, w)"
  by (simp_all add: rd_inv_def world_inv_def impl_inv_def)

lemma pool_step_closed:
  "pool_step op p = Inr (p', out) \<Longrightarrow> (\<And>cb. op \<noteq> Op_close cb) \<Longrightarrow> closed p' = closed p"
  by (induction op p rule: pool_step.induct)
    (auto simp: get_connection_def get_idle_connection_def enqueue_event_def Let_def
      create_new_connection_def connection_ready_def next_event_def add_idle_connection_def
      connection_terminated_def pool_connection_error_def erase_connection_def clear_queue_def
      split: option.splits list.splits if_splits sum.splits)

lemma on_pool_inv:
  assumes "rd_inv r" and "\<And>p. pool_step op p = Inr (f p)" and "\<And>cb. op \<noteq> Op_close cb"
  shows "rd_inv (snd (on_pool pid f r))"
proof (cases r)
  case (Pair impl w)
  show ?thesis
  proof (cases "pools w pid")
    case None
    with assms(1) Pair show ?thesis by (simp add: on_pool_def)
  next
    case (Some p)
    obtain p' out where f: "f p = (p', out)" by fastforce
    with assms(2)[of p] have step: "pool_step op p = Inr (p', out)" by simp
    from assms(1) Pair Some have "pool_inv p"
      by (auto simp: rd_inv_def pool_ok_def dest: world_invD)
    with step have "pool_inv p'" by (rule pool_step_inv)
    from update_pool_inv[OF _ Some this] step_co[OF step] pool_step_closed[OF step assms(3)]
      assms(1) Pair Some f
    show ?thesis by (simp add: on_pool_def)
  qed
qed

lemma execute_inv:
  assumes "rd_inv (Some i, w)" and "service_get_connection alias cmd res err (i, w) = Inr ((i', w'), out)"
  shows "rd_inv (Some i', w')"
proof -
  from assms(2) obtain pid p p' calls where
    *: "pools w pid = Some p" "get_connection (next_conn w) cmd res err p = Inr (p', calls)"
      "i' = i" "w' = w\<lparr>pools := (pools w)(pid := Some p'), next_conn := next_conn w + 1\<rparr>"
    by (auto simp: service_get_connection_def bind_eq_Some_conv
        split: if_splits option.splits sum.splits prod.splits)
  from *(2) have step: "pool_step (Op_get (next_conn w) cmd res err) p = Inr (p', calls)" by simp
  from assms(1) *(1) have "pool_inv p" by (auto simp: rd_inv_def pool_ok_def dest: world_invD)
  with step have "pool_inv p'" by (rule pool_step_inv)
  from update_pool_inv[OF assms(1) *(1) this] step_co[OF step] pool_step_closed[OF step]
  have "rd_inv (Some i, w\<lparr>pools := (pools w)(pid := Some p')\<rparr>\<lparr>next_conn := next_conn w + 1\<rparr>)"
    by (simp only: rd_inv_next_conn) simp
  with * show ?thesis by simp
qed

text \<open>Registering: what a successful call of \<^verbatim>\<open>add_connection\<close> has done.\<close>

lemma add_connection_Inr:
  assumes "add_connection opts n (i, w) = Inr ((i', w'), out)"
  obtains (known) pid where "map_of (registry i) (conn_alias opts) = Some pid" "i' = i" "w' = w" "out = []"
    | (fresh) p where "map_of (registry i) (conn_alias opts) = None"
      "uri opts \<noteq> []" "conn_alias opts \<noteq> []"
      "pool_create (case n of None \<Rightarrow> default_size i | Some n \<Rightarrow> n) opts (next_conn w) =
         Inr (p, [P_create (next_conn w)])"
      "i' = i\<lparr>registry := map_insert (conn_alias opts) (next_pool w) (registry i)\<rparr>"
      "w' = w\<lparr>pools := (pools w)(next_pool w := Some p), next_pool := next_pool w + 1,
              next_conn := next_conn w + 1\<rparr>"
      "out = [(next_pool w, P_create (next_conn w))]"
  using assms
  by (auto simp: add_connection_def add_pool_def Let_def pool_create_Inr
      split: if_splits sum.splits option.splits prod.splits)

lemma add_inv:
  assumes "rd_inv (Some i, w)" and "add_connection opts n (i, w) = Inr ((i', w'), out)"
  shows "rd_inv (Some i', w')"
  using assms(2)
proof (cases rule: add_connection_Inr)
  case (fresh p)
  from assms(1) have wi: "world_inv (Some i) w" and ii: "impl_inv i w" by (auto simp: rd_inv_def)
  from fresh(4) have p: "pool_inv p" "usable (co p)" "co p = opts" "\<not> closed p"
    by (auto simp: pool_create_Inr usable_def pool_inv_def)
  have reg: "reg_wf (registry i)" using ii by (simp add: impl_inv_def)
  have old: "pid \<noteq> next_pool w" if "pools w pid = Some q" for pid q
    using world_invD[OF wi that] by simp
  have mem: "(a, pid) \<in> set (registry i') \<longleftrightarrow>
      (a, pid) = (conn_alias opts, next_pool w) \<or> (a, pid) \<in> set (registry i)" for a pid
  proof -
    have k: "\<And>m. reg_wf m \<Longrightarrow> (a, pid) \<in> set m \<longleftrightarrow> map_of m a = Some pid"
      by (metis map_of_SomeD map_of_is_SomeI reg_wf_def strict_sorted_iff)
    show ?thesis
      using fresh(1,5) by (auto simp: k reg reg_wf_map_insert map_of_map_insert)
  qed
  have "world_inv (Some i') w'"
    unfolding world_inv_def
  proof (intro allI impI)
    fix pid q assume q: "pools w' pid = Some q"
    show "pid < next_pool w' \<and> pool_ok (Some i') pid q"
    proof (cases "pid = next_pool w")
      case True
      with q fresh(6) have "q = p" by simp
      with True fresh(2,3,6) p show ?thesis by (auto simp: pool_ok_def pool_alias_def mem)
    next
      case False
      with q fresh(6) have "pools w pid = Some q" by simp
      from world_invD[OF wi this] fresh(6) show ?thesis by (auto simp: pool_ok_def mem)
    qed
  qed
  moreover have "impl_inv i' w'"
    using ii fresh(5,6) reg p old unfolding impl_inv_def mem
    by (fastforce simp: reg_wf_map_insert pool_alias_def)
  ultimately show ?thesis by (simp add: rd_inv_def)
qed (use assms(1) in simp)

lemma via_impl_inv:
  assumes "rd_inv r"
    and "\<And>i w i' w' out. rd_inv (Some i, w) \<Longrightarrow> f (i, w) = Inr ((i', w'), out) \<Longrightarrow> rd_inv (Some i', w')"
  shows "rd_inv (snd (via_impl f r))"
proof -
  obtain i w where s: "rd_impl DEFAULT_POOL_SIZE r = (i, w)" by fastforce
  from rd_impl_inv[OF assms(1) s] have "rd_inv (Some i, w)" .
  with s assms(2)[of i w] show ?thesis
    by (auto simp: via_impl_def Let_def split: sum.splits)
qed

text \<open>Stopping: the loop closes exactly the pools it visits.\<close>

lemma close_all_pools:
  "close_all k m w = (w', out) \<Longrightarrow>
     pools w' pid =
       (if pid \<in> snd ` set m then map_option (\<lambda>p. fst (pool_close (Some k) p)) (pools w pid) else pools w pid) \<and>
     next_pool w' = next_pool w"
proof (induction k m w arbitrary: w' out rule: close_all.induct)
  case (2 k a pid' m w)
  show ?case
  proof (cases "pools w pid'")
    case None
    with 2(1)[OF None] 2(3) show ?thesis by auto
  next
    case (Some p)
    obtain p1 out1 where c: "pool_close (Some k) p = (p1, out1)" by fastforce
    obtain w2 out2 where
      r: "close_all k m (w\<lparr>pools := (pools w)(pid' := Some p1)\<rparr>) = (w2, out2)" by fastforce
    have again: "fst (pool_close (Some k) p1) = p1"
      using c by (auto simp: pool_close_def Let_def split: if_splits)
    from 2(2)[OF Some c[symmetric] r] show ?thesis
      using 2(3) Some c r again by auto
  qed
qed simp

lemma pool_close_state:
  "fst (pool_close cb p) = (if closed p then p else p\<lparr>closed := True, closed_callback := cb\<rparr>)"
  by (simp add: pool_close_def Let_def)

lemma stop_inv:
  assumes "rd_inv r" and "rd_stop r = (out, r')"
  shows "rd_inv r' \<and> fst r' = None"
proof (cases "fst r")
  case None
  with assms show ?thesis by (cases r) (auto simp: rd_stop_def)
next
  case (Some i)
  then obtain w where r: "r = (Some i, w)" by (cases r) simp
  let ?w = "w\<lparr>pool_counts := (pool_counts w)(io_svc i := of_nat (length (registry i)))\<rparr>"
  from assms(1) r have wi: "world_inv (Some i) w" and ii: "impl_inv i w" by (auto simp: rd_inv_def)
  obtain w' out' where c: "close_all (io_svc i) (registry i) ?w = (w', out')" by fastforce
  from assms(2) r ii c have r': "r' = (None, w')"
    by (auto simp: rd_stop_def redis_impl_stop_def impl_inv_def)
  have "pid < next_pool w' \<and> pool_ok None pid p" if "pools w' pid = Some p" for pid p
  proof (cases "pid \<in> snd ` set (registry i)")
    case True
    with close_all_pools[OF c, of pid] that obtain p0 where
      p0: "pools w pid = Some p0" "p = fst (pool_close (Some (io_svc i)) p0)" by (cases "pools w pid") auto
    from world_invD[OF wi p0(1)] p0(2) close_all_pools[OF c, of pid] show ?thesis
      by (auto simp: pool_ok_def pool_close_state pool_inv_def pool_alias_def)
  next
    case False
    with close_all_pools[OF c, of pid] that have p0: "pools w pid = Some p" by simp
    from world_invD[OF wi p0] False close_all_pools[OF c, of pid] show ?thesis
      by (force simp: pool_ok_def)
  qed
  then show ?thesis using r' by (simp add: rd_inv_def world_inv_def)
qed

lemma add_string_inv:
  assumes "rd_inv (Some i, w)" and "add_connection_string bx str n (i, w) = Inr ((i', w'), out)"
  shows "rd_inv (Some i', w')"
proof -
  from assms(2) obtain opts where "add_connection opts n (i, w) = Inr ((i', w'), out)"
    by (auto simp: add_connection_string_def split: if_splits sum.splits)
  with assms(1) show ?thesis by (rule add_inv)
qed

lemma rd_step_inv: "rd_inv r \<Longrightarrow> rd_inv (snd (svc_step bx op r))"
proof (cases op)
  case (S_add_string str n)
  assume "rd_inv r"
  with via_impl_inv[OF this add_string_inv] S_add_string show ?thesis
    by (simp add: rd_add_connection_string_def)
next
  case (S_add opts n)
  assume "rd_inv r"
  with via_impl_inv[OF this add_inv] S_add show ?thesis by (simp add: rd_add_connection_def)
next
  case (S_execute a cmd res err)
  assume "rd_inv r"
  with via_impl_inv[OF this execute_inv] S_execute show ?thesis by (simp add: rd_execute_def)
next
  case S_io_service
  assume "rd_inv r"
  with S_io_service show ?thesis
    by (auto simp: rd_io_service_def split: prod.splits dest: rd_impl_inv)
next
  case S_stop
  assume "rd_inv r"
  with S_stop show ?thesis by (auto split: prod.splits dest: stop_inv)
next
  case (S_ready pid c)
  assume "rd_inv r"
  with S_ready show ?thesis by (auto intro: on_pool_inv[where op = "Op_ready c"])
next
  case (S_terminated pid c)
  assume "rd_inv r"
  with S_terminated show ?thesis by (auto intro: on_pool_inv[where op = "Op_terminated c"])
next
  case (S_error pid c ec)
  assume "rd_inv r"
  with S_error show ?thesis by (auto intro: on_pool_inv[where op = "Op_error c ec"])
next
  case (S_closed_call k)
  assume "rd_inv r"
  with S_closed_call show ?thesis by (cases r) (auto simp: closed_lambda_def Let_def)
qed

lemma svc_run_inv: "svc_run bx r \<Longrightarrow> rd_inv r"
proof (induction rule: svc_run.induct)
  case start
  show ?case by (simp add: rd_inv_def world_inv_def initial_world_def)
qed (rule rd_step_inv)

section \<open>What the facade does\<close>

text \<open>The pool that an alias names.\<close>

definition pool_of :: "rd_state \<Rightarrow> rdalias \<Rightarrow> (pool_id \<times> pool) option" where
  "pool_of r al =
     (case r of
        (None, w) \<Rightarrow> None
      | (Some i, w) \<Rightarrow>
          Option.bind (map_of (registry i) al) (\<lambda>pid. map_option (Pair pid) (pools w pid)))"

lemma pool_of_inv:
  assumes "rd_inv r" and "pool_of r al = Some (pid, p)"
  shows "pools (snd r) pid = Some p \<and> pool_ok (fst r) pid p \<and> \<not> closed p \<and> pool_alias p = al"
proof -
  from assms(2) obtain i w where r: "r = (Some i, w)" "map_of (registry i) al = Some pid" "pools w pid = Some p"
    by (auto simp: pool_of_def bind_eq_Some_conv split: prod.splits option.splits)
  then have "(al, pid) \<in> set (registry i)" by (simp add: map_of_SomeD)
  with assms(1) r show ?thesis by (fastforce simp: rd_inv_def impl_inv_def dest: world_invD)
qed

lemma pool_of_None:
  assumes "rd_inv (Some i, w)" and "pool_of (Some i, w) al = None"
  shows "map_of (registry i) al = None"
proof (rule ccontr)
  assume "map_of (registry i) al \<noteq> None"
  then obtain pid where pid: "map_of (registry i) al = Some pid" by auto
  then have "(al, pid) \<in> set (registry i)" by (rule map_of_SomeD)
  with assms(1) obtain p where "pools w pid = Some p" by (fastforce simp: rd_inv_def impl_inv_def)
  with pid assms(2) show False by (simp add: pool_of_def)
qed

lemma rd_impl_pool_of: "rd_impl n r = (i, w) \<Longrightarrow> pool_of (Some i, w) = pool_of r"
  by (rule ext) (auto simp: rd_impl_def redis_impl_new_def pool_of_def split: prod.splits option.splits)

definition unregistered :: "rdalias \<Rightarrow> fault" where
  "unregistered al = Thrown (connection_error (''Database alias '' @ [CHR 0x27] @ al @ [CHR 0x27] @
     '' is not registered''))"

lemma execute_unknown:
  assumes "rd_inv r" and "pool_of r al = None"
  shows "fst (rd_execute al cmd res err r) = Inl (unregistered al) \<and>
    pool_of (snd (rd_execute al cmd res err r)) = pool_of r"
proof -
  obtain i w where s: "rd_impl DEFAULT_POOL_SIZE r = (i, w)" by fastforce
  from rd_impl_inv[OF assms(1) s] have inv: "rd_inv (Some i, w)" .
  from rd_impl_pool_of[OF s] assms(2) have "pool_of (Some i, w) al = None" by simp
  with inv have "map_of (registry i) al = None" by (rule pool_of_None)
  moreover have "svc_state i = Svc_running" using inv by (simp add: rd_inv_def impl_inv_def)
  ultimately have "service_get_connection al (Single cmd) res err (i, w) = Inl (unregistered al)"
    by (simp add: service_get_connection_def unregistered_def)
  with s rd_impl_pool_of[OF s] show ?thesis by (simp add: rd_execute_def via_impl_def Let_def)
qed

text \<open>A request to a registered alias always reaches the pool: an idle connection or its queue.\<close>

definition request :: "single_command_t \<Rightarrow> callback option \<Rightarrow> callback option \<Rightarrow> execute_event" where
  "request cmd res err = \<lparr>buff = wire_command (arguments cmd), result_cb = res, error_cb = err\<rparr>"

lemma execute_known:
  assumes inv: "rd_inv r" and po: "pool_of r al = Some (pid, p)" and args: "arguments cmd \<noteq> []"
  obtains p' calls where
    "rd_execute al cmd res err r =
       (Inr (map (Pair pid) calls), fst r,
        (snd r)\<lparr>pools := (pools (snd r))(pid := Some p'), next_conn := next_conn (snd r) + 1\<rparr>)"
    "(\<exists>c cs. ready_connections p = c # cs \<and> calls = [P_execute c (request cmd res err)] \<and>
        p' = p\<lparr>ready_connections := cs\<rparr>) \<or>
     (ready_connections p = [] \<and> queue p' = queue p @ [request cmd res err] \<and>
        calls = (if length (connections p) < pool_size p then [P_create (next_conn (snd r))] else []))"
proof -
  from po obtain i w where r: "r = (Some i, w)"
    and lk: "map_of (registry i) al = Some pid" "pools w pid = Some p"
    by (auto simp: pool_of_def bind_eq_Some_conv split: prod.splits option.splits)
  from pool_of_inv[OF inv po] have p: "\<not> closed p" "usable (co p)" by (auto simp: pool_ok_def)
  from inv r have run: "svc_state i = Svc_running" by (simp add: rd_inv_def impl_inv_def)
  have a: "[] \<notin> set (command_lists (Single cmd))" using args by simp
  define res_p where "res_p =
    (case ready_connections p of
       c # cs \<Rightarrow> (p\<lparr>ready_connections := cs\<rparr>, [P_execute c (request cmd res err)])
     | [] \<Rightarrow>
         if length (connections p) < pool_size p
         then (p\<lparr>connections := connections p @ [next_conn w], queue := queue p @ [request cmd res err]\<rparr>,
               [P_create (next_conn w)])
         else (p\<lparr>queue := queue p @ [request cmd res err]\<rparr>, []))"
  have g: "get_connection (next_conn w) (Single cmd) res err p = Inr (fst res_p, snd res_p)"
    using get_connection_open[OF p a] by (simp add: res_p_def request_def split: list.splits)
  show thesis
  proof (rule that[of "snd res_p" "fst res_p"])
    show "rd_execute al cmd res err r =
       (Inr (map (Pair pid) (snd res_p)), fst r,
        (snd r)\<lparr>pools := (pools (snd r))(pid := Some (fst res_p)), next_conn := next_conn (snd r) + 1\<rparr>)"
      using g run lk r
      by (simp add: rd_execute_def via_impl_def rd_impl_def service_get_connection_def Let_def case_prod_beta)
  qed (auto simp: res_p_def r split: list.splits)
qed

text \<open>Registering.\<close>

lemma add_known:
  assumes "rd_inv r" and "pool_of r (conn_alias opts) = Some (pid, p)" and "uri opts \<noteq> []"
  shows "rd_add_connection opts n r = (Inr [], r)"
proof -
  from assms(2) obtain i w where r: "r = (Some i, w)" and lk: "map_of (registry i) (conn_alias opts) = Some pid"
    by (auto simp: pool_of_def bind_eq_Some_conv split: prod.splits option.splits)
  from pool_of_inv[OF assms(1,2)] have "conn_alias opts \<noteq> []" by (auto simp: pool_ok_def)
  moreover have "svc_state i = Svc_running" using assms(1) r by (simp add: rd_inv_def impl_inv_def)
  ultimately show ?thesis
    using r lk assms(3)
    by (simp add: rd_add_connection_def via_impl_def rd_impl_def add_connection_def add_pool_def Let_def)
qed

text \<open>
  The size of a new pool: the size asked for, else the default of the implementation, which the facade
  makes with 4.
\<close>

definition chosen_size :: "nat option \<Rightarrow> rd_state \<Rightarrow> nat" where
  "chosen_size n r =
     (case n of Some n \<Rightarrow> n | None \<Rightarrow> (case fst r of Some i \<Rightarrow> default_size i | None \<Rightarrow> DEFAULT_POOL_SIZE))"

lemma add_fresh:
  assumes inv: "rd_inv r" and po: "pool_of r (conn_alias opts) = None"
    and ok: "uri opts \<noteq> []" "conn_alias opts \<noteq> []" "usable opts" "chosen_size n r \<noteq> 0"
  defines "w \<equiv> snd r"
  defines "p \<equiv> \<lparr>pool_size = chosen_size n r, co = opts, connections = [next_conn w],
    ready_connections = [], queue = [], closed = False, closed_callback = None\<rparr>"
  shows "fst (rd_add_connection opts n r) = Inr [(next_pool w, P_create (next_conn w))] \<and>
    pool_of (snd (rd_add_connection opts n r)) = (pool_of r)(conn_alias opts := Some (next_pool w, p))"
proof -
  obtain i w' where s: "rd_impl DEFAULT_POOL_SIZE r = (i, w')" by fastforce
  from rd_impl_inv[OF inv s] have inv': "rd_inv (Some i, w')" .
  from rd_impl_pool_of[OF s] have po': "pool_of (Some i, w') = pool_of r" .
  with pool_of_None[OF inv', of "conn_alias opts"] po have
    m: "map_of (registry i) (conn_alias opts) = None" by simp
  from inv' have wf: "reg_wf (registry i)" "svc_state i = Svc_running"
    and old: "\<And>pid q. pools w' pid = Some q \<Longrightarrow> pid < next_pool w'"
    by (auto simp: rd_inv_def impl_inv_def world_inv_def)
  have nx: "next_conn w' = next_conn w" "next_pool w' = next_pool w"
    and sz: "(case n of None \<Rightarrow> default_size i | Some n \<Rightarrow> n) = chosen_size n r"
    using s by (auto simp: rd_impl_def redis_impl_new_def w_def chosen_size_def
        split: prod.splits option.splits)
  have create: "pool_create (chosen_size n r) opts (next_conn w) = Inr (p, [P_create (next_conn w)])"
    using ok by (simp add: pool_create_Inr p_def usable_def)
  let ?i = "i\<lparr>registry := map_insert (conn_alias opts) (next_pool w) (registry i)\<rparr>"
  let ?w = "w'\<lparr>pools := (pools w')(next_pool w := Some p), next_pool := next_pool w + 1,
              next_conn := next_conn w + 1\<rparr>"
  have res: "rd_add_connection opts n r = (Inr [(next_pool w, P_create (next_conn w))], Some ?i, ?w)"
    using s m wf ok create sz nx
    by (simp add: rd_add_connection_def via_impl_def add_connection_def add_pool_def Let_def)
  have "pool_of (Some ?i, ?w) al = ((pool_of r)(conn_alias opts := Some (next_pool w, p))) al" for al
  proof -
    have "\<not> next_pool w < next_pool w'" by (simp add: nx)
    then have "map_of (registry i) al = Some pid \<Longrightarrow> pid \<noteq> next_pool w" for pid
      using inv' old by (fastforce simp: rd_inv_def impl_inv_def dest: map_of_SomeD)
    then show ?thesis
      using wf m
      by (cases "map_of (registry i) al") (auto simp: pool_of_def map_of_map_insert simp flip: po')
  qed
  with res show ?thesis by auto
qed

lemma add_refused:
  assumes "rd_inv r" and "pool_of r (conn_alias opts) = None"
    and "uri opts = [] \<or> conn_alias opts = [] \<or> \<not> usable opts \<or> chosen_size n r = 0"
  shows "(\<exists>m. fst (rd_add_connection opts n r) = Inl (Thrown (connection_error m))) \<and>
    pool_of (snd (rd_add_connection opts n r)) = pool_of r"
proof -
  obtain i w where s: "rd_impl DEFAULT_POOL_SIZE r = (i, w)" by fastforce
  from rd_impl_inv[OF assms(1) s] have inv: "rd_inv (Some i, w)" .
  from rd_impl_pool_of[OF s] have po': "pool_of (Some i, w) = pool_of r" .
  with pool_of_None[OF inv, of "conn_alias opts"] assms(2) have
    m: "map_of (registry i) (conn_alias opts) = None" by simp
  have sz: "(case n of None \<Rightarrow> default_size i | Some n \<Rightarrow> n) = chosen_size n r"
    using s by (auto simp: rd_impl_def redis_impl_new_def chosen_size_def split: prod.splits option.splits)
  have "\<exists>m. add_connection opts n (i, w) = Inl (Thrown (connection_error m))"
    using assms(3) m sz inv
    by (auto simp: add_connection_def add_pool_def Let_def pool_create_def pool_impl_def usable_def
        create_new_connection_def connection_create_cases rd_inv_def impl_inv_def)
  with s po' show ?thesis by (auto simp: rd_add_connection_def via_impl_def Let_def)
qed

lemma add_no_uri:
  assumes "rd_inv r" and "uri opts = []"
  shows "(\<exists>m. fst (rd_add_connection opts n r) = Inl (Thrown (connection_error m))) \<and>
    pool_of (snd (rd_add_connection opts n r)) = pool_of r"
proof -
  obtain i w where s: "rd_impl DEFAULT_POOL_SIZE r = (i, w)" by fastforce
  from rd_impl_inv[OF assms(1) s] have "svc_state i = Svc_running" by (simp add: rd_inv_def impl_inv_def)
  with s assms(2) rd_impl_pool_of[OF s] show ?thesis
    by (simp add: rd_add_connection_def via_impl_def Let_def add_connection_def)
qed

section \<open>Stopping\<close>

lemma stop_closes:
  assumes "rd_inv r" and "rd_stop r = (out, r')"
  shows "(\<forall>pid p. pools (snd r') pid = Some p \<longrightarrow> closed p) \<and> pool_of r' al = None"
proof -
  from stop_inv[OF assms] have "rd_inv r'" "fst r' = None" by auto
  then show ?thesis
    by (cases r') (auto simp: rd_inv_def pool_ok_def pool_of_def dest: world_invD)
qed

lemma close_all_counts: "close_all k m w = (w', out) \<Longrightarrow> pool_counts w' = pool_counts w"
  by (induction k m w arbitrary: w' out rule: close_all.induct)
    (fastforce split: option.splits prod.splits)+

lemma stop_count:
  assumes "rd_inv (Some i, w)"
  shows "pool_counts (snd (snd (rd_stop (Some i, w)))) (io_svc i) = of_nat (length (registry i))"
  using assms
  by (auto simp: rd_stop_def redis_impl_stop_def rd_inv_def impl_inv_def split: prod.splits
      dest!: close_all_counts)

text \<open>
  Calls of the closed callback decrement the counter, and stop the service when it reaches zero; the
  counter is a \<^verbatim>\<open>size_t\<close>, so that further calls wrap around.
\<close>

lemma closed_lambda_simps [simp]:
  "pool_counts (closed_lambda k w) k = pool_counts w k - 1"
  "io_stopped (closed_lambda k w) k \<longleftrightarrow> io_stopped w k \<or> pool_counts w k = 1"
  by (auto simp: closed_lambda_def Let_def)

lemma closed_lambda_count: "pool_counts ((closed_lambda k ^^ m) w) k = pool_counts w k - of_nat m"
  by (induction m) simp_all

lemma closed_lambda_mono: "io_stopped w k \<Longrightarrow> io_stopped ((closed_lambda k ^^ m) w) k"
  by (induction m) simp_all

lemma closed_lambda_stops:
  assumes "pool_counts w k = of_nat n" and "0 < n" and "n \<le> m"
  shows "io_stopped ((closed_lambda k ^^ m) w) k"
proof -
  obtain j where n: "n = Suc j" using assms(2) by (cases n) auto
  have "io_stopped ((closed_lambda k ^^ n) w) k"
    using closed_lambda_count[where k = k and m = j and w = w] assms(1) by (simp add: n)
  then have "io_stopped ((closed_lambda k ^^ (m - n)) ((closed_lambda k ^^ n) w)) k"
    by (rule closed_lambda_mono)
  moreover have "(closed_lambda k ^^ (m - n)) ((closed_lambda k ^^ n) w) = (closed_lambda k ^^ m) w"
    using assms(3) funpow_add[of "m - n" n "closed_lambda k"] by simp
  ultimately show ?thesis by simp
qed

lemma closed_lambda_waits:
  assumes "pool_counts w k = of_nat n" and "m < n" and "n < 2 ^ 64" and "\<not> io_stopped w k"
  shows "\<not> io_stopped ((closed_lambda k ^^ m) w) k"
  using assms(2)
proof (induction m)
  case 0
  with assms(4) show ?case by simp
next
  case (Suc m)
  have "unat (of_nat (n - m) :: size64) = n - m"
    using assms(3) by (simp add: unsigned_of_nat take_bit_nat_eq_self)
  then have "(of_nat (n - m) :: size64) \<noteq> 1"
    using Suc.prems by auto
  moreover have "pool_counts ((closed_lambda k ^^ m) w) k = of_nat (n - m)"
    using Suc.prems assms(1) closed_lambda_count[where k = k and m = m and w = w] by (simp add: of_nat_diff)
  ultimately show ?case using Suc by simp
qed

fun closed_calls :: "pool_call list \<Rightarrow> callback list" where
  "closed_calls [] = []"
| "closed_calls (P_closed k # out) = k # closed_calls out"
| "closed_calls (_ # out) = closed_calls out"

lemma closed_calls_append [simp]: "closed_calls (a @ b) = closed_calls a @ closed_calls b"
  by (induction a rule: closed_calls.induct) auto

lemma closed_calls_terminate [simp]: "closed_calls (map P_terminate cs) = []"
  by (induction cs) auto

text \<open>
  The pools of the registry share the counter: the calls that one idle pool makes when it closes and its
  connections end count for two pools.
\<close>

lemma idle_pool_calls:
  assumes "\<not> closed p" and "queue p = []" and "connections p \<noteq> []"
    and "pool_close (Some k) p = (p1, out1)" and "terminated_all (connections p1) p1 = (p2, out2)"
  shows "closed_calls (out1 @ out2) = [k, k] \<and> connections p2 = []"
  using close_calls_twice[OF assms(1-3), of k] assms(4,5) by simp

section \<open>A sample service\<close>

definition svc_exec :: "boost_str \<Rightarrow> svc_op list \<Rightarrow> rd_state \<Rightarrow> rd_state" where
  "svc_exec bx ops r = fold (\<lambda>op r. snd (svc_step bx op r)) ops r"

lemma svc_exec_run: "svc_run bx r \<Longrightarrow> svc_run bx (svc_exec bx ops r)"
proof (induction ops arbitrary: r)
  case (Cons op ops)
  from Cons.IH[OF svc_run.step[OF Cons.prems]] show ?case by (simp add: svc_exec_def)
qed (simp add: svc_exec_def)

definition sample_service :: rd_state where
  "sample_service =
     svc_exec ref_boost
       [S_add_string ''main=tcp://localhost:7000'' (Some 1), S_add_string ''aux=unix:///tmp/s'' None,
        S_execute ''main'' \<lparr>arguments = [''PING'']\<rparr> (Some 1) (Some 2), S_ready 0 0, S_ready 1 1]
       (None, initial_world)"

lemma sample_service_run: "svc_run ref_boost sample_service"
  unfolding sample_service_def by (intro svc_exec_run svc_run.start)

definition unix_options :: connection_options where
  "unix_options = default_options\<lparr>conn_alias := ''aux'', schema := ''unix'', uri := ''/tmp/s''\<rparr>"

definition sample_main :: pool where
  "sample_main = \<lparr>pool_size = 1, co = pool_options, connections = [0], ready_connections = [],
     queue = [], closed = False, closed_callback = None\<rparr>"

definition sample_aux :: pool where
  "sample_aux = \<lparr>pool_size = 4, co = unix_options, connections = [1], ready_connections = [1],
     queue = [], closed = False, closed_callback = None\<rparr>"

lemma sample_service_pools:
  "pool_of sample_service ''main'' = Some (0, sample_main)"
  "pool_of sample_service ''aux'' = Some (1, sample_aux)"
  "pool_of sample_service ''none'' = None"
  "map_option (\<lambda>i. (registry i, svc_state i)) (fst sample_service) =
     Some ([(''aux'', 1), (''main'', 0)], Svc_running)"
  by code_simp+

end
