(* ===== verification/Rd_Service_Threads.thy ===== *)
theory Rd_Service_Threads
  imports Rd_Service_Laws
begin

text \<open>
  The operations of the facade as threads execute them. \<^verbatim>\<open>rd_service::impl\<close> returns the implementation under
  \<^verbatim>\<open>db_service_lock\<close>, and the call on it runs after the lock has been released: \<^verbatim>\<open>state_\<close> and \<^verbatim>\<open>connections_\<close> of
  \<^verbatim>\<open>redis_impl\<close> have no lock, and a thread may keep its pointer to an implementation that \<^verbatim>\<open>stop\<close> has taken out
  of the facade. \<open>Rd_Service\<close> takes an operation as one step; here a step is one section under the lock, one
  read or write of \<^verbatim>\<open>state_\<close>, one call on \<^verbatim>\<open>connections_\<close> or one call on a pool. A pool is entered as
  \<open>Rd_Pool\<close> has it; its own interleavings are those of \<open>Rd_Pool_Threads\<close>.
\<close>

section \<open>Memory\<close>

text \<open>The states of an implementation in the order in which it passes through them.\<close>

instantiation state_type :: linorder
begin

fun rank_state_type :: "state_type \<Rightarrow> nat" where
  "rank_state_type Svc_running = 0"
| "rank_state_type Svc_closing = 1"
| "rank_state_type Svc_closed = 2"

definition less_eq_state_type :: "state_type \<Rightarrow> state_type \<Rightarrow> bool" where
  "x \<le> y \<longleftrightarrow> rank_state_type x \<le> rank_state_type y"

definition less_state_type :: "state_type \<Rightarrow> state_type \<Rightarrow> bool" where
  "x < y \<longleftrightarrow> rank_state_type x < rank_state_type y"

instance
proof
  have "rank_state_type x = rank_state_type y \<Longrightarrow> x = y" for x y :: state_type
    by (cases x; cases y) simp_all
  then show "x \<le> y \<Longrightarrow> y \<le> x \<Longrightarrow> x = y" for x y :: state_type
    by (simp add: less_eq_state_type_def)
qed (auto simp: less_eq_state_type_def less_state_type_def)

end

lemma running_le [simp]: "Svc_running \<le> s"
  by (cases s) (simp_all add: less_eq_state_type_def)

text \<open>
  An implementation behind its shared pointer. A value of the map is \<^const>\<open>None\<close> for the null pointer that
  \<^verbatim>\<open>operator[]\<close> puts in for a missing key. Implementations are named by their \<^verbatim>\<open>io_service\<close>, one each.
\<close>

type_synonym impl_id = nat

record shared_impl =
  i_size :: nat
  i_map :: "(rdalias \<times> pool_id option) list"
  i_state :: state_type

record svc_mem =
  cur :: "impl_id option"              \<comment> \<open>the static \<^verbatim>\<open>pimpl\<close>\<close>
  impls :: "impl_id \<Rightarrow> shared_impl"
  wld :: world

definition initial_mem :: svc_mem where
  "initial_mem = \<lparr>cur = None, impls = (\<lambda>_. \<lparr>i_size = 0, i_map = [], i_state = Svc_closed\<rparr>), wld = initial_world\<rparr>"

definition on_impl :: "impl_id \<Rightarrow> (shared_impl \<Rightarrow> shared_impl) \<Rightarrow> svc_mem \<Rightarrow> svc_mem" where
  "on_impl i f m = m\<lparr>impls := (impls m)(i := f (impls m i))\<rparr>"

text \<open>\<^verbatim>\<open>connections_[alias]\<close>.\<close>

definition subscript :: "rdalias \<Rightarrow> (rdalias \<times> 'a option) list \<Rightarrow> 'a option \<times> (rdalias \<times> 'a option) list" where
  "subscript al m = (case map_of m al of Some x \<Rightarrow> (x, m) | None \<Rightarrow> (None, map_insert al None m))"

text \<open>Where an iterator on the entry of \<open>prev\<close> goes next; none at the start.\<close>

fun entries_after :: "rdalias option \<Rightarrow> (rdalias \<times> 'a) list \<Rightarrow> (rdalias \<times> 'a) list" where
  "entries_after None m = m"
| "entries_after (Some a) m = filter (\<lambda>(b, _). a < b) m"

section \<open>Program points\<close>

datatype service_fault =
  Raised fault
| Null_pool      \<comment> \<open>a call through a null \<^verbatim>\<open>connection_pool_ptr\<close>\<close>

datatype svc_point =
  Fetch svc_op                                            \<comment> \<open>\<^verbatim>\<open>impl()\<close>, under \<^verbatim>\<open>db_service_lock\<close>\<close>
| Str_state impl_id string "nat option"                   \<comment> \<open>\<^verbatim>\<open>add_connection\<close> of a string, reads \<^verbatim>\<open>state_\<close>\<close>
| Add_state impl_id connection_options "nat option"       \<comment> \<open>reads \<^verbatim>\<open>state_\<close>\<close>
| Add_count impl_id connection_options "nat option"       \<comment> \<open>\<^verbatim>\<open>connections_.count\<close>\<close>
| Add_create impl_id connection_options "nat option"      \<comment> \<open>\<^verbatim>\<open>connection_pool::create\<close>\<close>
| Add_insert impl_id rdalias pool_id                      \<comment> \<open>\<^verbatim>\<open>connections_.insert\<close>\<close>
| Add_return impl_id rdalias                              \<comment> \<open>\<^verbatim>\<open>return connections_[co.alias]\<close>\<close>
| Exec_state impl_id rdalias command_wrapper_t "callback option" "callback option"
| Exec_count impl_id rdalias command_wrapper_t "callback option" "callback option"
| Exec_lookup impl_id rdalias command_wrapper_t "callback option" "callback option"
| Exec_call impl_id "pool_id option" command_wrapper_t "callback option" "callback option"
| Stop_fetch                                              \<comment> \<open>takes \<^verbatim>\<open>db_service_lock\<close>, keeps it to the end\<close>
| Stop_state impl_id
| Stop_count impl_id
| Stop_next impl_id "rdalias option"                      \<comment> \<open>the loop, past the entry of this alias\<close>
| Stop_clear impl_id
| Stop_reset

fun svc_start :: "svc_op \<Rightarrow> svc_point" where
  "svc_start S_stop = Stop_fetch"
| "svc_start op = Fetch op"

fun after_fetch :: "svc_op \<Rightarrow> impl_id \<Rightarrow> svc_point option" where
  "after_fetch (S_add_string str n) i = Some (Str_state i str n)"
| "after_fetch (S_add opts n) i = Some (Add_state i opts n)"
| "after_fetch (S_execute al cmd res err) i = Some (Exec_state i al (Single cmd) res err)"
| "after_fetch _ i = None"

abbreviation not_running :: service_fault where
  "not_running \<equiv> Raised (Thrown (connection_error ''Database service is not running''))"

fun svc_point_step ::
  "boost_str \<Rightarrow> svc_point \<Rightarrow> svc_mem \<Rightarrow> service_fault + svc_mem \<times> out_call list \<times> svc_point option" where
  "svc_point_step bx (Fetch op) m =
     (case cur m of
        Some i \<Rightarrow> Inr (m, [], after_fetch op i)
      | None \<Rightarrow>
          let i = next_io (wld m) in
          Inr (\<lparr>cur = Some i,
                impls = (impls m)(i := \<lparr>i_size = DEFAULT_POOL_SIZE, i_map = [], i_state = Svc_running\<rparr>),
                wld = (wld m)\<lparr>next_io := i + 1\<rparr>\<rparr>, [], after_fetch op i))"
| "svc_point_step bx (Str_state i str n) m =
     (if i_state (impls m i) \<noteq> Svc_running then Inl not_running
      else case options_parse bx str of
             Inl e \<Rightarrow> Inl (Raised (Thrown e))
           | Inr opts \<Rightarrow> Inr (m, [], Some (Add_state i opts n)))"
| "svc_point_step bx (Add_state i opts n) m =
     (if i_state (impls m i) \<noteq> Svc_running then Inl not_running
      else if uri opts = [] then
        Inl (Raised (Thrown (connection_error ''No URI in database connection string'')))
      else if conn_alias opts = [] then
        Inl (Raised (Thrown (connection_error ''No alias name in database connection string'')))
      else Inr (m, [], Some (Add_count i opts n)))"
| "svc_point_step bx (Add_count i opts n) m =
     Inr (m, [], Some (if map_of (i_map (impls m i)) (conn_alias opts) = None then Add_create i opts n
                       else Add_return i (conn_alias opts)))"
| "svc_point_step bx (Add_create i opts n) m =
     (case pool_create (case n of None \<Rightarrow> i_size (impls m i) | Some n \<Rightarrow> n) opts (next_conn (wld m)) of
        Inl f \<Rightarrow> Inl (Raised f)
      | Inr (p, out) \<Rightarrow>
          let w = wld m; pid = next_pool w in
          Inr (m\<lparr>wld := w\<lparr>pools := (pools w)(pid := Some p), next_pool := pid + 1, next_conn := next_conn w + 1\<rparr>\<rparr>,
               map (Pair pid) out, Some (Add_insert i (conn_alias opts) pid)))"
| "svc_point_step bx (Add_insert i al pid) m =
     Inr (on_impl i (\<lambda>x. x\<lparr>i_map := map_insert al (Some pid) (i_map x)\<rparr>) m, [], Some (Add_return i al))"
| "svc_point_step bx (Add_return i al) m =
     Inr (on_impl i (\<lambda>x. x\<lparr>i_map := snd (subscript al (i_map x))\<rparr>) m, [], None)"
| "svc_point_step bx (Exec_state i al cmd res err) m =
     (if i_state (impls m i) \<noteq> Svc_running then Inl not_running
      else Inr (m, [], Some (Exec_count i al cmd res err)))"
| "svc_point_step bx (Exec_count i al cmd res err) m =
     (if map_of (i_map (impls m i)) al = None then Inl (Raised (unregistered al))
      else Inr (m, [], Some (Exec_lookup i al cmd res err)))"
| "svc_point_step bx (Exec_lookup i al cmd res err) m =
     Inr (on_impl i (\<lambda>x. x\<lparr>i_map := snd (subscript al (i_map x))\<rparr>) m, [],
          Some (Exec_call i (fst (subscript al (i_map (impls m i)))) cmd res err))"
| "svc_point_step bx (Exec_call i ptr cmd res err) m =
     (case Option.bind ptr (\<lambda>pid. map_option (Pair pid) (pools (wld m) pid)) of
        None \<Rightarrow> Inl Null_pool
      | Some (pid, p) \<Rightarrow>
          let w = wld m in
          case get_connection (next_conn w) cmd res err p of
            Inl f \<Rightarrow> Inl (Raised f)
          | Inr (p, out) \<Rightarrow>
              Inr (m\<lparr>wld := w\<lparr>pools := (pools w)(pid := Some p), next_conn := next_conn w + 1\<rparr>\<rparr>,
                   map (Pair pid) out, None))"
| "svc_point_step bx Stop_fetch m =
     Inr (m, [], Some (case cur m of None \<Rightarrow> Stop_reset | Some i \<Rightarrow> Stop_state i))"
| "svc_point_step bx (Stop_state i) m =
     (if i_state (impls m i) = Svc_running
      then Inr (on_impl i (\<lambda>x. x\<lparr>i_state := Svc_closing\<rparr>) m, [], Some (Stop_count i))
      else Inr (m, [], Some Stop_reset))"
| "svc_point_step bx (Stop_count i) m =
     Inr (m\<lparr>wld := (wld m)\<lparr>pool_counts := (pool_counts (wld m))(i := of_nat (length (i_map (impls m i))))\<rparr>\<rparr>, [],
          Some (Stop_next i None))"
| "svc_point_step bx (Stop_next i prev) m =
     (case entries_after prev (i_map (impls m i)) of
        [] \<Rightarrow> Inr (m, [], Some (Stop_clear i))
      | (al, ptr) # _ \<Rightarrow>
          (case Option.bind ptr (\<lambda>pid. map_option (Pair pid) (pools (wld m) pid)) of
             None \<Rightarrow> Inl Null_pool
           | Some (pid, p) \<Rightarrow>
               (case pool_close (Some i) p of
                  (p, out) \<Rightarrow>
                    Inr (m\<lparr>wld := (wld m)\<lparr>pools := (pools (wld m))(pid := Some p)\<rparr>\<rparr>, map (Pair pid) out,
                         Some (Stop_next i (Some al))))))"
| "svc_point_step bx (Stop_clear i) m = Inr (on_impl i (\<lambda>x. x\<lparr>i_map := []\<rparr>) m, [], Some Stop_reset)"
| "svc_point_step bx Stop_reset m = Inr (m\<lparr>cur := None\<rparr>, [], None)"

section \<open>A thread alone\<close>

lemma length_entries_after: "length (entries_after prev m) \<le> length m"
  by (cases prev) simp_all

lemma length_entries_after_next:
  assumes "entries_after prev m = (al, x) # r"
  shows "length (entries_after (Some al) m) < length (entries_after prev m)"
proof -
  from assms have "(al, x) \<in> set (entries_after prev m)" by simp
  moreover have "entries_after (Some al) m = filter (\<lambda>(b, _). al < b) (entries_after prev m)"
    using calculation by (cases prev) (auto intro!: filter_cong)
  ultimately show ?thesis by (auto intro: length_filter_less)
qed

text \<open>The steps that a thread has before it; in the loop of \<^verbatim>\<open>stop\<close> they depend on the map.\<close>

definition map_size :: "impl_id \<Rightarrow> svc_mem \<Rightarrow> nat" where
  "map_size i m = length (i_map (impls m i))"

fun svc_steps_left :: "svc_point \<Rightarrow> svc_mem \<Rightarrow> nat" where
  "svc_steps_left (Fetch _) m = 7"
| "svc_steps_left (Str_state _ _ _) m = 6"
| "svc_steps_left (Add_state _ _ _) m = 5"
| "svc_steps_left (Add_count _ _ _) m = 4"
| "svc_steps_left (Add_create _ _ _) m = 3"
| "svc_steps_left (Add_insert _ _ _) m = 2"
| "svc_steps_left (Add_return _ _) m = 1"
| "svc_steps_left (Exec_state _ _ _ _ _) m = 4"
| "svc_steps_left (Exec_count _ _ _ _ _) m = 3"
| "svc_steps_left (Exec_lookup _ _ _ _ _) m = 2"
| "svc_steps_left (Exec_call _ _ _ _ _) m = 1"
| "svc_steps_left Stop_fetch m = 6 + (case cur m of None \<Rightarrow> 0 | Some i \<Rightarrow> map_size i m)"
| "svc_steps_left (Stop_state i) m = 5 + map_size i m"
| "svc_steps_left (Stop_count i) m = 4 + map_size i m"
| "svc_steps_left (Stop_next i prev) m = 3 + length (entries_after prev (i_map (impls m i)))"
| "svc_steps_left (Stop_clear _) m = 2"
| "svc_steps_left Stop_reset m = 1"

lemma svc_point_step_nearer:
  assumes "svc_point_step bx pt m = Inr (m', out, Some pt')"
  shows "svc_steps_left pt' m' < svc_steps_left pt m"
proof (cases pt)
  case (Fetch op)
  with assms show ?thesis by (cases op) (auto simp: Let_def split: option.splits)
next
  case (Stop_next i prev)
  show ?thesis
  proof (cases "entries_after prev (i_map (impls m i))")
    case (Cons e r)
    moreover obtain al x where "e = (al, x)" by fastforce
    ultimately show ?thesis
      using assms Stop_next length_entries_after_next[of prev "i_map (impls m i)" al x r]
      by (auto split: option.splits prod.splits simp del: entries_after.simps)
  qed (use assms Stop_next in auto)
qed (use assms in \<open>auto simp: Let_def map_size_def on_impl_def length_entries_after
      split: if_splits sum.splits option.splits prod.splits\<close>)

function svc_alone :: "boost_str \<Rightarrow> svc_point \<Rightarrow> svc_mem \<Rightarrow> (service_fault + out_call list) \<times> svc_mem" where
  "svc_alone bx pt m =
     (case svc_point_step bx pt m of
        Inl f \<Rightarrow> (Inl f, m)
      | Inr (m', out, None) \<Rightarrow> (Inr out, m')
      | Inr (m', out, Some pt') \<Rightarrow> map_prod (map_sum id ((@) out)) id (svc_alone bx pt' m'))"
  by pat_completeness auto

termination
  by (relation "measure (\<lambda>(bx, pt, m). svc_steps_left pt m)") (auto dest: svc_point_step_nearer)

declare svc_alone.simps [simp del]

lemma svc_alone_step:
  "svc_point_step bx pt m = Inl f \<Longrightarrow> svc_alone bx pt m = (Inl f, m)"
  "svc_point_step bx pt m = Inr (m', out, None) \<Longrightarrow> svc_alone bx pt m = (Inr out, m')"
  "svc_point_step bx pt m = Inr (m', out, Some pt') \<Longrightarrow>
     svc_alone bx pt m = map_prod (map_sum id ((@) out)) id (svc_alone bx pt' m')"
  by (simp_all add: svc_alone.simps[of bx pt m])

lemma nothing_before [simp]: "map_prod (map_sum id ((@) [])) id r = r"
  by (cases r; cases "fst r") auto

text \<open>The memory that stands for a state of \<open>Rd_Service\<close>; older implementations may be left in it.\<close>

definition obj_map :: "(rdalias \<times> pool_id) list \<Rightarrow> (rdalias \<times> pool_id option) list" where
  "obj_map reg = map (\<lambda>(al, pid). (al, Some pid)) reg"

definition obj_of :: "redis_impl \<Rightarrow> shared_impl" where
  "obj_of i = \<lparr>i_size = default_size i, i_map = obj_map (registry i), i_state = svc_state i\<rparr>"

definition stands :: "svc_mem \<Rightarrow> rd_state \<Rightarrow> bool" where
  "stands m r \<longleftrightarrow> wld m = snd r \<and> cur m = map_option io_svc (fst r) \<and>
     (\<forall>i. fst r = Some i \<longrightarrow> impls m (io_svc i) = obj_of i)"

abbreviation holds :: "svc_mem \<Rightarrow> redis_impl \<times> world \<Rightarrow> bool" where
  "holds m s \<equiv> stands m (Some (fst s), snd s)"

lemma map_of_obj_map [simp]: "map_of (obj_map reg) k = map_option Some (map_of reg k)"
  by (induction reg) (auto simp: obj_map_def)

lemma obj_map_insert [simp]: "map_insert k (Some pid) (obj_map reg) = obj_map (map_insert k pid reg)"
  by (induction k pid reg rule: map_insert.induct) (auto simp: obj_map_def)

lemma obj_map_Nil [simp]: "obj_map [] = []" "length (obj_map reg) = length reg"
  by (simp_all add: obj_map_def)

text \<open>What a thread answers, against what the operation answers.\<close>

definition agrees ::
  "fault + (redis_impl \<times> world) \<times> out_call list \<Rightarrow> redis_impl \<times> world \<Rightarrow>
     (service_fault + out_call list) \<times> svc_mem \<Rightarrow> bool" where
  "agrees res s r = (case res of
     Inl f \<Rightarrow> fst r = Inl (Raised f) \<and> holds (snd r) s
   | Inr (s', out) \<Rightarrow> fst r = Inr out \<and> holds (snd r) s')"

lemma agrees_simps [simp]:
  "agrees (Inl f) s r \<longleftrightarrow> fst r = Inl (Raised f) \<and> holds (snd r) s"
  "agrees (Inr (s', out)) s r \<longleftrightarrow> fst r = Inr out \<and> holds (snd r) s'"
  by (simp_all add: agrees_def)

lemma on_impl_same: "f (impls m i) = impls m i \<Longrightarrow> on_impl i f m = m"
  by (simp add: on_impl_def)

lemma alone_Add_return:
  assumes "holds m (i, w)" and "map_of (registry i) al \<noteq> None"
  shows "svc_alone bx (Add_return (io_svc i) al) m = (Inr [], m)"
  using assms by (auto simp: svc_alone_step stands_def obj_of_def subscript_def on_impl_same)

lemma alone_Add_create:
  assumes "holds m (i, w)" and "map_of (registry i) (conn_alias opts) = None"
  shows "agrees (case add_pool opts n (i, w) of Inl f \<Rightarrow> Inl f | Inr (_, r) \<Rightarrow> Inr r) (i, w)
    (svc_alone bx (Add_create (io_svc i) opts n) m)"
proof -
  let ?n = "case n of None \<Rightarrow> default_size i | Some n \<Rightarrow> n" and ?pid = "next_pool w"
  have at: "wld m = w" "i_size (impls m (io_svc i)) = default_size i" "cur m = Some (io_svc i)"
    "impls m (io_svc i) = obj_of i"
    using assms(1) by (simp_all add: stands_def obj_of_def)
  then have size: "(case n of None \<Rightarrow> i_size (impls m (io_svc i)) | Some n \<Rightarrow> n) = ?n" by (cases n) auto
  show ?thesis
  proof (cases "pool_create ?n opts (next_conn w)")
    case (Inl f)
    with assms size at(1) show ?thesis by (simp add: svc_alone_step add_pool_def Let_def)
  next
    case (Inr r)
    obtain p out where r: "r = (p, out)" by fastforce
    let ?w = "w\<lparr>pools := (pools w)(?pid := Some p), next_pool := ?pid + 1, next_conn := next_conn w + 1\<rparr>"
    let ?i = "i\<lparr>registry := map_insert (conn_alias opts) ?pid (registry i)\<rparr>"
    let ?m = "on_impl (io_svc i) (\<lambda>x. x\<lparr>i_map := map_insert (conn_alias opts) (Some ?pid) (i_map x)\<rparr>) (m\<lparr>wld := ?w\<rparr>)"
    have m: "holds ?m (?i, ?w)" using at by (simp add: stands_def on_impl_def obj_of_def)
    have "svc_alone bx (Add_return (io_svc ?i) (conn_alias opts)) ?m = (Inr [], ?m)"
      by (rule alone_Add_return[OF m]) (auto simp: map_of_eq_None_iff fst_set_map_insert)
    then have "svc_alone bx (Add_insert (io_svc i) (conn_alias opts) ?pid) (m\<lparr>wld := ?w\<rparr>) = (Inr [], ?m)"
      by (simp add: svc_alone_step)
    with Inr r size at(1) assms m show ?thesis by (simp add: svc_alone_step add_pool_def Let_def)
  qed
qed

lemma alone_Add_state:
  assumes "holds m (i, w)"
  shows "agrees (add_connection opts n (i, w)) (i, w) (svc_alone bx (Add_state (io_svc i) opts n) m)"
proof -
  have at: "impls m (io_svc i) = obj_of i" using assms by (simp add: stands_def)
  consider (bad) f where "svc_point_step bx (Add_state (io_svc i) opts n) m = Inl (Raised f)"
      "add_connection opts n (i, w) = Inl f"
    | (go) "svc_point_step bx (Add_state (io_svc i) opts n) m = Inr (m, [], Some (Add_count (io_svc i) opts n))"
      "add_connection opts n (i, w) = (case add_pool opts n (i, w) of Inl f \<Rightarrow> Inl f | Inr (_, r) \<Rightarrow> Inr r)"
  proof (cases "svc_state i = Svc_running \<and> uri opts \<noteq> [] \<and> conn_alias opts \<noteq> []")
    case True
    with at show thesis by (intro go) (auto simp: add_connection_def obj_of_def)
  next
    case False
    with at show thesis
      by (intro bad[of "Thrown (connection_error (if svc_state i \<noteq> Svc_running then ''Database service is not running''
          else if uri opts = [] then ''No URI in database connection string''
          else ''No alias name in database connection string''))"])
        (auto simp: add_connection_def obj_of_def)
  qed
  then show ?thesis
  proof cases
    case bad
    with assms show ?thesis by (simp only: svc_alone_step(1)) simp
  next
    case go
    show ?thesis
    proof (cases "map_of (registry i) (conn_alias opts)")
      case None
      with alone_Add_create[OF assms, of opts n bx] go at show ?thesis
        by (simp add: svc_alone_step(3)[OF go(1)] svc_alone_step(3)[where pt = "Add_count _ _ _"] obj_of_def)
    next
      case (Some pid)
      with alone_Add_return[OF assms, of "conn_alias opts" bx] go at assms show ?thesis
        by (simp add: svc_alone_step(3)[OF go(1)] svc_alone_step(3)[where pt = "Add_count _ _ _"] obj_of_def
            add_pool_def)
    qed
  qed
qed

lemma alone_Str_state:
  assumes "holds m (i, w)"
  shows "agrees (add_connection_string bx str n (i, w)) (i, w) (svc_alone bx (Str_state (io_svc i) str n) m)"
proof (cases "svc_state i = Svc_running \<and> (\<exists>opts. options_parse bx str = Inr opts)")
  case True
  then obtain opts where "svc_state i = Svc_running" "options_parse bx str = Inr opts" by auto
  with assms alone_Add_state[OF assms, of opts n bx] show ?thesis
    by (simp add: svc_alone_step(3)[where pt = "Str_state _ _ _"] stands_def obj_of_def add_connection_string_def)
next
  case False
  with assms show ?thesis
    by (cases "options_parse bx str")
      (auto simp: svc_alone_step(1)[where pt = "Str_state _ _ _"] stands_def obj_of_def add_connection_string_def)
qed

lemma alone_Exec_state:
  assumes "holds m (i, w)" and pools: "\<And>al pid. (al, pid) \<in> set (registry i) \<Longrightarrow> pools w pid \<noteq> None"
  shows "agrees (service_get_connection al cmd res err (i, w)) (i, w)
    (svc_alone bx (Exec_state (io_svc i) al cmd res err) m)"
proof -
  have at: "impls m (io_svc i) = obj_of i" "wld m = w" using assms by (simp_all add: stands_def)
  show ?thesis
  proof (cases "svc_state i = Svc_running \<and> map_of (registry i) al \<noteq> None")
    case True
    then obtain pid where run: "svc_state i = Svc_running" and pid: "map_of (registry i) al = Some pid" by auto
    then obtain p where p: "pools w pid = Some p" using pools[of al pid] by (auto dest: map_of_SomeD)
    let ?call = "Exec_call (io_svc i) (Some pid) cmd res err"
    have "svc_alone bx (Exec_state (io_svc i) al cmd res err) m = svc_alone bx ?call m"
      using at run pid by (simp add: svc_alone_step obj_of_def subscript_def on_impl_same)
    moreover have "agrees (service_get_connection al cmd res err (i, w)) (i, w) (svc_alone bx ?call m)"
      using assms(1) at run pid p
      by (cases "get_connection (next_conn w) cmd res err p")
        (auto simp: svc_alone_step service_get_connection_def stands_def Let_def)
    ultimately show ?thesis by simp
  next
    case False
    with at assms(1) show ?thesis
      by (cases "svc_state i = Svc_running")
        (simp_all add: svc_alone_step service_get_connection_def obj_of_def unregistered_def)
  qed
qed

text \<open>The loop of \<^verbatim>\<open>stop\<close>.\<close>

lemma later_append:
  assumes "reg_wf (xs @ ys)"
  shows "entries_after (if xs = [] then None else Some (fst (last xs))) (obj_map (xs @ ys)) = obj_map ys"
proof (cases "xs = []")
  case False
  then obtain zs al pid where xs: "xs = zs @ [(al, pid)]" by (metis prod.exhaust rev_exhaust)
  from assms have "\<forall>(b, _) \<in> set zs. b < al" "\<forall>(b, _) \<in> set ys. al < b"
    by (auto simp: xs reg_wf_def sorted_wrt_append)
  then have "filter (\<lambda>(b, _). al < b) (obj_map zs) = []" "filter (\<lambda>(b, _). al < b) (obj_map ys) = obj_map ys"
    by (fastforce simp: obj_map_def filter_empty_conv, auto simp: obj_map_def filter_id_conv)
  then show ?thesis by (simp add: xs obj_map_def)
qed simp

lemma alone_Stop_next:
  assumes "reg_wf (xs @ ys)" and "impls m k = \<lparr>i_size = n, i_map = obj_map (xs @ ys), i_state = Svc_closing\<rparr>"
    and "\<And>al pid. (al, pid) \<in> set ys \<Longrightarrow> pools (wld m) pid \<noteq> None"
  shows "svc_alone bx (Stop_next k (if xs = [] then None else Some (fst (last xs)))) m =
    (case close_all k ys (wld m) of (w, out) \<Rightarrow>
       (Inr out, m\<lparr>cur := None, wld := w,
          impls := (impls m)(k := \<lparr>i_size = n, i_map = [], i_state = Svc_closing\<rparr>)\<rparr>))"
  using assms
proof (induction ys arbitrary: xs m)
  case Nil
  from later_append[OF Nil(1)] Nil(2) show ?case
    by (cases m) (simp add: svc_alone_step on_impl_def fun_upd_def)
next
  case (Cons y ys)
  obtain al pid where y: "y = (al, pid)" by fastforce
  with Cons.prems(3) obtain p where p: "pools (wld m) pid = Some p" by auto
  obtain p' out where c: "pool_close (Some k) p = (p', out)" by fastforce
  let ?w = "(wld m)\<lparr>pools := (pools (wld m))(pid := Some p')\<rparr>"
  obtain w2 out2 where c2: "close_all k ys ?w = (w2, out2)" by fastforce
  have "svc_alone bx (Stop_next k (Some al)) (m\<lparr>wld := ?w\<rparr>) =
      (Inr out2, m\<lparr>cur := None, wld := w2,
          impls := (impls m)(k := \<lparr>i_size = n, i_map = [], i_state = Svc_closing\<rparr>)\<rparr>)"
    using Cons.IH[of "xs @ [y]" "m\<lparr>wld := ?w\<rparr>"] Cons.prems c2 y by (auto simp: fun_upd_def)
  moreover have "entries_after (if xs = [] then None else Some (fst (last xs))) (i_map (impls m k)) = (al, Some pid) # obj_map ys"
    using later_append[OF Cons.prems(1)] Cons.prems(2) y by (simp add: obj_map_def)
  ultimately show ?case
    using p c c2 y by (simp add: svc_alone_step(3)[where pt = "Stop_next _ _"] fun_upd_def del: entries_after.simps)
qed

lemma alone_Stop_fetch_mem:
  assumes "holds m (i, w)" and "rd_inv (Some i, w)"
  shows "svc_alone bx Stop_fetch m =
    (case redis_impl_stop (i, w) of ((i', w'), out) \<Rightarrow>
       (Inr out, m\<lparr>cur := None, wld := w', impls := (impls m)(io_svc i := obj_of i')\<rparr>)) \<and>
    (\<exists>w' out. redis_impl_stop (i, w) = ((i\<lparr>svc_state := Svc_closing, registry := []\<rparr>, w'), out))"
proof -
  let ?k = "io_svc i" and ?w = "w\<lparr>pool_counts := (pool_counts w)(io_svc i := of_nat (length (registry i)))\<rparr>"
  from assms(2) have i: "svc_state i = Svc_running" "reg_wf (registry i)"
    "\<And>al pid. (al, pid) \<in> set (registry i) \<Longrightarrow> pools w pid \<noteq> None"
    by (auto simp: rd_inv_def impl_inv_def)
  from assms(1) have at: "wld m = w" "cur m = Some ?k" "impls m ?k = obj_of i" by (simp_all add: stands_def)
  let ?m = "(on_impl ?k (\<lambda>x. x\<lparr>i_state := Svc_closing\<rparr>) m)\<lparr>wld := ?w\<rparr>"
  have "svc_alone bx Stop_fetch m = svc_alone bx (Stop_next ?k None) ?m"
    using at i(1) by (simp add: svc_alone_step on_impl_def obj_of_def)
  also have "\<dots> = (case close_all ?k (registry i) ?w of (w, out) \<Rightarrow>
      (Inr out, ?m\<lparr>cur := None, wld := w,
         impls := (impls ?m)(?k := \<lparr>i_size = default_size i, i_map = [], i_state = Svc_closing\<rparr>)\<rparr>))"
    using alone_Stop_next[of "[]" "registry i" ?m ?k "default_size i" bx] i at
    by (simp add: on_impl_def obj_of_def)
  finally show ?thesis
    using i(1) by (auto simp: redis_impl_stop_def obj_of_def on_impl_def split: prod.split)
qed

lemma alone_Stop_fetch:
  assumes "stands m r" and "rd_inv r"
  shows "fst (svc_alone bx Stop_fetch m) = Inr (fst (rd_stop r)) \<and>
    stands (snd (svc_alone bx Stop_fetch m)) (snd (rd_stop r))"
proof (cases "fst r")
  case None
  with assms(1) show ?thesis by (cases r) (simp add: svc_alone_step rd_stop_def stands_def)
next
  case (Some i)
  then obtain w where r: "r = (Some i, w)" by (cases r) simp
  with alone_Stop_fetch_mem[of m i w bx] assms show ?thesis
    by (auto simp: rd_stop_def stands_def split: prod.split)
qed

text \<open>All of them: the thread answers as the operation, and leaves the memory that stands for its state.\<close>

lemma via_impl_stands:
  assumes "agrees (f s) s ans" and "s = rd_impl DEFAULT_POOL_SIZE r"
  shows "fst ans = map_sum Raised id (fst (via_impl f r)) \<and> stands (snd ans) (snd (via_impl f r))"
  using assms by (cases "f s") (auto simp: via_impl_def Let_def agrees_def)

lemma alone_Fetch:
  assumes "stands m r"
  obtains m' where "holds m' (rd_impl DEFAULT_POOL_SIZE r)"
    "svc_alone bx (Fetch op) m =
       (case after_fetch op (io_svc (fst (rd_impl DEFAULT_POOL_SIZE r))) of
          None \<Rightarrow> (Inr [], m') | Some pt \<Rightarrow> svc_alone bx pt m')"
proof (cases "fst r")
  case None
  let ?k = "next_io (wld m)"
  let ?m = "\<lparr>cur = Some ?k, impls = (impls m)(?k := \<lparr>i_size = DEFAULT_POOL_SIZE, i_map = [], i_state = Svc_running\<rparr>),
    wld = (wld m)\<lparr>next_io := ?k + 1\<rparr>\<rparr>"
  show ?thesis
    by (rule that[of ?m])
      (use None assms in \<open>cases r; auto simp: svc_alone_step stands_def rd_impl_def redis_impl_new_def obj_of_def
        Let_def split: option.split\<close>)+
next
  case (Some i)
  show ?thesis
    by (rule that[of m])
      (use Some assms in \<open>cases r; auto simp: svc_alone_step stands_def rd_impl_def split: option.split\<close>)+
qed

lemma svc_alone_operation:
  assumes "stands m r" and "rd_inv r" and "op = S_stop \<or> after_fetch op 0 \<noteq> None \<or> op = S_io_service"
  shows "fst (svc_alone bx (svc_start op) m) = map_sum Raised id (fst (svc_step bx op r)) \<and>
    stands (snd (svc_alone bx (svc_start op) m)) (snd (svc_step bx op r))"
proof (cases "op = S_stop")
  case True
  with alone_Stop_fetch[OF assms(1,2), of bx] show ?thesis by (cases "rd_stop r") simp
next
  case False
  obtain i w where s: "rd_impl DEFAULT_POOL_SIZE r = (i, w)" by fastforce
  obtain m' where m': "holds m' (i, w)" and alone: "svc_alone bx (Fetch op) m =
      (case after_fetch op (io_svc i) of None \<Rightarrow> (Inr [], m') | Some pt \<Rightarrow> svc_alone bx pt m')"
    using alone_Fetch[OF assms(1), of bx op] s by auto
  from rd_impl_inv[OF assms(2) s] have pools: "(al, pid) \<in> set (registry i) \<Longrightarrow> pools w pid \<noteq> None" for al pid
    by (fastforce simp: rd_inv_def impl_inv_def)
  note go = via_impl_stands[where r = r and s = "(i, w)", unfolded s, OF _ refl]
  from False alone assms(3) show ?thesis
    using go[where f = "add_connection_string bx _ _", OF alone_Str_state[OF m']]
      go[where f = "add_connection _ _", OF alone_Add_state[OF m']]
      go[where f = "service_get_connection _ _ _ _", OF alone_Exec_state[OF m' pools]] m' s
    by (cases op)
      (auto simp: rd_add_connection_string_def rd_add_connection_def rd_execute_def rd_io_service_def)
qed

end
