(* ===== verification/Rd_Service_Runs.thy ===== *)
theory Rd_Service_Runs
  imports Rd_Service_Threads
begin

text \<open>
  Several threads in the facade at once: which of them may step, what holds of every interleaving, and the
  interleavings that break what holds when operations come one after the other. The notifications that
  pools get from their connections come between the steps.
\<close>

section \<open>Threads together\<close>

text \<open>
  The memory, the owner of \<^verbatim>\<open>db_service_lock\<close> between steps (only \<^verbatim>\<open>rd_service::stop\<close> keeps it), and the
  points of the threads. The mutex is recursive.
\<close>

record shared_service =
  mem :: svc_mem
  svc_lock :: "thread_id option"
  at_point :: "thread_id \<Rightarrow> svc_point option"

fun takes_service_lock :: "svc_point \<Rightarrow> bool" where
  "takes_service_lock (Fetch _) = True"
| "takes_service_lock Stop_fetch = True"
| "takes_service_lock _ = False"

definition may_go :: "thread_id \<Rightarrow> svc_point \<Rightarrow> shared_service \<Rightarrow> bool" where
  "may_go t pt s \<longleftrightarrow> (takes_service_lock pt \<longrightarrow> svc_lock s = None \<or> svc_lock s = Some t)"

definition lock_after :: "thread_id \<Rightarrow> svc_point \<Rightarrow> svc_point option \<Rightarrow> thread_id option \<Rightarrow> thread_id option" where
  "lock_after t pt next own =
     (if next = None then (if own = Some t then None else own)
      else if pt = Stop_fetch then Some t else own)"

definition after_go :: "thread_id \<Rightarrow> svc_point \<Rightarrow> svc_mem \<Rightarrow> svc_point option \<Rightarrow> shared_service \<Rightarrow> shared_service" where
  "after_go t pt m next s =
     \<lparr>mem = m, svc_lock = lock_after t pt next (svc_lock s), at_point = (at_point s)(t := next)\<rparr>"

text \<open>The pools that \<^verbatim>\<open>insert\<close> does not take, as their alias is there already, and those that \<^verbatim>\<open>clear\<close> drops.\<close>

record svc_book =
  b_refused :: "pool_id multiset"
  b_cleared :: "pool_id multiset"

definition pids_of :: "(rdalias \<times> pool_id option) list \<Rightarrow> pool_id multiset" where
  "pids_of m = mset (List.map_filter snd m)"

fun refused_at :: "svc_point \<Rightarrow> svc_mem \<Rightarrow> pool_id multiset" where
  "refused_at (Add_insert i al pid) m = (if map_of (i_map (impls m i)) al = None then {#} else {#pid#})"
| "refused_at _ m = {#}"

fun cleared_at :: "svc_point \<Rightarrow> svc_mem \<Rightarrow> pool_id multiset" where
  "cleared_at (Stop_clear i) m = pids_of (i_map (impls m i))"
| "cleared_at _ m = {#}"

definition enter_svc_book :: "svc_point \<Rightarrow> svc_mem \<Rightarrow> svc_book \<Rightarrow> svc_book" where
  "enter_svc_book pt m b = \<lparr>b_refused = b_refused b + refused_at pt m, b_cleared = b_cleared b + cleared_at pt m\<rparr>"

fun facade_op :: "svc_op \<Rightarrow> bool" where
  "facade_op (S_ready _ _) = False"
| "facade_op (S_terminated _ _) = False"
| "facade_op (S_error _ _ _) = False"
| "facade_op (S_closed_call _) = False"
| "facade_op _ = True"

text \<open>A notification to a pool, or a call of the closed callback: it has no use of the facade.\<close>

definition outside_step :: "boost_str \<Rightarrow> svc_op \<Rightarrow> world \<Rightarrow> world" where
  "outside_step bx op w = snd (snd (svc_step bx op (None, w)))"

inductive svc_threads :: "boost_str \<Rightarrow> nat \<Rightarrow> shared_service \<Rightarrow> svc_book \<Rightarrow> bool" for bx N where
  nobody: "svc_threads bx N \<lparr>mem = initial_mem, svc_lock = None, at_point = (\<lambda>_. None)\<rparr>
     \<lparr>b_refused = {#}, b_cleared = {#}\<rparr>"
| begins: "svc_threads bx N s b \<Longrightarrow> t < N \<Longrightarrow> at_point s t = None \<Longrightarrow> facade_op op \<Longrightarrow>
     svc_threads bx N (s\<lparr>at_point := (at_point s)(t := Some (svc_start op))\<rparr>) b"
| moves: "svc_threads bx N s b \<Longrightarrow> t < N \<Longrightarrow> at_point s t = Some pt \<Longrightarrow> may_go t pt s \<Longrightarrow>
     svc_point_step bx pt (mem s) = Inr (m, out, next) \<Longrightarrow>
     svc_threads bx N (after_go t pt m next s) (enter_svc_book pt (mem s) b)"
| throws: "svc_threads bx N s b \<Longrightarrow> t < N \<Longrightarrow> at_point s t = Some pt \<Longrightarrow> may_go t pt s \<Longrightarrow>
     svc_point_step bx pt (mem s) = Inl f \<Longrightarrow>
     svc_threads bx N (after_go t pt (mem s) None s) b"
| outside: "svc_threads bx N s b \<Longrightarrow> \<not> facade_op op \<Longrightarrow>
     svc_threads bx N (s\<lparr>mem := (mem s)\<lparr>wld := outside_step bx op (wld (mem s))\<rparr>\<rparr>) b"

section \<open>Implementations and the lock\<close>

text \<open>Points inside \<^verbatim>\<open>rd_service::stop\<close>, with the lock held.\<close>

fun in_stop :: "svc_point \<Rightarrow> bool" where
  "in_stop (Stop_state _) = True"
| "in_stop (Stop_count _) = True"
| "in_stop (Stop_next _ _) = True"
| "in_stop (Stop_clear _) = True"
| "in_stop Stop_reset = True"
| "in_stop _ = False"

fun point_impl :: "svc_point \<Rightarrow> impl_id option" where
  "point_impl (Str_state i _ _) = Some i"
| "point_impl (Add_state i _ _) = Some i"
| "point_impl (Add_count i _ _) = Some i"
| "point_impl (Add_create i _ _) = Some i"
| "point_impl (Add_insert i _ _) = Some i"
| "point_impl (Add_return i _) = Some i"
| "point_impl (Exec_state i _ _ _ _) = Some i"
| "point_impl (Exec_count i _ _ _ _) = Some i"
| "point_impl (Exec_lookup i _ _ _ _) = Some i"
| "point_impl (Exec_call i _ _ _ _) = Some i"
| "point_impl (Stop_state i) = Some i"
| "point_impl (Stop_count i) = Some i"
| "point_impl (Stop_next i _) = Some i"
| "point_impl (Stop_clear i) = Some i"
| "point_impl _ = None"

fun stop_ok :: "svc_point \<Rightarrow> svc_mem \<Rightarrow> bool" where
  "stop_ok (Stop_state i) m \<longleftrightarrow> cur m = Some i \<and> i_state (impls m i) = Svc_running"
| "stop_ok (Stop_count i) m \<longleftrightarrow> cur m = Some i \<and> i_state (impls m i) = Svc_closing"
| "stop_ok (Stop_next i _) m \<longleftrightarrow> cur m = Some i \<and> i_state (impls m i) = Svc_closing"
| "stop_ok (Stop_clear i) m \<longleftrightarrow> cur m = Some i \<and> i_state (impls m i) = Svc_closing"
| "stop_ok Stop_reset m \<longleftrightarrow> (\<forall>i. cur m = Some i \<longrightarrow> i_state (impls m i) = Svc_closing)"
| "stop_ok _ m \<longleftrightarrow> True"

definition impls_inv :: "nat \<Rightarrow> shared_service \<Rightarrow> bool" where
  "impls_inv N s \<longleftrightarrow>
     (\<forall>t pt. at_point s t = Some pt \<longrightarrow> t < N \<and> stop_ok pt (mem s) \<and> (in_stop pt \<longrightarrow> svc_lock s = Some t) \<and>
        (\<forall>i. point_impl pt = Some i \<longrightarrow> i < next_io (wld (mem s)))) \<and>
     (\<forall>t. svc_lock s = Some t \<longrightarrow> (\<exists>pt. at_point s t = Some pt \<and> in_stop pt)) \<and>
     (\<forall>i. cur (mem s) = Some i \<longrightarrow> i < next_io (wld (mem s))) \<and>
     (\<forall>i. i_state (impls (mem s) i) = Svc_running \<longrightarrow> cur (mem s) = Some i) \<and>
     (svc_lock s = None \<longrightarrow> (\<forall>i. cur (mem s) = Some i \<longrightarrow> i_state (impls (mem s) i) = Svc_running))"

lemma outside_step_next:
  assumes "\<not> facade_op op"
  shows "next_io (outside_step bx op w) = next_io w" "next_pool (outside_step bx op w) = next_pool w"
  using assms
  by (cases op; auto simp: outside_step_def on_pool_def closed_lambda_def Let_def split: option.splits prod.splits)+

lemma step_frame:
  assumes "svc_point_step bx pt m = Inr (m', out, next)" and "\<not> in_stop pt" "\<And>op. pt \<noteq> Fetch op"
  shows "cur m' = cur m \<and> (\<forall>i. i_state (impls m' i) = i_state (impls m i)) \<and> next_io (wld m') = next_io (wld m)"
  using assms
  by (cases pt) (auto simp: on_impl_def Let_def split: if_splits sum.splits option.splits prod.splits)

lemma fetch_step:
  assumes "svc_point_step bx (Fetch op) m = Inr (m', out, next)"
  obtains i where "next = after_fetch op i" "cur m' = Some i"
    "cur m = Some i \<and> m' = m \<or> cur m = None \<and> i = next_io (wld m) \<and>
      m' = \<lparr>cur = Some i, impls = (impls m)(i := \<lparr>i_size = DEFAULT_POOL_SIZE, i_map = [], i_state = Svc_running\<rparr>),
            wld = (wld m)\<lparr>next_io := i + 1\<rparr>\<rparr>"
  using assms by (auto simp: Let_def split: option.splits)

lemma after_fetch_point: "after_fetch op i = Some pt \<Longrightarrow> \<not> in_stop pt \<and> point_impl pt = Some i \<and> (\<forall>m. stop_ok pt m)"
  by (cases op) auto

text \<open>A step goes from a point in \<^verbatim>\<open>stop\<close> to one in \<^verbatim>\<open>stop\<close>, and keeps the implementation it works on.\<close>

lemma next_point:
  assumes "svc_point_step bx pt m = Inr (m', out, Some pt')" and "\<And>op. pt \<noteq> Fetch op"
  shows "in_stop pt' \<longleftrightarrow> in_stop pt \<or> pt = Stop_fetch"
    and "point_impl pt' = point_impl pt \<or> point_impl pt' = None \<or> pt = Stop_fetch \<and> point_impl pt' = cur m"
  using assms
  by (cases pt; auto simp: on_impl_def Let_def split: if_splits sum.splits option.splits prod.splits list.splits)+

lemma stop_step:
  assumes "svc_point_step bx pt m = Inr (m', out, next)" and "in_stop pt" and "stop_ok pt m"
  shows "next_io (wld m') = next_io (wld m)"
    and "next = Some pt' \<Longrightarrow> stop_ok pt' m'"
    and "cur m' = (if pt = Stop_reset then None else cur m)"
    and "i_state (impls m' i) = (if pt = Stop_state i then Svc_closing else i_state (impls m i))"
    and "next = None \<longleftrightarrow> pt = Stop_reset"
  using assms
  by (cases pt; auto simp: on_impl_def split: if_splits option.splits prod.splits list.splits)+

lemma impls_invD:
  assumes "impls_inv N s"
  shows "at_point s t = Some pt \<Longrightarrow> t < N \<and> stop_ok pt (mem s)"
    and "at_point s t = Some pt \<Longrightarrow> in_stop pt \<Longrightarrow> svc_lock s = Some t"
    and "at_point s t = Some pt \<Longrightarrow> point_impl pt = Some i \<Longrightarrow> i < next_io (wld (mem s))"
    and "svc_lock s = Some t \<Longrightarrow> \<exists>pt. at_point s t = Some pt \<and> in_stop pt"
    and "cur (mem s) = Some i \<Longrightarrow> i < next_io (wld (mem s))"
    and "i_state (impls (mem s) i) = Svc_running \<Longrightarrow> cur (mem s) = Some i"
    and "svc_lock s = None \<Longrightarrow> cur (mem s) = Some i \<Longrightarrow> i_state (impls (mem s) i) = Svc_running"
  using assms unfolding impls_inv_def by blast+

lemma impls_invI:
  assumes "\<And>t pt. at_point s t = Some pt \<Longrightarrow> t < N \<and> stop_ok pt (mem s) \<and> (in_stop pt \<longrightarrow> svc_lock s = Some t) \<and>
        (\<forall>i. point_impl pt = Some i \<longrightarrow> i < next_io (wld (mem s)))"
    and "\<And>t. svc_lock s = Some t \<Longrightarrow> \<exists>pt. at_point s t = Some pt \<and> in_stop pt"
    and "\<And>i. cur (mem s) = Some i \<Longrightarrow> i < next_io (wld (mem s))"
    and "\<And>i. i_state (impls (mem s) i) = Svc_running \<Longrightarrow> cur (mem s) = Some i"
    and "\<And>i. svc_lock s = None \<Longrightarrow> cur (mem s) = Some i \<Longrightarrow> i_state (impls (mem s) i) = Svc_running"
  shows "impls_inv N s"
  using assms unfolding impls_inv_def by blast

lemma after_go_sel [simp]:
  "mem (after_go t pt m next s) = m"
  "at_point (after_go t pt m next s) = (at_point s)(t := next)"
  "svc_lock (after_go t pt m next s) = lock_after t pt next (svc_lock s)"
  by (simp_all add: after_go_def)

lemma not_stop_ok: "\<not> in_stop pt \<Longrightarrow> stop_ok pt m"
  by (cases pt) simp_all

lemma impls_inv_stop_step:
  assumes inv: "impls_inv N s" and pt: "at_point s t = Some pt" "in_stop pt"
    and step: "svc_point_step bx pt (mem s) = Inr (m, out, next)"
  shows "impls_inv N (after_go t pt m next s)"
proof -
  have lock: "svc_lock s = Some t" using impls_invD(2)[OF inv pt] .
  have pt_ok: "stop_ok pt (mem s)" "t < N" using impls_invD(1)[OF inv pt(1)] by auto
  note st = stop_step[OF step pt(2) pt_ok(1)]
  have none: "next = None \<longleftrightarrow> pt = Stop_reset" using st(5) .
  have others: "\<not> in_stop pu" if "at_point s u = Some pu" "u \<noteq> t" for u pu
    using impls_invD(2)[OF inv that(1)] lock that(2) by auto
  have next_ok: "in_stop pn \<and> stop_ok pn m \<and> (\<forall>i. point_impl pn = Some i \<longrightarrow> i < next_io (wld (mem s)))"
    if n: "next = Some pn" for pn
  proof -
    have ne: "\<And>op. pt \<noteq> Fetch op" "pt \<noteq> Stop_fetch" using pt(2) by auto
    from next_point[OF step[unfolded n] ne(1)] ne(2) pt(2) st(2)[OF n] impls_invD(3)[OF inv pt(1)]
    show ?thesis by auto
  qed
  have running: "cur m = Some i" if "i_state (impls m i) = Svc_running" for i
  proof -
    from that st(4)[of i] have "i_state (impls (mem s) i) = Svc_running" by (auto split: if_splits)
    with impls_invD(6)[OF inv] have c: "cur (mem s) = Some i" by simp
    with that pt_ok(1) pt(2) st(4)[of i] have "pt \<noteq> Stop_reset"
      by (cases pt) auto
    with c st(3) show ?thesis by simp
  qed
  have stopped: "next = None \<Longrightarrow> cur m = None" using st(3) none by simp
  have lock': "lock_after t pt next (svc_lock s) = (if next = None then None else Some t)"
    using lock pt(2) by (auto simp: lock_after_def)
  have pts: "u < N \<and> stop_ok pu m \<and> (in_stop pu \<longrightarrow> lock_after t pt next (svc_lock s) = Some u) \<and>
      (\<forall>j. point_impl pu = Some j \<longrightarrow> j < next_io (wld m))"
    if "((at_point s)(t := next)) u = Some pu" for u pu
  proof (cases "u = t")
    case True
    with that next_ok[of pu] pt_ok st(1) lock' show ?thesis by auto
  next
    case False
    with that have a: "at_point s u = Some pu" by simp
    from impls_invD(1,3)[OF inv a] others[OF a False] st(1) show ?thesis by (auto simp: not_stop_ok)
  qed
  show ?thesis
  proof (rule impls_invI, unfold after_go_sel)
    fix u assume "lock_after t pt next (svc_lock s) = Some u"
    then obtain pn where "u = t" "next = Some pn" using lock' by (cases "next") auto
    with next_ok show "\<exists>pu. ((at_point s)(t := next)) u = Some pu \<and> in_stop pu" by auto
  next
    fix i assume "lock_after t pt next (svc_lock s) = None" "cur m = Some i"
    with lock' stopped show "i_state (impls m i) = Svc_running" by (auto split: if_splits)
  next
    fix i assume "cur m = Some i"
    with st(1,3) impls_invD(5)[OF inv, of i] show "i < next_io (wld m)" by (auto split: if_splits)
  qed (use pts in blast, use running in blast)
qed

lemma impls_inv_step:
  assumes inv: "impls_inv N s" and pt: "at_point s t = Some pt" "\<not> in_stop pt" "may_go t pt s"
    and step: "svc_point_step bx pt (mem s) = Inr (m, out, next)"
  shows "impls_inv N (after_go t pt m next s)"
proof -
  have t: "t < N" using impls_invD(1)[OF inv pt(1)] by auto
  have own: "svc_lock s \<noteq> Some t" using impls_invD(4)[OF inv, of t] pt(1,2) by auto
  show ?thesis
  proof (cases "\<exists>op. pt = Fetch op")
    case True
    then obtain op where op: "pt = Fetch op" by auto
    with own pt(3) have free: "svc_lock s = None" by (auto simp: may_go_def)
    with impls_invD(2)[OF inv] have others: "at_point s u = Some pu \<Longrightarrow> \<not> in_stop pu" for u pu by fastforce
    obtain i where i: "next = after_fetch op i" "cur m = Some i" and
      m: "cur (mem s) = Some i \<and> m = mem s \<or> cur (mem s) = None \<and> i = next_io (wld (mem s)) \<and>
        m = \<lparr>cur = Some i, impls = (impls (mem s))(i := \<lparr>i_size = DEFAULT_POOL_SIZE, i_map = [], i_state = Svc_running\<rparr>),
            wld = (wld (mem s))\<lparr>next_io := i + 1\<rparr>\<rparr>"
      by (rule fetch_step[OF step[unfolded op]]) blast
    have io: "i < next_io (wld m) \<and> next_io (wld (mem s)) \<le> next_io (wld m) \<and> i_state (impls m i) = Svc_running \<and>
        (\<forall>j. i_state (impls m j) = Svc_running \<longrightarrow> j = i)"
      using m
    proof (elim disjE conjE)
      assume c: "cur (mem s) = Some i" "m = mem s"
      have "\<forall>j. i_state (impls (mem s) j) = Svc_running \<longrightarrow> j = i"
        using impls_invD(6)[OF inv] c(1) by fastforce
      with impls_invD(5)[OF inv c(1)] impls_invD(7)[OF inv free c(1)] show ?thesis unfolding c(2) by blast
    next
      assume c: "cur (mem s) = None" "i = next_io (wld (mem s))" and m: "m = \<lparr>cur = Some i,
        impls = (impls (mem s))(i := \<lparr>i_size = DEFAULT_POOL_SIZE, i_map = [], i_state = Svc_running\<rparr>),
        wld = (wld (mem s))\<lparr>next_io := i + 1\<rparr>\<rparr>"
      have "i_state (impls (mem s) j) \<noteq> Svc_running" for j using impls_invD(6)[OF inv, of j] c(1) by auto
      with m c(2) show ?thesis by auto
    qed
    have pts: "\<not> in_stop pu \<and> u < N \<and> (\<forall>j. point_impl pu = Some j \<longrightarrow> j < next_io (wld m))"
      if "((at_point s)(t := next)) u = Some pu" for u pu
    proof (cases "u = t")
      case True
      with that i(1) after_fetch_point[of op i pu] io t show ?thesis by auto
    next
      case False
      with that have "at_point s u = Some pu" by simp
      from others[OF this] impls_invD(1,3)[OF inv this] io show ?thesis by (auto intro: less_le_trans)
    qed
    have lock: "lock_after t pt next (svc_lock s) = None" using op free by (simp add: lock_after_def)
    show ?thesis
    proof (rule impls_invI, unfold after_go_sel)
      fix u pu assume "((at_point s)(t := next)) u = Some pu"
      from pts[OF this] show "u < N \<and> stop_ok pu m \<and> (in_stop pu \<longrightarrow> lock_after t pt next (svc_lock s) = Some u) \<and>
        (\<forall>j. point_impl pu = Some j \<longrightarrow> j < next_io (wld m))" by (simp add: not_stop_ok)
    qed (use lock io i(2) in auto)
  next
    case False
    note fr = step_frame[OF step pt(2)]
    with False have fr: "cur m = cur (mem s)" "\<And>i. i_state (impls m i) = i_state (impls (mem s) i)"
      "next_io (wld m) = next_io (wld (mem s))" by auto
    have same: "stop_ok pu m = stop_ok pu (mem s)" for pu
      by (cases pu) (simp_all add: fr)
    have nxt: "(in_stop pn \<longleftrightarrow> pt = Stop_fetch) \<and> (pt = Stop_fetch \<longrightarrow> stop_ok pn (mem s)) \<and>
        (\<forall>i. point_impl pn = Some i \<longrightarrow> i < next_io (wld (mem s)))" if n: "next = Some pn" for pn
    proof -
      have "pt = Stop_fetch \<Longrightarrow> svc_lock s = None" using own pt(3) by (auto simp: may_go_def)
      then have "pt = Stop_fetch \<Longrightarrow> stop_ok pn (mem s)"
        using step n impls_invD(7)[OF inv] by (auto split: option.splits)
      with next_point[OF step[unfolded n]] False pt(2) impls_invD(3)[OF inv pt(1)] impls_invD(5)[OF inv]
      show ?thesis by auto
    qed
    have last: "next = None \<Longrightarrow> pt \<noteq> Stop_fetch" using step by auto
    have free: "pt = Stop_fetch \<Longrightarrow> svc_lock s = None" using own pt(3) by (auto simp: may_go_def)
    have pts: "u < N \<and> stop_ok pu m \<and> (in_stop pu \<longrightarrow> lock_after t pt next (svc_lock s) = Some u) \<and>
        (\<forall>j. point_impl pu = Some j \<longrightarrow> j < next_io (wld m))"
      if "((at_point s)(t := next)) u = Some pu" for u pu
    proof (cases "u = t")
      case True
      with that nxt[of pu] t show ?thesis by (auto simp: lock_after_def not_stop_ok same fr)
    next
      case False
      with that have a: "at_point s u = Some pu" by simp
      from impls_invD(1,3)[OF inv a] impls_invD(2)[OF inv a] own free False show ?thesis
        by (auto simp: lock_after_def same fr)
    qed
    have lock: "lock_after t pt next (svc_lock s) = (if pt = Stop_fetch then Some t else svc_lock s)"
      using last own by (auto simp: lock_after_def)
    show ?thesis
    proof (rule impls_invI, unfold after_go_sel)
      fix u assume "lock_after t pt next (svc_lock s) = Some u"
      with lock own have "u = t \<and> pt = Stop_fetch \<or> u \<noteq> t \<and> svc_lock s = Some u" by (auto split: if_splits)
      then show "\<exists>pu. ((at_point s)(t := next)) u = Some pu \<and> in_stop pu"
        using nxt last impls_invD(4)[OF inv, of u] by (cases "next") auto
    next
      fix i assume "lock_after t pt next (svc_lock s) = None" "cur m = Some i"
      with lock fr impls_invD(7)[OF inv, of i] show "i_state (impls m i) = Svc_running"
        by (auto split: if_splits)
    next
      fix i assume "cur m = Some i"
      with fr impls_invD(5)[OF inv, of i] show "i < next_io (wld m)" by simp
    next
      fix i assume "i_state (impls m i) = Svc_running"
      with fr impls_invD(6)[OF inv, of i] show "cur m = Some i" by simp
    qed (use pts in blast)
  qed
qed

lemma impls_inv_throw:
  assumes inv: "impls_inv N s" and pt: "at_point s t = Some pt" "\<not> in_stop pt"
  shows "impls_inv N (after_go t pt (mem s) None s)"
proof -
  have own: "svc_lock s \<noteq> Some t" using impls_invD(4)[OF inv, of t] pt(1,2) by auto
  then have l: "lock_after t pt None (svc_lock s) = svc_lock s" by (simp add: lock_after_def)
  show ?thesis
  proof (rule impls_invI, unfold after_go_sel l)
    fix u pu assume "((at_point s)(t := None)) u = Some pu"
    then have "at_point s u = Some pu" by (simp split: if_splits)
    from impls_invD(1-3)[OF inv this] show "u < N \<and> stop_ok pu (mem s) \<and> (in_stop pu \<longrightarrow> svc_lock s = Some u) \<and>
        (\<forall>j. point_impl pu = Some j \<longrightarrow> j < next_io (wld (mem s)))" by blast
  next
    fix u assume "svc_lock s = Some u"
    with own impls_invD(4)[OF inv this] show "\<exists>pu. ((at_point s)(t := None)) u = Some pu \<and> in_stop pu" by auto
  qed (use impls_invD(5-7)[OF inv] in blast)+
qed

section \<open>The maps\<close>

fun closes_impl :: "svc_point \<Rightarrow> impl_id option" where
  "closes_impl (Stop_count i) = Some i"
| "closes_impl (Stop_next i _) = Some i"
| "closes_impl (Stop_clear i) = Some i"
| "closes_impl _ = None"

text \<open>An implementation is intact until its map is cleared.\<close>

definition intact :: "shared_service \<Rightarrow> impl_id \<Rightarrow> bool" where
  "intact s i \<longleftrightarrow> i_state (impls (mem s) i) = Svc_running \<or>
     (\<exists>t pt. at_point s t = Some pt \<and> closes_impl pt = Some i)"

definition map_keys :: "svc_mem \<Rightarrow> impl_id \<Rightarrow> rdalias set" where
  "map_keys m i = fst ` set (i_map (impls m i))"

definition has_pool :: "world \<Rightarrow> rdalias \<Rightarrow> pool_id \<Rightarrow> bool" where
  "has_pool w al pid \<longleftrightarrow> (\<exists>p. pools w pid = Some p \<and> pool_alias p = al)"

fun map_ok :: "(impl_id \<Rightarrow> bool) \<Rightarrow> svc_mem \<Rightarrow> svc_point \<Rightarrow> bool" where
  "map_ok it m (Add_insert i al pid) \<longleftrightarrow> has_pool (wld m) al pid"
| "map_ok it m (Add_return i al) \<longleftrightarrow> (it i \<longrightarrow> al \<in> map_keys m i)"
| "map_ok it m (Exec_lookup i al _ _ _) \<longleftrightarrow> (it i \<longrightarrow> al \<in> map_keys m i)"
| "map_ok it m (Exec_call i ptr _ _ _) \<longleftrightarrow>
     (case ptr of None \<Rightarrow> \<not> it i | Some pid \<Rightarrow> \<exists>al. has_pool (wld m) al pid)"
| "map_ok it m _ \<longleftrightarrow> True"

definition maps_inv :: "shared_service \<Rightarrow> bool" where
  "maps_inv s \<longleftrightarrow>
     (\<forall>i. reg_wf (i_map (impls (mem s) i)) \<and> (next_io (wld (mem s)) \<le> i \<longrightarrow> i_map (impls (mem s) i) = []) \<and>
        (\<forall>al pid. (al, Some pid) \<in> set (i_map (impls (mem s) i)) \<longrightarrow> has_pool (wld (mem s)) al pid) \<and>
        (intact s i \<longrightarrow> (\<forall>al. (al, None) \<notin> set (i_map (impls (mem s) i))))) \<and>
     (\<forall>t pt. at_point s t = Some pt \<longrightarrow> map_ok (intact s) (mem s) pt) \<and>
     (\<forall>pid. pools (wld (mem s)) pid \<noteq> None \<longleftrightarrow> pid < next_pool (wld (mem s)))"

text \<open>Pools stay where they are, under the same alias.\<close>

definition pools_kept :: "world \<Rightarrow> world \<Rightarrow> bool" where
  "pools_kept w w' \<longleftrightarrow> (\<forall>pid p. pools w pid = Some p \<longrightarrow> (\<exists>p'. pools w' pid = Some p' \<and> co p' = co p))"

lemma pools_kept_has: "pools_kept w w' \<Longrightarrow> has_pool w al pid \<Longrightarrow> has_pool w' al pid"
  by (fastforce simp: pools_kept_def has_pool_def pool_alias_def)

lemma pool_close_co: "pool_close cb p = (p', out) \<Longrightarrow> co p' = co p"
  by (auto simp: pool_close_def Let_def split: if_splits)

lemma get_connection_co: "get_connection conn cmd rcb ecb p = Inr (p', out) \<Longrightarrow> co p' = co p \<and> closed p' = closed p"
  using step_co[of "Op_get conn cmd rcb ecb" p p' out] pool_step_closed[of "Op_get conn cmd rcb ecb" p p' out]
  by simp

lemma svc_step_pools:
  assumes "svc_point_step bx pt m = Inr (m', out, next)" and "\<forall>pid. pools (wld m) pid \<noteq> None \<longleftrightarrow> pid < next_pool (wld m)"
  shows "pools_kept (wld m) (wld m')" and "\<forall>pid. pools (wld m') pid \<noteq> None \<longleftrightarrow> pid < next_pool (wld m')"
proof -
  have old: "pools (wld m) pid = Some p \<Longrightarrow> pid < next_pool (wld m)" for pid p using assms(2) by (metis option.discI)
  from assms old show "pools_kept (wld m) (wld m')"
    by (cases pt)
      (auto simp: pools_kept_def on_impl_def Let_def bind_eq_Some_conv pool_close_co get_connection_co
        split: if_splits sum.splits option.splits prod.splits list.splits)
  from assms show "\<forall>pid. pools (wld m') pid \<noteq> None \<longleftrightarrow> pid < next_pool (wld m')"
    by (cases pt)
      (auto simp: on_impl_def Let_def bind_eq_Some_conv less_Suc_eq
        split: if_splits sum.splits option.splits prod.splits list.splits)
qed

lemma subscript_map: "snd (subscript al m) = (if al \<in> fst ` set m then m else map_insert al None m)"
proof (cases "map_of m al")
  case None
  then have "al \<notin> fst ` set m" by (simp add: map_of_eq_None_iff)
  with None show ?thesis by (simp add: subscript_def)
next
  case (Some x)
  then have "(al, x) \<in> set m" by (rule map_of_SomeD)
  then have "al \<in> fst ` set m" by force
  with Some show ?thesis by (simp add: subscript_def)
qed

lemma svc_step_map:
  assumes "svc_point_step bx pt m = Inr (m', out, next)" and "i < next_io (wld m) \<or> (\<forall>op. pt \<noteq> Fetch op)"
  shows "i_map (impls m' i) = (case pt of
      Add_insert j al pid \<Rightarrow> if j = i then map_insert al (Some pid) (i_map (impls m i)) else i_map (impls m i)
    | Add_return j al \<Rightarrow> if j = i then snd (subscript al (i_map (impls m i))) else i_map (impls m i)
    | Exec_lookup j al _ _ _ \<Rightarrow> if j = i then snd (subscript al (i_map (impls m i))) else i_map (impls m i)
    | Stop_clear j \<Rightarrow> if j = i then [] else i_map (impls m i)
    | _ \<Rightarrow> i_map (impls m i))"
  using assms
  by (cases pt) (auto simp: on_impl_def Let_def split: if_splits sum.splits option.splits prod.splits list.splits)

lemma svc_step_keys:
  assumes "svc_point_step bx pt m = Inr (m', out, next)" and "i < next_io (wld m)" and "pt \<noteq> Stop_clear i"
  shows "map_keys m i \<subseteq> map_keys m' i"
proof -
  from assms(2) have "i < next_io (wld m) \<or> (\<forall>op. pt \<noteq> Fetch op)" by simp
  from svc_step_map[OF assms(1) this] assms(3) show ?thesis
    by (cases pt) (auto simp: map_keys_def subscript_map fst_set_map_insert)
qed

lemma intact_cur: "impls_inv N s \<Longrightarrow> intact s i \<Longrightarrow> cur (mem s) = Some i"
  unfolding intact_def
proof (elim disjE exE conjE)
  fix t pt assume inv: "impls_inv N s" and pt: "at_point s t = Some pt" "closes_impl pt = Some i"
  from impls_invD(1)[OF inv pt(1)] pt(2) show ?thesis by (cases pt) auto
qed (rule impls_invD(6))

text \<open>An implementation that is intact after a step was so before, unless it is new.\<close>

lemma closes_next:
  assumes "svc_point_step bx pt m = Inr (m', out, Some pt')" and "closes_impl pt' = Some i"
  shows "(pt = Stop_state i \<or> closes_impl pt = Some i) \<and> pt \<noteq> Stop_clear i"
proof (cases pt)
  case (Fetch op)
  with assms show ?thesis by (cases op) (auto simp: Let_def split: option.splits)
qed (use assms in \<open>auto simp: on_impl_def Let_def split: if_splits sum.splits option.splits prod.splits list.splits\<close>)

lemma states_forward:
  assumes inv: "impls_inv N s" and pt: "at_point s t = Some pt"
    and step: "svc_point_step bx pt (mem s) = Inr (m, out, next)" and i: "i < next_io (wld (mem s))"
  shows "i_state (impls (mem s) i) \<le> i_state (impls m i)"
proof (cases "in_stop pt")
  case True
  have "pt = Stop_state i \<Longrightarrow> i_state (impls (mem s) i) = Svc_running" using impls_invD(1)[OF inv pt] by auto
  with stop_step(4)[OF step True] impls_invD(1)[OF inv pt] show ?thesis by auto
next
  case stop: False
  show ?thesis
  proof (cases "\<exists>op. pt = Fetch op")
    case True
    then obtain op where op: "pt = Fetch op" by auto
    show ?thesis by (rule fetch_step[OF step[unfolded op]]) (use i in auto)
  next
    case False
    with step_frame[OF step stop] show ?thesis by auto
  qed
qed

lemma le_running [simp]: "st \<le> Svc_running \<longleftrightarrow> st = Svc_running"
  by (cases st) (simp_all add: less_eq_state_type_def)

lemma intact_after:
  assumes inv: "impls_inv N s" and pt: "at_point s t = Some pt"
    and step: "svc_point_step bx pt (mem s) = Inr (m, out, next)"
    and i: "intact (after_go t pt m next s) i" "i < next_io (wld (mem s))"
  shows "intact s i \<and> pt \<noteq> Stop_clear i"
  using i(1)[unfolded intact_def after_go_sel]
proof (elim disjE exE conjE)
  assume run: "i_state (impls m i) = Svc_running"
  with states_forward[OF inv pt step i(2)] have same: "i_state (impls (mem s) i) = Svc_running" by simp
  moreover have "pt \<noteq> Stop_clear i" using impls_invD(1)[OF inv pt] same by auto
  ultimately show ?thesis using same by (simp add: intact_def)
next
  fix u pu assume pu: "((at_point s)(t := next)) u = Some pu" "closes_impl pu = Some i"
  show ?thesis
  proof (cases "u = t")
    case True
    with pu have "next = Some pu" by simp
    from closes_next[OF step[unfolded this] pu(2)] pt impls_invD(1)[OF inv pt] show ?thesis
      by (auto simp: intact_def)
  next
    case False
    with pu(1) have pu': "at_point s u = Some pu" by simp
    have "in_stop pu" using pu(2) by (cases pu) simp_all
    from impls_invD(2)[OF inv pu' this] False have "\<not> in_stop pt" using impls_invD(2)[OF inv pt] by auto
    then have "pt \<noteq> Stop_clear i" by auto
    with pu' pu(2) show ?thesis by (auto simp: intact_def)
  qed
qed

text \<open>The pools and keys that a thread has at hand stay, as long as its implementation is intact.\<close>

lemma map_ok_kept:
  assumes "map_ok it m pt" and "pools_kept (wld m) (wld m')"
    and "\<And>i. point_impl pt = Some i \<Longrightarrow> it' i \<Longrightarrow> it i \<and> map_keys m i \<subseteq> map_keys m' i"
  shows "map_ok it' m' pt"
  using assms pools_kept_has[OF assms(2)]
  by (cases pt) (auto split: option.splits)

lemma maps_invD:
  assumes "maps_inv s"
  shows "reg_wf (i_map (impls (mem s) i))"
    and "next_io (wld (mem s)) \<le> i \<Longrightarrow> i_map (impls (mem s) i) = []"
    and "(al, Some pid) \<in> set (i_map (impls (mem s) i)) \<Longrightarrow> has_pool (wld (mem s)) al pid"
    and "intact s i \<Longrightarrow> (al, None) \<notin> set (i_map (impls (mem s) i))"
    and "at_point s t = Some pt \<Longrightarrow> map_ok (intact s) (mem s) pt"
    and "pools (wld (mem s)) pid \<noteq> None \<longleftrightarrow> pid < next_pool (wld (mem s))"
  using assms unfolding maps_inv_def by blast+

lemma map_insert_entries:
  "reg_wf m \<Longrightarrow> (al, x) \<in> set (map_insert k v m) \<longleftrightarrow> (al, x) \<in> set m \<or> (al = k \<and> x = v \<and> k \<notin> fst ` set m)"
proof -
  assume m: "reg_wf m"
  have mem: "(al, x) \<in> set n \<longleftrightarrow> map_of n al = Some x" if "reg_wf n" for n :: "(rdalias \<times> 'a) list"
    using that by (metis map_of_SomeD map_of_is_SomeI reg_wf_def strict_sorted_iff)
  have "k \<notin> fst ` set m \<longleftrightarrow> map_of m k = None" by (simp add: map_of_eq_None_iff)
  then show ?thesis
    using m by (auto simp: mem reg_wf_map_insert map_of_map_insert)
qed

text \<open>What a step leaves in the maps.\<close>

lemma svc_step_entries:
  assumes "svc_point_step bx pt m = Inr (m', out, next)" and "reg_wf (i_map (impls m i))"
    and "i < next_io (wld m) \<or> (\<forall>op. pt \<noteq> Fetch op)"
  shows "reg_wf (i_map (impls m' i))"
    and "(al, x) \<in> set (i_map (impls m' i)) \<Longrightarrow> (al, x) \<in> set (i_map (impls m i)) \<or>
      (\<exists>pid. pt = Add_insert i al pid \<and> x = Some pid) \<or>
      (al \<notin> map_keys m i \<and> x = None \<and> (pt = Add_return i al \<or> (\<exists>cmd res err. pt = Exec_lookup i al cmd res err)))"
  using svc_step_map[OF assms(1,3)] assms(2)
  by (cases pt; auto simp: subscript_map map_keys_def map_insert_entries reg_wf_map_insert reg_wf_def[of "[]"]
      split: if_splits)+

lemma new_map_empty:
  assumes inv: "impls_inv N s" "maps_inv s" and pt: "at_point s t = Some pt"
    and step: "svc_point_step bx pt (mem s) = Inr (m, out, next)" and i: "next_io (wld (mem s)) \<le> i"
  shows "i_map (impls m i) = []"
proof (cases "\<exists>op. pt = Fetch op")
  case True
  with step maps_invD(2)[OF inv(2) i] show ?thesis by (auto simp: Let_def split: option.splits)
next
  case False
  moreover have "point_impl pt \<noteq> Some i" using impls_invD(3)[OF inv(1) pt, of i] i by auto
  ultimately show ?thesis using svc_step_map[OF step, of i] maps_invD(2)[OF inv(2) i] by (cases pt) auto
qed

lemma maps_inv_step:
  assumes inv: "impls_inv N s" "maps_inv s" and pt: "at_point s t = Some pt"
    and step: "svc_point_step bx pt (mem s) = Inr (m, out, next)"
    and inv': "impls_inv N (after_go t pt m next s)"
  shows "maps_inv (after_go t pt m next s)"
proof -
  let ?s = "after_go t pt m next s"
  note D = maps_invD[OF inv(2)]
  have reg: "\<forall>pid. pools (wld (mem s)) pid \<noteq> None \<longleftrightarrow> pid < next_pool (wld (mem s))" using D(6) by simp
  note kept = svc_step_pools(1)[OF step reg]
  have io: "next_io (wld (mem s)) \<le> next_io (wld m)"
    using step by (cases pt) (auto simp: on_impl_def Let_def split: if_splits sum.splits option.splits prod.splits list.splits)
  note new = new_map_empty[OF inv pt step]
  have it: "intact s i \<and> map_keys (mem s) i \<subseteq> map_keys m i"
    if "intact ?s i" "i < next_io (wld (mem s))" for i
    using intact_after[OF inv(1) pt step that] svc_step_keys[OF step that(2)] by blast
  have entries: "has_pool (wld m) al pid" if "(al, Some pid) \<in> set (i_map (impls m i))" for i al pid
  proof (cases "i < next_io (wld (mem s))")
    case True
    from svc_step_entries(2)[OF step D(1) disjI1[OF True] that] D(3)[of al pid i] D(5)[OF pt]
    have "has_pool (wld (mem s)) al pid" by auto
    with kept show ?thesis by (rule pools_kept_has)
  qed (use that new[of i] in simp)
  have nulls: "(al, None) \<notin> set (i_map (impls m i))" if i: "intact ?s i" for i al
  proof (cases "i < next_io (wld (mem s))")
    case True
    show ?thesis
    proof
      assume n: "(al, None) \<in> set (i_map (impls m i))"
      from svc_step_entries(2)[OF step D(1) disjI1[OF True] n] D(4)[of i al] D(5)[OF pt] it[OF i True]
      show False by auto
    qed
  qed (use new[of i] in simp)
  have others: "map_ok (intact ?s) m pu" if "at_point s u = Some pu" for u pu
    using D(5)[OF that] kept
  proof (rule map_ok_kept)
    fix i assume "point_impl pu = Some i" "intact ?s i"
    with impls_invD(3)[OF inv(1) that, of i] it show "intact s i \<and> map_keys (mem s) i \<subseteq> map_keys m i" by blast
  qed
  have mine: "map_ok (intact ?s) m pn" if n: "next = Some pn" for pn
  proof (cases pt)
    case (Fetch op)
    from step[unfolded Fetch] n have "\<exists>i. after_fetch op i = Some pn" by (rule_tac fetch_step) auto
    then show ?thesis by (cases op) auto
  next
    case (Add_count i opts k)
    have "\<And>x. map_of (i_map (impls m i)) al = Some x \<Longrightarrow> al \<in> map_keys m i" for al
      by (auto simp: map_keys_def dest!: map_of_SomeD) force
    with Add_count step n show ?thesis by auto
  next
    case (Add_create i opts k)
    with step n show ?thesis
      by (auto simp: Let_def pool_create_Inr has_pool_def pool_alias_def split: sum.splits prod.splits)
  next
    case (Add_insert i al pid)
    with step n show ?thesis by (auto simp: map_keys_def on_impl_def fst_set_map_insert)
  next
    case (Exec_count i al cmd res err)
    have "\<And>x. map_of (i_map (impls m i)) al = Some x \<Longrightarrow> al \<in> map_keys m i"
      by (auto simp: map_keys_def dest!: map_of_SomeD) force
    with Exec_count step n show ?thesis by (auto split: if_splits)
  next
    case (Exec_lookup i al cmd res err)
    let ?m = "i_map (impls (mem s) i)"
    have i: "i < next_io (wld (mem s))" using impls_invD(3)[OF inv(1) pt] Exec_lookup by simp
    have wld: "wld m = wld (mem s)" and pn: "pn = Exec_call i (fst (subscript al ?m)) cmd res err"
      using Exec_lookup step n by (auto simp: on_impl_def)
    show ?thesis
    proof (cases "fst (subscript al ?m)")
      case None
      have "\<not> intact ?s i"
      proof
        assume a: "intact ?s i"
        with it[OF a i] D(5)[OF pt] Exec_lookup have "intact s i" "al \<in> fst ` set ?m" by (auto simp: map_keys_def)
        then obtain x where "map_of ?m al = Some x" by (metis map_of_eq_None_iff not_None_eq)
        with None have "(al, None) \<in> set ?m" by (auto simp: subscript_def dest: map_of_SomeD)
        with D(4)[OF \<open>intact s i\<close>] show False by blast
      qed
      with pn None show ?thesis by simp
    next
      case (Some pid)
      then have "(al, Some pid) \<in> set ?m" by (auto simp: subscript_def dest: map_of_SomeD split: option.splits)
      with D(3) pn Some wld show ?thesis by auto
    qed
  qed (use step n in \<open>auto simp: Let_def split: if_splits sum.splits option.splits prod.splits list.splits\<close>)
  show ?thesis
    unfolding maps_inv_def after_go_sel
  proof (intro conjI allI impI)
    fix i show "reg_wf (i_map (impls m i))"
    proof (cases "i < next_io (wld (mem s))")
      case True
      from svc_step_entries(1)[OF step D(1) disjI1[OF True]] show ?thesis .
    qed (simp add: new reg_wf_def)
    show "i_map (impls m i) = []" if "next_io (wld m) \<le> i" using new[of i] io that by simp
  next
    fix u pu assume "((at_point s)(t := next)) u = Some pu"
    with others mine show "map_ok (intact ?s) m pu" by (cases "u = t") auto
  qed (use entries nulls svc_step_pools(2)[OF step reg] in blast)+
qed

text \<open>What may be thrown: \<^verbatim>\<open>stop\<close> throws nothing, and a null pool is met only after its map was cleared.\<close>

lemma svc_step_fault:
  assumes inv: "impls_inv N s" "maps_inv s" and pt: "at_point s t = Some pt"
    and step: "svc_point_step bx pt (mem s) = Inl f"
  shows "\<not> in_stop pt"
    and "f = Null_pool \<Longrightarrow> \<exists>i cmd res err. pt = Exec_call i None cmd res err \<and> \<not> intact s i"
proof -
  note D = maps_invD[OF inv(2)]
  have no_null: "Option.bind ptr (\<lambda>pid. map_option (Pair pid) (pools (wld (mem s)) pid)) \<noteq> None"
    if l: "pt = Stop_next i prev" "entries_after prev (i_map (impls (mem s) i)) = (al, ptr) # r" for i prev al ptr r
  proof -
    have "(al, ptr) \<in> set (entries_after prev (i_map (impls (mem s) i)))" using l(2) by simp
    then have e: "(al, ptr) \<in> set (i_map (impls (mem s) i))" by (cases prev) auto
    have "intact s i" unfolding intact_def using pt l(1) by fastforce
    with D(4) e obtain pid where "ptr = Some pid" by (cases ptr) auto
    with D(3)[of al pid i] e show ?thesis by (auto simp: has_pool_def)
  qed
  show "\<not> in_stop pt"
  proof
    assume "in_stop pt"
    then show False
    proof (cases pt)
      case (Stop_next i prev)
      with step no_null[OF Stop_next] show False by (auto split: list.splits option.splits prod.splits)
    qed (use step in \<open>auto split: if_splits\<close>)
  qed
  then show "\<exists>i cmd res err. pt = Exec_call i None cmd res err \<and> \<not> intact s i" if "f = Null_pool"
    using step that D(5)[OF pt]
    by (cases pt) (auto simp: Let_def has_pool_def bind_eq_None_conv split: if_splits sum.splits option.splits prod.splits)
qed

lemma outside_step_pools:
  assumes "\<not> facade_op op"
  shows "pools (outside_step bx op w) pid = None \<longleftrightarrow> pools w pid = None"
    and "pools w pid = Some p \<Longrightarrow> \<exists>p'. pools (outside_step bx op w) pid = Some p' \<and> co p' = co p \<and> closed p' = closed p"
  using assms
  by (cases op; auto simp: outside_step_def on_pool_def closed_lambda_def Let_def connection_ready_def
      next_event_def add_idle_connection_def connection_terminated_def pool_connection_error_def erase_connection_def
      clear_queue_def split: option.splits prod.splits list.splits if_splits)+

lemma impls_inv_begin:
  assumes "impls_inv N s" and "at_point s t = None" "t < N" and "\<not> in_stop pt" "point_impl pt = None"
  shows "impls_inv N (s\<lparr>at_point := (at_point s)(t := Some pt)\<rparr>)"
proof (rule impls_invI)
  fix u pu assume "at_point (s\<lparr>at_point := (at_point s)(t := Some pt)\<rparr>) u = Some pu"
  then have "u = t \<and> pu = pt \<or> u \<noteq> t \<and> at_point s u = Some pu" by (auto split: if_splits)
  then show "u < N \<and> stop_ok pu (mem (s\<lparr>at_point := (at_point s)(t := Some pt)\<rparr>)) \<and>
      (in_stop pu \<longrightarrow> svc_lock (s\<lparr>at_point := (at_point s)(t := Some pt)\<rparr>) = Some u) \<and>
      (\<forall>i. point_impl pu = Some i \<longrightarrow> i < next_io (wld (mem (s\<lparr>at_point := (at_point s)(t := Some pt)\<rparr>))))"
    using impls_invD(1-3)[OF assms(1), of u pu] assms(3-5) by (auto simp: not_stop_ok)
next
  fix u assume "svc_lock (s\<lparr>at_point := (at_point s)(t := Some pt)\<rparr>) = Some u"
  with impls_invD(4)[OF assms(1), of u] assms(2)
  show "\<exists>pu. at_point (s\<lparr>at_point := (at_point s)(t := Some pt)\<rparr>) u = Some pu \<and> in_stop pu" by auto
qed (simp_all, (use impls_invD(5-7)[OF assms(1)] in blast)+)

lemma start_points: "\<not> in_stop (svc_start op)" "point_impl (svc_start op) = None" "closes_impl (svc_start op) = None"
  "map_ok it m (svc_start op)"
  by (cases op; simp)+

lemma intact_begin:
  assumes "at_point s t = None" and "closes_impl pt = None"
  shows "intact (s\<lparr>at_point := (at_point s)(t := Some pt)\<rparr>) = intact s"
proof
  fix i
  have "(\<exists>u pu. ((at_point s)(t := Some pt)) u = Some pu \<and> closes_impl pu = Some i) \<longleftrightarrow>
      (\<exists>u pu. at_point s u = Some pu \<and> closes_impl pu = Some i)"
    using assms by (metis fun_upd_apply option.distinct(1) option.inject)
  then show "intact (s\<lparr>at_point := (at_point s)(t := Some pt)\<rparr>) i = intact s i" by (simp add: intact_def)
qed

lemma svc_threads_inv: "svc_threads bx N s b \<Longrightarrow> impls_inv N s \<and> maps_inv s"
proof (induction rule: svc_threads.induct)
  case nobody
  show ?case by (simp add: impls_inv_def maps_inv_def initial_mem_def initial_world_def reg_wf_def)
next
  case (begins s b t op)
  let ?s = "s\<lparr>at_point := (at_point s)(t := Some (svc_start op))\<rparr>"
  have "intact ?s = intact s" using begins(3) start_points(3) by (rule intact_begin)
  moreover have "maps_inv s" using begins by simp
  ultimately have "maps_inv ?s" using start_points(4)
    unfolding maps_inv_def by auto
  with impls_inv_begin[of N s t "svc_start op"] begins start_points show ?case by simp
next
  case (moves s b t pt m out "next")
  then have i: "impls_inv N (after_go t pt m next s)"
    using impls_inv_stop_step[of N s t pt bx m out "next"] impls_inv_step[of N s t pt bx m out "next"]
    by (cases "in_stop pt") auto
  with moves maps_inv_step[of N s t pt bx m out "next"] show ?case by simp
next
  case (throws s b t pt f)
  then have "\<not> in_stop pt" using svc_step_fault(1)[of N s t pt bx f] by simp
  with throws impls_inv_throw[of N s t pt] have i: "impls_inv N (after_go t pt (mem s) None s)" by simp
  have "intact (after_go t pt (mem s) None s) j \<Longrightarrow> intact s j" for j
    by (auto simp: intact_def split: if_splits)
  moreover from this have "map_ok (intact (after_go t pt (mem s) None s)) (mem s) pu"
    if "map_ok (intact s) (mem s) pu" for pu
    by (rule_tac map_ok_kept[OF that]) (auto simp: pools_kept_def)
  moreover have "maps_inv s" using throws by simp
  ultimately have "maps_inv (after_go t pt (mem s) None s)"
    unfolding maps_inv_def after_go_sel by (auto simp: fun_upd_apply split: if_split_asm)
  with i show ?case ..
next
  case (outside s b op)
  let ?s = "s\<lparr>mem := (mem s)\<lparr>wld := outside_step bx op (wld (mem s))\<rparr>\<rparr>"
  note o = outside_step_next[OF outside(2)] outside_step_pools[OF outside(2)]
  have same: "stop_ok pt ((mem s)\<lparr>wld := w\<rparr>) = stop_ok pt (mem s)" for pt w by (cases pt) simp_all
  have inv: "impls_inv N s" "maps_inv s" using outside by simp_all
  have "impls_inv N ?s = impls_inv N s" by (simp add: impls_inv_def same o(1))
  with inv(1) have "impls_inv N ?s" by simp
  moreover have "maps_inv ?s"
  proof -
    have it: "intact ?s = intact s" by (simp add: intact_def fun_eq_iff)
    have kept: "pools_kept (wld (mem s)) (outside_step bx op (wld (mem s)))"
      using o(4) by (fastforce simp: pools_kept_def)
    have ok: "map_ok (intact s) (mem ?s) pt" if "map_ok (intact s) (mem s) pt" for pt
      by (rule map_ok_kept[OF that]) (use kept in \<open>auto simp: map_keys_def\<close>)
    show ?thesis
      unfolding maps_inv_def it
      using maps_invD[OF inv(2)] pools_kept_has[OF kept] ok by (auto simp: o(1,2,3))
  qed
  ultimately show ?case ..
qed

section \<open>Where the pools are\<close>

fun held_at :: "svc_point \<Rightarrow> pool_id multiset" where
  "held_at (Add_insert _ _ pid) = {#pid#}"
| "held_at _ = {#}"

text \<open>The pools that the maps of all implementations name.\<close>

definition registered :: "svc_mem \<Rightarrow> pool_id multiset" where
  "registered m = (\<Sum>i<next_io (wld m). pids_of (i_map (impls m i)))"

lemma pids_of_Nil [simp]: "pids_of [] = {#}"
  by (simp add: pids_of_def map_filter_simps)

lemma pids_of_Cons: "pids_of ((al, x) # m) = (case x of None \<Rightarrow> {#} | Some pid \<Rightarrow> {#pid#}) + pids_of m"
  by (simp add: pids_of_def map_filter_simps split: option.split)

lemma pids_of_insert:
  "reg_wf m \<Longrightarrow> pids_of (map_insert al x m) =
     (if al \<in> fst ` set m then {#} else case x of None \<Rightarrow> {#} | Some pid \<Rightarrow> {#pid#}) + pids_of m"
proof (induction al x m rule: map_insert.induct)
  case (2 k v k' v' m)
  then have "reg_wf m" "k < k' \<Longrightarrow> k \<notin> fst ` set m" by (auto simp: reg_wf_def)
  with 2 show ?case by (auto simp: pids_of_Cons split: option.split)
qed (simp add: pids_of_Cons)

lemma in_pids_of: "pid \<in># pids_of m \<longleftrightarrow> (\<exists>al. (al, Some pid) \<in> set m)"
proof (induction m)
  case (Cons e m)
  obtain al x where "e = (al, x)" by fastforce
  with Cons show ?case by (auto simp: pids_of_Cons split: option.splits)
qed simp

lemma on_impl_sel [simp]: "wld (on_impl i f m) = wld m" "cur (on_impl i f m) = cur m"
  by (simp_all add: on_impl_def)

lemma registered_on_impl:
  assumes "i < next_io (wld m)"
  shows "registered (on_impl i f m) + pids_of (i_map (impls m i)) = registered m + pids_of (i_map (f (impls m i)))"
proof -
  let ?R = "\<Sum>j\<in>{..<next_io (wld m)} - {i}. pids_of (i_map (impls m j))"
  have "registered m = pids_of (i_map (impls m i)) + ?R"
    unfolding registered_def using assms by (intro sum.remove) auto
  moreover have "registered (on_impl i f m) = pids_of (i_map (f (impls m i))) +
      (\<Sum>j\<in>{..<next_io (wld m)} - {i}. pids_of (i_map (impls (on_impl i f m) j)))"
    unfolding registered_def using assms by (subst sum.remove[of _ i]) (auto simp: on_impl_def)
  moreover have "(\<Sum>j\<in>{..<next_io (wld m)} - {i}. pids_of (i_map (impls (on_impl i f m) j))) = ?R"
    by (rule sum.cong) (auto simp: on_impl_def)
  ultimately show ?thesis by (simp add: ac_simps)
qed

lemma registered_same [simp]:
  "next_io w = next_io (wld m) \<Longrightarrow> registered (m\<lparr>wld := w\<rparr>) = registered m"
  "registered (m\<lparr>cur := c\<rparr>) = registered m"
  by (simp_all add: registered_def)

lemma map_of_keys: "map_of m k = None \<longleftrightarrow> k \<notin> fst ` set m"
  by (rule map_of_eq_None_iff)

lemma upt_new: "m \<le> n \<Longrightarrow> mset [0..<n] = mset [0..<m] + mset [m..<n]"
  using upt_add_eq_append[of 0 m "n - m"] by simp

lemma svc_step_books:
  assumes step: "svc_point_step bx pt m = Inr (m', out, next)"
    and wf: "\<And>i. reg_wf (i_map (impls m i))" and impl: "\<And>i. point_impl pt = Some i \<Longrightarrow> i < next_io (wld m)"
  shows "mset [next_pool (wld m)..<next_pool (wld m')] + held_at pt + registered m =
    (case next of None \<Rightarrow> {#} | Some pt' \<Rightarrow> held_at pt') + registered m' + refused_at pt m + cleared_at pt m"
    and "next_pool (wld m) \<le> next_pool (wld m')"
proof -
  have upd: "registered (on_impl i f m) + pids_of (i_map (impls m i)) =
      registered m + pids_of (i_map (f (impls m i)))" if "point_impl pt = Some i" for i f
    using impl[OF that] by (rule registered_on_impl)
  show "next_pool (wld m) \<le> next_pool (wld m')"
    using step by (cases pt) (auto simp: on_impl_def Let_def split: if_splits sum.splits option.splits prod.splits list.splits)
  show "mset [next_pool (wld m)..<next_pool (wld m')] + held_at pt + registered m =
      (case next of None \<Rightarrow> {#} | Some pt' \<Rightarrow> held_at pt') + registered m' + refused_at pt m + cleared_at pt m"
  proof (cases pt)
    case (Fetch op)
    have h: "held_at pn = {#}" if "after_fetch op i = Some pn" for pn i using that by (cases op) auto
    have r: "registered \<lparr>cur = c, impls = (impls m)(next_io (wld m) := \<lparr>i_size = k, i_map = [], i_state = st\<rparr>),
        wld = (wld m)\<lparr>next_io := Suc (next_io (wld m))\<rparr>\<rparr> = registered m" for c k st
      by (simp add: registered_def)
    from step Fetch h r show ?thesis by (auto simp: Let_def split: option.splits)
  next
    case (Add_insert i al pid)
    then have "m' = on_impl i (\<lambda>x. x\<lparr>i_map := map_insert al (Some pid) (i_map x)\<rparr>) m" "next = Some (Add_return i al)"
      using step by auto
    with Add_insert upd[of i "\<lambda>x. x\<lparr>i_map := map_insert al (Some pid) (i_map x)\<rparr>"] wf[of i] show ?thesis
      by (cases "al \<in> fst ` set (i_map (impls m i))") (simp_all add: pids_of_insert map_of_keys)
  next
    case (Add_return i al)
    then have "m' = on_impl i (\<lambda>x. x\<lparr>i_map := snd (subscript al (i_map x))\<rparr>) m" "next = None"
      using step by auto
    with Add_return upd[of i "\<lambda>x. x\<lparr>i_map := snd (subscript al (i_map x))\<rparr>"] wf[of i] show ?thesis
      by (cases "al \<in> fst ` set (i_map (impls m i))") (simp_all add: pids_of_insert subscript_map)
  next
    case (Exec_lookup i al cmd res err)
    then have "m' = on_impl i (\<lambda>x. x\<lparr>i_map := snd (subscript al (i_map x))\<rparr>) m" "(case next of None \<Rightarrow> {#} | Some pt' \<Rightarrow> held_at pt') = {#}"
      using step by auto
    with Exec_lookup upd[of i "\<lambda>x. x\<lparr>i_map := snd (subscript al (i_map x))\<rparr>"] wf[of i] show ?thesis
      by (cases "al \<in> fst ` set (i_map (impls m i))") (simp_all add: pids_of_insert subscript_map)
  next
    case (Stop_state i)
    with step upd[of i "\<lambda>x. x\<lparr>i_state := Svc_closing\<rparr>"] show ?thesis by (auto split: if_splits)
  next
    case (Stop_clear i)
    with step upd[of i "\<lambda>x. x\<lparr>i_map := []\<rparr>"] show ?thesis by auto
  qed (use step in \<open>auto simp: Let_def split: if_splits sum.splits option.splits prod.splits list.splits\<close>)
qed

definition pools_accounted :: "nat \<Rightarrow> shared_service \<Rightarrow> svc_book \<Rightarrow> bool" where
  "pools_accounted N s b \<longleftrightarrow> mset [0..<next_pool (wld (mem s))] =
     all_threads N held_at (at_point s) + registered (mem s) + b_refused b + b_cleared b"

lemma svc_threads_accounted: "svc_threads bx N s b \<Longrightarrow> pools_accounted N s b"
proof (induction rule: svc_threads.induct)
  case nobody
  show ?case by (simp add: pools_accounted_def registered_def initial_mem_def initial_world_def)
next
  case (begins s b t op)
  have "held_at (svc_start op) = {#}" by (cases op) simp_all
  with begins all_threads_update[OF begins(2), of held_at "at_point s" "Some (svc_start op)"]
    all_threads_split[OF begins(2), of held_at "at_point s"]
  show ?case by (simp add: pools_accounted_def)
next
  case (moves s b t pt m out "next")
  have inv: "impls_inv N s" "maps_inv s" using svc_threads_inv[OF moves(1)] by auto
  have b: "mset [next_pool (wld (mem s))..<next_pool (wld m)] + held_at pt + registered (mem s) =
      (case next of None \<Rightarrow> {#} | Some pt' \<Rightarrow> held_at pt') + registered m + refused_at pt (mem s) + cleared_at pt (mem s)"
    "next_pool (wld (mem s)) \<le> next_pool (wld m)"
    using svc_step_books[OF moves(5) maps_invD(1)[OF inv(2)] impls_invD(3)[OF inv(1) moves(3)]] by auto
  define others where "others = all_threads N held_at ((at_point s)(t := None))"
  have t: "all_threads N held_at (at_point s) = held_at pt + others"
    "all_threads N held_at ((at_point s)(t := next)) = (case next of None \<Rightarrow> {#} | Some pt' \<Rightarrow> held_at pt') + others"
    using all_threads_update[OF moves(2), of held_at "at_point s" "next"]
      all_threads_split[OF moves(2), of held_at "at_point s"] moves(3) by (simp_all add: others_def)
  have "mset [0..<next_pool (wld m)] = mset [0..<next_pool (wld (mem s))] +
      mset [next_pool (wld (mem s))..<next_pool (wld m)]" by (rule upt_new[OF b(2)])
  also have "\<dots> = (mset [next_pool (wld (mem s))..<next_pool (wld m)] + held_at pt + registered (mem s)) +
      others + b_refused b + b_cleared b"
    using moves(6) t(1) by (simp add: pools_accounted_def ac_simps)
  finally show ?case
    unfolding pools_accounted_def after_go_sel t(2) b(1) by (simp add: enter_svc_book_def ac_simps)
next
  case (throws s b t pt f)
  have "held_at pt = {#}" using throws(5) by (cases pt) auto
  with throws all_threads_split[OF throws(2), of held_at "at_point s"]
  show ?case by (simp add: pools_accounted_def)
next
  case (outside s b op)
  with outside_step_next[OF outside(2)] show ?case by (simp add: pools_accounted_def)
qed

text \<open>So no pool is in two places.\<close>

lemma one_place:
  assumes "pools_accounted N s b"
  shows "count (all_threads N held_at (at_point s)) pid + count (registered (mem s)) pid + count (b_refused b) pid +
    count (b_cleared b) pid \<le> 1"
proof -
  have "count (mset [0..<next_pool (wld (mem s))]) pid \<le> 1"
    using distinct_count_atmost_1[of "[0..<next_pool (wld (mem s))]"] by (metis distinct_upt le_refl zero_le)
  with assms show ?thesis by (simp only: pools_accounted_def count_union add.assoc)
qed

section \<open>Which pools are open\<close>

definition is_open :: "world \<Rightarrow> pool_id \<Rightarrow> bool" where
  "is_open w pid \<longleftrightarrow> (\<exists>p. pools w pid = Some p \<and> \<not> closed p)"

text \<open>Only the loop of \<^verbatim>\<open>stop\<close> closes a pool.\<close>

lemma svc_step_open:
  assumes "svc_point_step bx pt m = Inr (m', out, next)" and "is_open (wld m) pid"
    and "\<forall>pid. pools (wld m) pid \<noteq> None \<longleftrightarrow> pid < next_pool (wld m)"
    and "\<not> is_open (wld m') pid"
  obtains i prev al where "pt = Stop_next i prev" "(al, Some pid) \<in> set (i_map (impls m i))"
proof (cases pt)
  case (Stop_next i prev)
  have l: "(al, x) \<in> set (i_map (impls m i))" if "entries_after prev (i_map (impls m i)) = (al, x) # r" for al x r
  proof -
    have "(al, x) \<in> set (entries_after prev (i_map (impls m i)))" by (simp add: that)
    then show ?thesis by (cases prev) auto
  qed
  show ?thesis
  proof (cases "entries_after prev (i_map (impls m i))")
    case Nil
    with assms Stop_next show ?thesis by simp
  next
    case (Cons e r)
    obtain al x where e: "e = (al, x)" by fastforce
    with assms Stop_next Cons have "x = Some pid"
      by (auto simp: is_open_def bind_eq_Some_conv split: option.splits prod.splits if_splits)
    with l[OF Cons[unfolded e]] Stop_next that show ?thesis by blast
  qed
next
  case (Add_create i opts n)
  have "pid \<noteq> next_pool (wld m)" using assms(2,3) by (auto simp: is_open_def)
  with assms Add_create show ?thesis
    by (auto simp: is_open_def Let_def split: sum.splits prod.splits)
next
  case (Exec_call i ptr cmd res err)
  with assms show ?thesis
    by (auto simp: is_open_def Let_def bind_eq_Some_conv get_connection_co split: sum.splits prod.splits option.splits if_splits)
qed (use assms in \<open>auto simp: is_open_def Let_def split: if_splits sum.splits option.splits prod.splits\<close>)

definition open_inv :: "shared_service \<Rightarrow> svc_book \<Rightarrow> bool" where
  "open_inv s b \<longleftrightarrow>
     (\<forall>pid. pid \<in># b_refused b \<longrightarrow> is_open (wld (mem s)) pid) \<and>
     (\<forall>t pt pid. at_point s t = Some pt \<longrightarrow> pid \<in># held_at pt \<longrightarrow> is_open (wld (mem s)) pid) \<and>
     (\<forall>i al pid. i_state (impls (mem s) i) = Svc_running \<longrightarrow> (al, Some pid) \<in> set (i_map (impls (mem s) i)) \<longrightarrow>
        is_open (wld (mem s)) pid)"

lemma in_registered:
  assumes "(al, Some pid) \<in> set (i_map (impls m i))" and "i < next_io (wld m)"
  shows "pid \<in># registered m"
proof -
  have "registered m = pids_of (i_map (impls m i)) + (\<Sum>j\<in>{..<next_io (wld m)} - {i}. pids_of (i_map (impls m j)))"
    unfolding registered_def using assms(2) by (intro sum.remove) auto
  moreover have "pid \<in># pids_of (i_map (impls m i))" using assms(1) by (auto simp: in_pids_of)
  ultimately show ?thesis by simp
qed

lemma in_held:
  assumes "at_point s t = Some pt" "t < N" "pid \<in># held_at pt"
  shows "pid \<in># all_threads N held_at (at_point s)"
  using all_threads_split[OF assms(2), of held_at "at_point s"] assms by simp

lemma kept_open:
  assumes inv: "impls_inv N s" "maps_inv s" "pools_accounted N s b" and pt: "at_point s t = Some pt"
    and step: "svc_point_step bx pt (mem s) = Inr (m, out, next)"
    and pid: "is_open (wld (mem s)) pid" "pid \<in># b_refused b \<or> pid \<in># all_threads N held_at (at_point s)"
  shows "is_open (wld m) pid"
proof (rule ccontr)
  assume c: "\<not> is_open (wld m) pid"
  obtain i prev al where "pt = Stop_next i prev" "(al, Some pid) \<in> set (i_map (impls (mem s) i))"
    by (rule svc_step_open[OF step pid(1) _ c]) (use maps_invD(6)[OF inv(2)] in blast)+
  with impls_invD(3)[OF inv(1) pt, of i] have "pid \<in># registered (mem s)" by (auto intro: in_registered)
  then have "0 < count (registered (mem s)) pid" by simp
  moreover have "0 < count (b_refused b) pid + count (all_threads N held_at (at_point s)) pid"
    using pid(2) by auto
  ultimately show False using one_place[OF inv(3), of pid] by linarith
qed

lemma open_inv_step:
  assumes inv: "impls_inv N s" "maps_inv s" "pools_accounted N s b" "open_inv s b" and pt: "at_point s t = Some pt"
    and step: "svc_point_step bx pt (mem s) = Inr (m, out, next)"
  shows "open_inv (after_go t pt m next s) (enter_svc_book pt (mem s) b)"
proof -
  have held: "is_open (wld (mem s)) pid \<and> pid \<in># all_threads N held_at (at_point s)"
    if "at_point s u = Some pu" "pid \<in># held_at pu" for u pu pid
    using inv(4) that in_held[OF that(1) _ that(2)] impls_invD(1)[OF inv(1) that(1)] by (auto simp: open_inv_def)
  note kept = kept_open[OF inv(1-3) pt step]
  have mine: "is_open (wld m) pid" if "next = Some pn" "pid \<in># held_at pn" for pn pid
  proof (cases pt)
    case (Fetch op)
    with step that show ?thesis by (cases op) (auto simp: Let_def split: option.splits)
  next
    case (Add_create i opts n)
    with step that show ?thesis by (auto simp: Let_def pool_create_Inr is_open_def split: sum.splits prod.splits)
  qed (use step that in \<open>auto simp: Let_def split: if_splits sum.splits option.splits prod.splits list.splits\<close>)
  have refused: "pid \<in># held_at pt" if "pid \<in># refused_at pt (mem s)" for pid
    using that by (cases pt) (auto split: if_splits)
  have running: "is_open (wld m) pid"
    if r: "i_state (impls m i) = Svc_running" "(al, Some pid) \<in> set (i_map (impls m i))" for i al pid
  proof (cases "i < next_io (wld (mem s))")
    case True
    from states_forward[OF inv(1) pt step True] r(1) have r0: "i_state (impls (mem s) i) = Svc_running" by simp
    from svc_step_entries(2)[OF step maps_invD(1)[OF inv(2)] disjI1[OF True] r(2)]
    consider "(al, Some pid) \<in> set (i_map (impls (mem s) i))" | "pt = Add_insert i al pid" by auto
    then show ?thesis
    proof cases
      case 1
      with inv(4) r0 have o: "is_open (wld (mem s)) pid" by (auto simp: open_inv_def)
      show ?thesis
      proof (rule ccontr)
        assume c: "\<not> is_open (wld m) pid"
        obtain j prev al' where j: "pt = Stop_next j prev" "(al', Some pid) \<in> set (i_map (impls (mem s) j))"
          by (rule svc_step_open[OF step o _ c]) (use maps_invD(6)[OF inv(2)] in blast)+
        with impls_invD(1)[OF inv(1) pt] impls_invD(6)[OF inv(1) r0] r0 show False by auto
      qed
    next
      case 2
      with held[OF pt, of pid] kept[of pid] show ?thesis by simp
    qed
  next
    case False
    with new_map_empty[OF inv(1,2) pt step, of i] r(2) show ?thesis by simp
  qed
  show ?thesis
    unfolding open_inv_def after_go_sel
  proof (intro conjI allI impI)
    fix pid assume "pid \<in># b_refused (enter_svc_book pt (mem s) b)"
    then consider "pid \<in># b_refused b" | "pid \<in># held_at pt" using refused by (auto simp: enter_svc_book_def)
    then show "is_open (wld m) pid"
      by cases (use inv(4) kept[of pid] held[OF pt, of pid] in \<open>auto simp: open_inv_def\<close>)
  next
    fix u pu pid assume "((at_point s)(t := next)) u = Some pu" "pid \<in># held_at pu"
    with mine[of pu pid] held[of u pu pid] kept[of pid] show "is_open (wld m) pid" by (cases "u = t") auto
  qed (use running in blast)
qed

lemma svc_threads_open: "svc_threads bx N s b \<Longrightarrow> open_inv s b"
proof (induction rule: svc_threads.induct)
  case (begins s b t op)
  have "held_at (svc_start op) = {#}" by (cases op) simp_all
  with begins show ?case by (auto simp: open_inv_def)
next
  case (moves s b t pt m out "next")
  with svc_threads_inv[OF moves(1)] svc_threads_accounted[OF moves(1)] show ?case by (auto intro: open_inv_step)
next
  case (outside s b op)
  have "is_open (outside_step bx op w) pid" if "is_open w pid" for w pid
    using that outside_step_pools(2)[OF outside(2)] by (fastforce simp: is_open_def)
  with outside show ?case by (auto simp: open_inv_def)
qed (auto simp: open_inv_def initial_mem_def)

text \<open>A closed pool is in the map of an implementation that is not running, or was cleared from one.\<close>

lemma in_held_at:
  assumes "pid \<in># all_threads N held_at pts"
  obtains t pt where "t < N" "pts t = Some pt" "pid \<in># held_at pt"
proof -
  have "\<exists>t\<in>{..<N}. pid \<in># (case pts t of None \<Rightarrow> 0 | Some pt \<Rightarrow> held_at pt)"
    using assms unfolding all_threads_def by (subst (asm) set_mset_sum) auto
  with that show thesis by (auto split: option.splits)
qed

lemma closed_pools:
  assumes run: "svc_threads bx N s b" and pid: "pools (wld (mem s)) pid = Some p" "closed p"
  shows "pid \<in># b_cleared b \<or> (\<exists>i. i_state (impls (mem s) i) \<noteq> Svc_running \<and> pid \<in># pids_of (i_map (impls (mem s) i)))"
proof -
  note inv = svc_threads_inv[OF run, THEN conjunct2] svc_threads_accounted[OF run] svc_threads_open[OF run]
  have shut: "\<not> is_open (wld (mem s)) pid" using pid by (simp add: is_open_def)
  have "pid < next_pool (wld (mem s))" using maps_invD(6)[OF inv(1), of pid] pid(1) by simp
  then have "pid \<in># mset [0..<next_pool (wld (mem s))]" by simp
  with inv(2) have "pid \<in># all_threads N held_at (at_point s) + registered (mem s) + b_refused b + b_cleared b"
    unfolding pools_accounted_def by metis
  then consider "pid \<in># all_threads N held_at (at_point s)" | "pid \<in># registered (mem s)" | "pid \<in># b_refused b"
    | "pid \<in># b_cleared b" by auto
  then show ?thesis
  proof cases
    case 1
    then obtain t pt where "at_point s t = Some pt" "pid \<in># held_at pt" by (rule in_held_at)
    with inv(3) shut show ?thesis by (auto simp: open_inv_def)
  next
    case 2
    have "\<exists>i\<in>{..<next_io (wld (mem s))}. pid \<in># pids_of (i_map (impls (mem s) i))"
      using 2 unfolding registered_def by (subst (asm) set_mset_sum) auto
    then obtain i where i: "pid \<in># pids_of (i_map (impls (mem s) i))" by blast
    then obtain al where "(al, Some pid) \<in> set (i_map (impls (mem s) i))" by (auto simp: in_pids_of)
    with inv(3) shut have "i_state (impls (mem s) i) \<noteq> Svc_running" by (auto simp: open_inv_def)
    with i show ?thesis by blast
  next
    case 3
    with inv(3) shut show ?thesis by (auto simp: open_inv_def)
  qed simp
qed

section \<open>No thread waits forever\<close>

text \<open>
  An entry that is added to a map lengthens the loop of \<^verbatim>\<open>stop\<close> by one, so that a thread outside \<^verbatim>\<open>stop\<close>
  counts for each of its steps one more than there are threads.
\<close>

definition svc_weight :: "nat \<Rightarrow> svc_mem \<Rightarrow> svc_point \<Rightarrow> nat" where
  "svc_weight N m pt = (if in_stop pt \<or> pt = Stop_fetch then 1 else N + 1) * svc_steps_left pt m"

definition svc_work :: "nat \<Rightarrow> shared_service \<Rightarrow> nat" where
  "svc_work N s = all_threads N (svc_weight N (mem s)) (at_point s)"

fun inserts :: "svc_point \<Rightarrow> bool" where
  "inserts (Add_insert _ _ _) = True"
| "inserts (Add_return _ _) = True"
| "inserts (Exec_lookup _ _ _ _ _) = True"
| "inserts _ = False"

lemma later_insert: "length (entries_after prev (map_insert k v m)) \<le> Suc (length (entries_after prev m))"
  by (induction k v m rule: map_insert.induct) (cases prev; auto)+

lemma step_later:
  assumes "svc_point_step bx pt m = Inr (m', out, next)"
  shows "length (entries_after prev (i_map (impls m' i))) \<le> length (entries_after prev (i_map (impls m i))) + (if inserts pt then 1 else 0)"
proof (cases "\<exists>op. pt = Fetch op")
  case True
  with assms show ?thesis by (cases prev) (auto simp: Let_def split: option.splits)
next
  case False
  then have "i < next_io (wld m) \<or> (\<forall>op. pt \<noteq> Fetch op)" by blast
  from svc_step_map[OF assms this] show ?thesis
    using later_insert[of prev] by (cases pt; cases prev) (auto simp: subscript_map)
qed

lemma step_others_left:
  assumes "svc_point_step bx pt m = Inr (m', out, next)"
  shows "svc_steps_left pu m' \<le> svc_steps_left pu m + (if inserts pt then 1 else 0)"
proof -
  have l: "length (entries_after prev (i_map (impls m' i))) \<le> length (entries_after prev (i_map (impls m i))) + (if inserts pt then 1 else 0)"
    for prev i by (rule step_later[OF assms])
  note size = l[where prev = None, unfolded entries_after.simps, folded map_size_def]
  have fetch: "(case cur m' of None \<Rightarrow> 0 | Some i \<Rightarrow> map_size i m') \<le>
      (case cur m of None \<Rightarrow> 0 | Some i \<Rightarrow> map_size i m) + (if inserts pt then 1 else 0)"
  proof (cases "cur m' = cur m")
    case True
    with size show ?thesis by (auto split: option.split)
  next
    case False
    with assms show ?thesis
      by (cases pt) (auto simp: Let_def on_impl_def map_size_def split: option.splits if_splits sum.splits prod.splits list.splits)
  qed
  show ?thesis
    by (cases pu; use size l fetch in \<open>auto simp del: entries_after.simps\<close>)
qed

lemma svc_steps_left_pos: "0 < svc_steps_left pt m"
  by (cases pt) simp_all

lemma weight_others:
  assumes "svc_point_step bx pt m = Inr (m', out, next)"
  shows "svc_weight N m' pu \<le> svc_weight N m pu + (if inserts pt then 1 else 0)"
proof (cases "in_stop pu \<or> pu = Stop_fetch")
  case True
  with step_others_left[OF assms, of pu] show ?thesis by (simp add: svc_weight_def)
next
  case False
  then have "svc_steps_left pu m' = svc_steps_left pu m" by (cases pu) auto
  with False show ?thesis by (simp add: svc_weight_def)
qed

lemma weight_mine:
  assumes step: "svc_point_step bx pt m = Inr (m', out, next)"
  shows "(case next of None \<Rightarrow> 0 | Some pn \<Rightarrow> svc_weight N m' pn) + (if inserts pt then N + 1 else 1) \<le> svc_weight N m pt"
proof -
  define k where "k = (if in_stop pt \<or> pt = Stop_fetch then 1 else N + 1)"
  have k: "(if inserts pt then N + 1 else 1) \<le> k" by (cases pt) (simp_all add: k_def)
  have n: "svc_weight N m' pn = k * svc_steps_left pn m'" if "next = Some pn" for pn
  proof -
    have "pn \<noteq> Stop_fetch"
    proof (cases pt)
      case (Fetch op)
      with step that show ?thesis by (cases op) (auto simp: Let_def split: option.splits)
    qed (use step that in \<open>auto simp: Let_def split: if_splits sum.splits option.splits prod.splits list.splits\<close>)
    moreover have "in_stop pn \<longleftrightarrow> in_stop pt \<or> pt = Stop_fetch"
    proof (cases "\<exists>op. pt = Fetch op")
      case True
      then obtain op where op: "pt = Fetch op" by auto
      show ?thesis by (rule fetch_step[OF step[unfolded op]]) (use op that after_fetch_point in auto)
    next
      case False
      with next_point(1)[OF step[unfolded that]] show ?thesis by auto
    qed
    ultimately show ?thesis by (simp add: svc_weight_def k_def)
  qed
  have p: "svc_weight N m pt = k * svc_steps_left pt m" by (simp add: svc_weight_def k_def)
  have "(case next of None \<Rightarrow> 0 | Some pn \<Rightarrow> svc_steps_left pn m') + 1 \<le> svc_steps_left pt m"
    using svc_point_step_nearer[of bx pt m m' out] step svc_steps_left_pos[of pt m] by (cases "next") auto
  then have "k * ((case next of None \<Rightarrow> 0 | Some pn \<Rightarrow> svc_steps_left pn m') + 1) \<le> k * svc_steps_left pt m"
    by (rule mult_le_mono2)
  moreover have "(case next of None \<Rightarrow> 0 | Some pn \<Rightarrow> svc_weight N m' pn) =
      k * (case next of None \<Rightarrow> 0 | Some pn \<Rightarrow> svc_steps_left pn m')"
    using n by (cases "next") auto
  ultimately show ?thesis using k p by simp
qed

lemma all_threads_mono:
  assumes "\<And>pu. f pu \<le> g pu + d"
  shows "all_threads N f pts \<le> all_threads N g pts + N * (d :: nat)"
proof -
  have "all_threads N f pts \<le> (\<Sum>t<N. (case pts t of None \<Rightarrow> 0 | Some pt \<Rightarrow> g pt) + d)"
    unfolding all_threads_def using assms by (intro sum_mono) (auto split: option.split)
  then show ?thesis by (simp add: all_threads_def sum.distrib)
qed

lemma svc_work_step:
  assumes t: "t < N" and pt: "at_point s t = Some pt"
    and step: "svc_point_step bx pt (mem s) = Inr (m, out, next)"
  shows "svc_work N (after_go t pt m next s) < svc_work N s"
proof -
  let ?pts = "(at_point s)(t := None)"
  have "svc_work N (after_go t pt m next s) =
      (case next of None \<Rightarrow> 0 | Some pn \<Rightarrow> svc_weight N m pn) + all_threads N (svc_weight N m) ?pts"
    using all_threads_update[OF t, of "svc_weight N m" "at_point s" "next"] by (simp add: svc_work_def)
  also have "\<dots> \<le> (case next of None \<Rightarrow> 0 | Some pn \<Rightarrow> svc_weight N m pn) +
      (all_threads N (svc_weight N (mem s)) ?pts + N * (if inserts pt then 1 else 0))"
    using all_threads_mono[OF weight_others[OF step, of N], where pts = ?pts and N = N] by simp
  also have "\<dots> < svc_weight N (mem s) pt + all_threads N (svc_weight N (mem s)) ?pts"
    using weight_mine[OF step, of N] by (auto split: if_splits)
  also have "\<dots> = svc_work N s"
    using all_threads_split[OF t, of "svc_weight N (mem s)" "at_point s"] pt by (simp add: svc_work_def)
  finally show ?thesis .
qed

lemma svc_work_throw:
  assumes t: "t < N" and pt: "at_point s t = Some pt"
  shows "svc_work N (after_go t pt (mem s) None s) < svc_work N s"
proof -
  have "0 < svc_weight N (mem s) pt" using svc_steps_left_pos[of pt "mem s"] by (simp add: svc_weight_def)
  with all_threads_split[OF t, of "svc_weight N (mem s)" "at_point s"] pt show ?thesis by (simp add: svc_work_def)
qed

lemma somebody_goes:
  assumes "impls_inv N s" and "at_point s t = Some pt"
  shows "\<exists>u pu. u < N \<and> at_point s u = Some pu \<and> may_go u pu s"
proof (cases "svc_lock s")
  case None
  with assms impls_invD(1)[OF assms] show ?thesis by (auto simp: may_go_def)
next
  case (Some u)
  from impls_invD(4)[OF assms(1) Some] obtain pu where "at_point s u = Some pu" by auto
  with Some impls_invD(1)[OF assms(1) this] show ?thesis by (auto simp: may_go_def)
qed

end
