(* ===== verification/Rd_Service_Races.thy ===== *)
theory Rd_Service_Races
  imports Rd_Service_Runs
begin

text \<open>
  Schedules of the threads of the facade, and those that break what holds when its operations come one
  after the other: two registrations of one alias, and operations that meet \<^verbatim>\<open>stop\<close> after they have fetched
  the implementation.
\<close>

section \<open>Schedules\<close>

datatype svc_turn =
  Call thread_id svc_op      \<comment> \<open>a thread calls an operation\<close>
| Go thread_id               \<comment> \<open>it makes one step\<close>

text \<open>What the threads have asked of the outside, and what was thrown at whom.\<close>

record svc_log =
  l_calls :: "out_call list"
  l_faults :: "(thread_id \<times> service_fault) list"

type_synonym svc_play = "shared_service \<times> svc_book \<times> svc_log"

fun svc_turn_step :: "boost_str \<Rightarrow> nat \<Rightarrow> svc_turn \<Rightarrow> svc_play \<Rightarrow> svc_play option" where
  "svc_turn_step bx N (Call t op) (s, b, l) =
     (if t < N \<and> at_point s t = None \<and> facade_op op
      then Some (s\<lparr>at_point := (at_point s)(t := Some (svc_start op))\<rparr>, b, l) else None)"
| "svc_turn_step bx N (Go t) (s, b, l) =
     (case at_point s t of
        None \<Rightarrow> None
      | Some pt \<Rightarrow>
          if t < N \<and> may_go t pt s
          then (case svc_point_step bx pt (mem s) of
                  Inl f \<Rightarrow> Some (after_go t pt (mem s) None s, b, l\<lparr>l_faults := l_faults l @ [(t, f)]\<rparr>)
                | Inr (m, out, next) \<Rightarrow>
                    Some (after_go t pt m next s, enter_svc_book pt (mem s) b, l\<lparr>l_calls := l_calls l @ out\<rparr>))
          else None)"

fun svc_turns :: "boost_str \<Rightarrow> nat \<Rightarrow> svc_turn list \<Rightarrow> svc_play \<Rightarrow> svc_play option" where
  "svc_turns bx N [] x = Some x"
| "svc_turns bx N (u # us) x = Option.bind (svc_turn_step bx N u x) (svc_turns bx N us)"

lemma svc_turn_run:
  "svc_turn_step bx N u (s, b, l) = Some (s', b', l') \<Longrightarrow> svc_threads bx N s b \<Longrightarrow> svc_threads bx N s' b'"
  by (cases u)
    (auto split: option.splits if_splits sum.splits prod.splits
      intro: svc_threads.begins svc_threads.moves svc_threads.throws)

lemma svc_turns_run:
  "svc_turns bx N us (s, b, l) = Some (s', b', l') \<Longrightarrow> svc_threads bx N s b \<Longrightarrow> svc_threads bx N s' b'"
proof (induction us arbitrary: s b l)
  case (Cons u us)
  then obtain s1 b1 l1 where "svc_turn_step bx N u (s, b, l) = Some (s1, b1, l1)"
    "svc_turns bx N us (s1, b1, l1) = Some (s', b', l')"
    by (auto simp: bind_eq_Some_conv)
  with Cons svc_turn_run show ?case by blast
qed simp

definition quiet_service :: "svc_mem \<Rightarrow> shared_service" where
  "quiet_service m = \<lparr>mem = m, svc_lock = None, at_point = (\<lambda>_. None)\<rparr>"

definition empty_log :: svc_log where
  "empty_log = \<lparr>l_calls = [], l_faults = []\<rparr>"

definition new_pool :: "nat \<Rightarrow> connection_options \<Rightarrow> conn_id \<Rightarrow> pool" where
  "new_pool n opts conn = \<lparr>pool_size = n, co = opts, connections = [conn], ready_connections = [], queue = [],
     closed = False, closed_callback = None\<rparr>"

lemma pool_create_usable:
  "n \<noteq> 0 \<Longrightarrow> uri opts \<noteq> [] \<Longrightarrow> usable opts \<Longrightarrow>
     pool_create n opts conn = Inr (new_pool n opts conn, [P_create conn])"
  by (simp add: pool_create_Inr usable_def new_pool_def)

section \<open>Two registrations of one alias\<close>

text \<open>Both find that the alias is not there before either inserts its pool.\<close>

definition double_registration :: "svc_op \<Rightarrow> svc_turn list" where
  "double_registration add =
     [Call 0 add, Go 0, Go 0, Go 0, Call 1 add, Go 1, Go 1, Go 1, Go 0, Go 0, Go 0, Go 1, Go 1, Go 1]"

lemmas svc_turn_defs = may_go_def after_go_def lock_after_def enter_svc_book_def quiet_service_def empty_log_def
  on_impl_def

lemma map_of_inserted: "map_of (map_insert k v m) k \<noteq> None"
  by (simp add: map_of_keys fst_set_map_insert)

lemma map_insert_again: "reg_wf m \<Longrightarrow> map_insert k v' (map_insert k v m) = map_insert k v m"
proof (induction k v m rule: map_insert.induct)
  case (2 k v k' v' m)
  then show ?case by (auto simp: reg_wf_def)
qed simp

lemma subscript_inserted: "snd (subscript k (map_insert k v m)) = map_insert k v m"
  using map_of_inserted[of k v m] by (auto simp: subscript_def)

lemma double_registration_race:
  assumes m: "cur m = Some i" "i_state (impls m i) = Svc_running" "map_of (i_map (impls m i)) (conn_alias opts) = None"
    "reg_wf (i_map (impls m i))"
    and opts: "uri opts \<noteq> []" "conn_alias opts \<noteq> []" "usable opts" "n \<noteq> 0"
  defines "w \<equiv> wld m"
  shows "svc_turns bx 2 (double_registration (S_add opts (Some n))) (quiet_service m, b, empty_log) =
    Some (quiet_service (m\<lparr>
        impls := (impls m)(i := (impls m i)\<lparr>i_map := map_insert (conn_alias opts) (Some (next_pool w)) (i_map (impls m i))\<rparr>),
        wld := w\<lparr>pools := (pools w)(next_pool w := Some (new_pool n opts (next_conn w)),
                    Suc (next_pool w) := Some (new_pool n opts (Suc (next_conn w)))),
                 next_pool := Suc (Suc (next_pool w)), next_conn := Suc (Suc (next_conn w))\<rparr>\<rparr>),
      b\<lparr>b_refused := add_mset (Suc (next_pool w)) (b_refused b)\<rparr>,
      \<lparr>l_calls = [(next_pool w, P_create (next_conn w)), (Suc (next_pool w), P_create (Suc (next_conn w)))],
       l_faults = []\<rparr>)"
  using assms map_of_inserted[of "conn_alias opts" "Some (next_pool w)" "i_map (impls m i)"]
  by (simp add: double_registration_def svc_turn_defs Let_def pool_create_usable subscript_inserted map_insert_again w_def)

section \<open>A thread that is left alone for a while\<close>

lemma svc_turns_append:
  "svc_turns bx N (us @ vs) x = Option.bind (svc_turns bx N us x) (svc_turns bx N vs)"
  by (induction us arbitrary: x) (auto split: bind_splits)

lemma go_alone:
  assumes "svc_alone bx pt (mem s) = (Inr out, m)" and "t < N" "at_point s t = Some pt"
    and "svc_lock s = None \<or> svc_lock s = Some t"
  shows "\<exists>k b'. svc_turns bx N (replicate k (Go t)) (s, b, l) =
    Some (\<lparr>mem = m, svc_lock = None, at_point = (at_point s)(t := None)\<rparr>, b', l\<lparr>l_calls := l_calls l @ out\<rparr>)"
  using assms
proof (induction "svc_steps_left pt (mem s)" arbitrary: pt s b l out rule: less_induct)
  case less
  from less(2) obtain m1 out1 next1 where step: "svc_point_step bx pt (mem s) = Inr (m1, out1, next1)"
    by (cases "svc_point_step bx pt (mem s)") (auto simp: svc_alone_step(1))
  let ?s = "after_go t pt m1 next1 s" and ?b = "enter_svc_book pt (mem s) b" and ?l = "l\<lparr>l_calls := l_calls l @ out1\<rparr>"
  have go: "svc_turn_step bx N (Go t) (s, b, l) = Some (?s, ?b, ?l)"
    using step less(3-5) by (auto simp: may_go_def)
  show ?case
  proof (cases next1)
    case None
    with less(2,5) step have "m1 = m" "out1 = out" "?s = \<lparr>mem = m, svc_lock = None, at_point = (at_point s)(t := None)\<rparr>"
      by (auto simp: svc_alone_step(2) after_go_def lock_after_def)
    with go have "svc_turns bx N (replicate 1 (Go t)) (s, b, l) =
      Some (\<lparr>mem = m, svc_lock = None, at_point = (at_point s)(t := None)\<rparr>, ?b, l\<lparr>l_calls := l_calls l @ out\<rparr>)"
      by simp
    then show ?thesis by blast
  next
    case (Some pn)
    obtain r m2 where alone: "svc_alone bx pn m1 = (r, m2)" by fastforce
    with less(2) step Some obtain out2 where rest: "r = Inr out2" "m2 = m" "out = out1 @ out2"
      by (cases r) (auto simp: svc_alone_step(3))
    have "svc_lock ?s = None \<or> svc_lock ?s = Some t" using less(5) Some by (auto simp: lock_after_def)
    with less(1)[of pn ?s out2 ?b ?l] svc_point_step_nearer[OF step[unfolded Some]] alone rest less(3) Some
    obtain k b' where k: "svc_turns bx N (replicate k (Go t)) (?s, ?b, ?l) =
        Some (\<lparr>mem = m, svc_lock = None, at_point = (at_point ?s)(t := None)\<rparr>, b', ?l\<lparr>l_calls := l_calls ?l @ out2\<rparr>)"
      by auto
    have "svc_turns bx N (replicate (Suc k) (Go t)) (s, b, l) =
        Some (\<lparr>mem = m, svc_lock = None, at_point = (at_point s)(t := None)\<rparr>, b', l\<lparr>l_calls := l_calls l @ out\<rparr>)"
      using go k rest(3) by simp
    then show ?thesis by blast
  qed
qed

section \<open>Operations that meet stop\<close>

text \<open>The memory after \<^verbatim>\<open>stop\<close>: the facade is empty, the implementation closing and its map cleared.\<close>

definition stopped_mem :: "svc_mem \<Rightarrow> redis_impl \<Rightarrow> world \<Rightarrow> svc_mem" where
  "stopped_mem m i w = m\<lparr>cur := None, wld := snd (fst (redis_impl_stop (i, w))),
     impls := (impls m)(io_svc i := \<lparr>i_size = default_size i, i_map = [], i_state = Svc_closing\<rparr>)\<rparr>"

definition with_stop :: "svc_turn list \<Rightarrow> nat \<Rightarrow> svc_turn list \<Rightarrow> svc_turn list" where
  "with_stop us k vs = us @ Call 1 S_stop # replicate k (Go 1) @ vs"

definition at_only :: "svc_mem \<Rightarrow> svc_point \<Rightarrow> shared_service" where
  "at_only m pt = \<lparr>mem = m, svc_lock = None, at_point = (\<lambda>_. None)(0 := Some pt)\<rparr>"

lemma stop_between:
  assumes "holds m (i, w)" and "rd_inv (Some i, w)"
    and pre: "svc_turns bx 2 us (quiet_service m, b, empty_log) = Some (at_only m pt, b1, l1)"
  shows "\<exists>k b2. \<forall>vs. svc_turns bx 2 (with_stop us k vs) (quiet_service m, b, empty_log) =
    svc_turns bx 2 vs (at_only (stopped_mem m i w) pt, b2, l1\<lparr>l_calls := l_calls l1 @ snd (redis_impl_stop (i, w))\<rparr>)"
proof -
  let ?s = "\<lparr>mem = m, svc_lock = None, at_point = (\<lambda>_. None)(0 := Some pt, 1 := Some Stop_fetch)\<rparr>"
  have "svc_alone bx Stop_fetch (mem ?s) = (Inr (snd (redis_impl_stop (i, w))), stopped_mem m i w)"
    using alone_Stop_fetch_mem[OF assms(1,2), of bx] by (auto simp: stopped_mem_def obj_of_def)
  from go_alone[OF this, of 1 2 b1 l1] obtain k b2 where
    k: "svc_turns bx 2 (replicate k (Go 1)) (?s, b1, l1) = Some (at_only (stopped_mem m i w) pt, b2,
      l1\<lparr>l_calls := l_calls l1 @ snd (redis_impl_stop (i, w))\<rparr>)"
    by (auto simp: at_only_def fun_upd_twist)
  have "svc_turn_step bx 2 (Call 1 S_stop) (at_only m pt, b1, l1) = Some (?s, b1, l1)"
    by (simp add: at_only_def)
  with pre k have "svc_turns bx 2 (with_stop us k vs) (quiet_service m, b, empty_log) =
    svc_turns bx 2 vs (at_only (stopped_mem m i w) pt, b2, l1\<lparr>l_calls := l_calls l1 @ snd (redis_impl_stop (i, w))\<rparr>)" for vs
    by (simp add: with_stop_def svc_turns_append)
  then show ?thesis by blast
qed

text \<open>Three meetings: after the alias was found, after the fetch, and after the alias was found to be free.\<close>

lemma stands_found:
  assumes "holds m (i, w)" and "rd_inv (Some i, w)"
  shows "cur m = Some (io_svc i)" "impls m (io_svc i) = obj_of i" "i_state (obj_of i) = Svc_running"
    "i_map (obj_of i) = obj_map (registry i)" "wld m = w"
  using assms by (auto simp: stands_def rd_inv_def impl_inv_def obj_of_def)

lemma request_meets_stop:
  assumes "holds m (i, w)" and "rd_inv (Some i, w)" and "map_of (registry i) al = Some pid"
  shows "\<exists>k b'. svc_turns bx 2 (with_stop [Call 0 (S_execute al cmd res err), Go 0, Go 0, Go 0] k [Go 0, Go 0])
      (quiet_service m, b, empty_log) =
    Some (quiet_service (on_impl (io_svc i) (\<lambda>x. x\<lparr>i_map := [(al, None)]\<rparr>) (stopped_mem m i w)), b',
      \<lparr>l_calls = snd (redis_impl_stop (i, w)), l_faults = [(0, Null_pool)]\<rparr>)"
proof -
  let ?pt = "Exec_lookup (io_svc i) al (Single cmd) res err"
  have "svc_turns bx 2 [Call 0 (S_execute al cmd res err), Go 0, Go 0, Go 0] (quiet_service m, b, empty_log) =
      Some (at_only m ?pt, b, empty_log)"
    using stands_found[OF assms(1,2)] assms(3) by (simp add: svc_turn_defs at_only_def)
  from stop_between[OF assms(1,2) this] obtain k b2 where
    "\<forall>vs. svc_turns bx 2 (with_stop [Call 0 (S_execute al cmd res err), Go 0, Go 0, Go 0] k vs)
        (quiet_service m, b, empty_log) =
      svc_turns bx 2 vs (at_only (stopped_mem m i w) ?pt, b2, empty_log\<lparr>l_calls := snd (redis_impl_stop (i, w))\<rparr>)"
    by (auto simp: empty_log_def)
  then show ?thesis
    by (intro exI[of _ k]) (auto simp: svc_turn_defs at_only_def stopped_mem_def subscript_def)
qed

lemma fetched_meets_stop:
  assumes "holds m (i, w)" and "rd_inv (Some i, w)"
  shows "\<exists>k b'. svc_turns bx 2 (with_stop [Call 0 (S_execute al cmd res err), Go 0] k [Go 0])
      (quiet_service m, b, empty_log) =
    Some (quiet_service (stopped_mem m i w), b',
      \<lparr>l_calls = snd (redis_impl_stop (i, w)), l_faults = [(0, not_running)]\<rparr>)"
proof -
  let ?pt = "Exec_state (io_svc i) al (Single cmd) res err"
  have "svc_turns bx 2 [Call 0 (S_execute al cmd res err), Go 0] (quiet_service m, b, empty_log) =
      Some (at_only m ?pt, b, empty_log)"
    using stands_found[OF assms(1,2)] by (simp add: svc_turn_defs at_only_def)
  from stop_between[OF assms(1,2) this] obtain k b2 where
    "\<forall>vs. svc_turns bx 2 (with_stop [Call 0 (S_execute al cmd res err), Go 0] k vs)
        (quiet_service m, b, empty_log) =
      svc_turns bx 2 vs (at_only (stopped_mem m i w) ?pt, b2, empty_log\<lparr>l_calls := snd (redis_impl_stop (i, w))\<rparr>)"
    by (auto simp: empty_log_def)
  then show ?thesis
    by (intro exI[of _ k]) (auto simp: svc_turn_defs at_only_def stopped_mem_def)
qed

lemma registration_meets_stop:
  assumes "holds m (i, w)" and "rd_inv (Some i, w)" and "map_of (registry i) (conn_alias opts) = None"
    and "uri opts \<noteq> []" "conn_alias opts \<noteq> []" "usable opts" "n \<noteq> 0"
  defines "w' \<equiv> snd (fst (redis_impl_stop (i, w)))"
  shows "\<exists>k b' m'. svc_turns bx 2 (with_stop [Call 0 (S_add opts (Some n)), Go 0, Go 0, Go 0] k [Go 0, Go 0, Go 0])
      (quiet_service m, b, empty_log) =
    Some (quiet_service m', b',
      \<lparr>l_calls = snd (redis_impl_stop (i, w)) @ [(next_pool w', P_create (next_conn w'))], l_faults = []\<rparr>) \<and>
    cur m' = None \<and> pools (wld m') (next_pool w') = Some (new_pool n opts (next_conn w'))"
proof -
  let ?pt = "Add_create (io_svc i) opts (Some n)"
  have "svc_turns bx 2 [Call 0 (S_add opts (Some n)), Go 0, Go 0, Go 0] (quiet_service m, b, empty_log) =
      Some (at_only m ?pt, b, empty_log)"
    using stands_found[OF assms(1,2)] assms(3-7) by (simp add: svc_turn_defs at_only_def)
  from stop_between[OF assms(1,2) this] obtain k b2 where
    "\<forall>vs. svc_turns bx 2 (with_stop [Call 0 (S_add opts (Some n)), Go 0, Go 0, Go 0] k vs)
        (quiet_service m, b, empty_log) =
      svc_turns bx 2 vs (at_only (stopped_mem m i w) ?pt, b2, empty_log\<lparr>l_calls := snd (redis_impl_stop (i, w))\<rparr>)"
    by (auto simp: empty_log_def)
  then show ?thesis
    using assms(4-7)
    by (intro exI[of _ k]) (auto simp: svc_turn_defs at_only_def stopped_mem_def pool_create_usable Let_def
      subscript_def w'_def)
qed

text \<open>The memory of a facade in which nothing but its implementation is left.\<close>

definition mem_of :: "rd_state \<Rightarrow> svc_mem" where
  "mem_of r = \<lparr>cur = map_option io_svc (fst r),
     impls = (\<lambda>k. case fst r of
        Some i \<Rightarrow> if k = io_svc i then obj_of i else \<lparr>i_size = 0, i_map = [], i_state = Svc_closed\<rparr>
      | None \<Rightarrow> \<lparr>i_size = 0, i_map = [], i_state = Svc_closed\<rparr>),
     wld = snd r\<rparr>"

lemma stands_mem_of: "stands (mem_of r) r"
  by (simp add: stands_def mem_of_def)

text \<open>The double registration, from a running service.\<close>

lemma registration_meets_registration:
  assumes "holds m (i, w)" and "rd_inv (Some i, w)" and "map_of (registry i) (conn_alias opts) = None"
    and "uri opts \<noteq> []" "conn_alias opts \<noteq> []" "usable opts" "n \<noteq> 0"
  shows "\<exists>m' b'. svc_turns bx 2 (double_registration (S_add opts (Some n))) (quiet_service m, b, empty_log) =
      Some (quiet_service m', b',
        \<lparr>l_calls = [(next_pool w, P_create (next_conn w)), (Suc (next_pool w), P_create (Suc (next_conn w)))],
         l_faults = []\<rparr>) \<and>
    b_refused b' = add_mset (Suc (next_pool w)) (b_refused b) \<and> is_open (wld m') (Suc (next_pool w)) \<and>
    Suc (next_pool w) \<notin># pids_of (i_map (impls m' (io_svc i)))"
proof -
  note st = stands_found[OF assms(1,2)]
  have reg: "reg_wf (registry i)" using assms(2) by (simp add: rd_inv_def impl_inv_def)
  have "map fst (obj_map (registry i)) = map fst (registry i)" by (simp add: obj_map_def comp_def case_prod_beta)
  with reg have "reg_wf (obj_map (registry i))" by (simp add: reg_wf_def)
  note race = double_registration_race[of m "io_svc i" opts n bx b, unfolded st(2,4,5), OF st(1,3) _ this assms(4-7)]
  have old: "pid < next_pool w" if "(al, pid) \<in> set (registry i)" for al pid
    using that assms(2) by (fastforce simp: rd_inv_def impl_inv_def dest: world_invD)
  have "Suc (next_pool w) \<notin># pids_of (obj_map (map_insert (conn_alias opts) (next_pool w) (registry i)))"
  proof
    assume "Suc (next_pool w) \<in># pids_of (obj_map (map_insert (conn_alias opts) (next_pool w) (registry i)))"
    then obtain a where "(a, Suc (next_pool w)) \<in> set (map_insert (conn_alias opts) (next_pool w) (registry i))"
      by (auto simp: in_pids_of obj_map_def)
    with set_map_insert_sub[of "conn_alias opts" "next_pool w" "registry i"]
    have "(a, Suc (next_pool w)) \<in> set (registry i)" by auto
    from old[OF this] show False by simp
  qed
  with race assms(3) show ?thesis by (auto simp: is_open_def new_pool_def)
qed

section \<open>A sample\<close>

text \<open>The double registration in a program that has just started.\<close>

definition twice_registered :: svc_mem where
  "twice_registered =
     \<lparr>cur = Some 0,
      impls = (impls initial_mem)(0 := \<lparr>i_size = DEFAULT_POOL_SIZE, i_map = [(''main'', Some 0)], i_state = Svc_running\<rparr>),
      wld = initial_world\<lparr>pools := (pools initial_world)(0 := Some (new_pool 1 pool_options 0),
                             1 := Some (new_pool 1 pool_options 1)),
                          next_pool := 2, next_conn := 2, next_io := 1\<rparr>\<rparr>"

lemma twice_registered_turns:
  "svc_turns bx 2 (double_registration (S_add pool_options (Some 1)))
     (quiet_service initial_mem, \<lparr>b_refused = {#}, b_cleared = {#}\<rparr>, empty_log) =
   Some (quiet_service twice_registered, \<lparr>b_refused = {#1#}, b_cleared = {#}\<rparr>,
     \<lparr>l_calls = [(0, P_create 0), (1, P_create 1)], l_faults = []\<rparr>)"
proof -
  have o: "uri pool_options \<noteq> []" "conn_alias pool_options = ''main''" "usable pool_options"
    by (simp_all add: pool_options_def usable_def)
  show ?thesis
    using o(1)
    by (simp add: double_registration_def svc_turn_defs Let_def pool_create_usable[OF _ _ o(3)] o(2) subscript_def
        initial_mem_def initial_world_def twice_registered_def fun_eq_iff)
qed

lemma twice_registered_run:
  "svc_threads bx 2 (quiet_service twice_registered) \<lparr>b_refused = {#1#}, b_cleared = {#}\<rparr>"
  using svc_turns_run[OF twice_registered_turns] svc_threads.nobody[of bx 2] by (simp add: quiet_service_def)

end
