(* ===== verification/Rd_Closing.thy ===== *)
theory Rd_Closing
  imports Rd_Pool_Threads Rd_Service_Races
begin

text \<open>
  What \<^verbatim>\<open>close\<close> and \<^verbatim>\<open>stop\<close> achieve among threads. The flags that they set are read without a lock, so that
  a thread may have read one before; after that, what such threads hold can only become less.
\<close>

section \<open>A closed pool\<close>

inductive threads_step :: "nat \<Rightarrow> shared_pool \<Rightarrow> shared_pool \<Rightarrow> bool" for N where
  begins: "t < N \<Longrightarrow> points s t = None \<Longrightarrow>
     threads_step N s (s\<lparr>points := (points s)(t := Some (start_point op))\<rparr>)"
| moves: "t < N \<Longrightarrow> points s t = Some pt \<Longrightarrow> may_step t pt s \<Longrightarrow>
     point_step pt (the_pool s) = Inr (p, out, next) \<Longrightarrow> threads_step N s (after_step t pt p next s)"
| throws: "t < N \<Longrightarrow> points s t = Some pt \<Longrightarrow> may_step t pt s \<Longrightarrow>
     point_step pt (the_pool s) = Inl f \<Longrightarrow> threads_step N s (after_step t pt (the_pool s) None s)"

lemma threads_step_run: "threads_step N s s' \<Longrightarrow> threads_run N p0 s b \<Longrightarrow> \<exists>b'. threads_run N p0 s' b'"
  by (induction rule: threads_step.induct) (blast intro: threads_run.intros)+

text \<open>The connection that a thread has decided to make, and the one it has decided to list as idle.\<close>

fun making :: "point \<Rightarrow> conn_id multiset" where
  "making (New_make conn _) = {#conn#}"
| "making (New_push conn _) = {#conn#}"
| "making _ = {#}"

fun listing :: "point \<Rightarrow> conn_id multiset" where
  "listing (Idle_push c) = {#c#}"
| "listing _ = {#}"

definition of_next :: "('p \<Rightarrow> 'a multiset) \<Rightarrow> 'p option \<Rightarrow> 'a multiset" where
  "of_next f next = (case next of None \<Rightarrow> {#} | Some pt \<Rightarrow> f pt)"

lemma of_next_simps [simp]: "of_next f None = {#}" "of_next f (Some pt) = f pt"
  by (simp_all add: of_next_def)

lemma decided_start [simp]: "making (start_point op) = {#}" "listing (start_point op) = {#}"
  by (cases op; simp)+

lemma closed_point_step:
  assumes "point_step pt p = Inr (p', out, next)" and "closed p"
  shows "closed p'"
    and "mset (connections p') + of_next making next \<subseteq># mset (connections p) + making pt"
    and "mset (ready_connections p') + of_next listing next \<subseteq># mset (ready_connections p) + listing pt"
    and "mset (queue p') + of_next request_of next \<subseteq># mset (queue p) + request_of pt"
  using assms
  by (induction pt p rule: point_step.induct)
    (auto simp: next_event_def enqueue_event_def erase_connection_def clear_queue_def
      split: option.splits if_splits list.splits sum.splits prod.splits)

text \<open>A sum over threads and a part in the pool become less together.\<close>

lemma step_shrinks:
  assumes "t < N" and "pts t = Some pt" and "x' + of_next f next \<subseteq># x + f pt"
  shows "x' + all_threads N f (pts(t := next)) \<subseteq># x + all_threads N f pts"
proof -
  have "x' + (of_next f next + all_threads N f (pts(t := None))) \<subseteq># x + (f pt + all_threads N f (pts(t := None)))"
    using mset_subset_eq_mono_add_right_cancel[of "x' + of_next f next" "all_threads N f (pts(t := None))" "x + f pt"]
      assms(3) by (simp add: add.assoc)
  then show ?thesis
    using all_threads_update[OF assms(1), of f pts "next"] all_threads_split[OF assms(1), of f pts] assms(2)
    by (simp add: of_next_def)
qed

lemma step_less:
  assumes "t < N" and "pts t = Some pt" and "x' + (case next of None \<Rightarrow> 0 | Some pt' \<Rightarrow> f pt') \<le> x + (f pt :: nat)"
  shows "x' + all_threads N f (pts(t := next)) \<le> x + all_threads N f pts"
  using all_threads_update[OF assms(1), of f pts "next"] all_threads_split[OF assms(1), of f pts] assms(2,3)
  by simp

lemma thread_gone:
  assumes "t < N"
  shows "all_threads N f (pts(t := None)) \<subseteq># all_threads N f pts"
  using all_threads_split[OF assms, of f pts] by simp

lemma begin_same:
  "t < N \<Longrightarrow> pts t = None \<Longrightarrow> f pt = 0 \<Longrightarrow> all_threads N f (pts(t := Some pt)) = all_threads N f pts"
  using all_threads_update[of t N f pts "Some pt"] all_threads_split[of t N f pts] by simp

lemma closed_threads_step:
  assumes "threads_step N s s'" and "closed (the_pool s)"
  shows "closed (the_pool s') \<and>
    mset (connections (the_pool s')) + all_threads N making (points s') \<subseteq>#
      mset (connections (the_pool s)) + all_threads N making (points s) \<and>
    mset (ready_connections (the_pool s')) + all_threads N listing (points s') \<subseteq>#
      mset (ready_connections (the_pool s)) + all_threads N listing (points s) \<and>
    mset (queue (the_pool s')) + all_threads N request_of (points s') \<subseteq>#
      mset (queue (the_pool s)) + all_threads N request_of (points s)"
  using assms
proof (induction rule: threads_step.induct)
  case (begins t s op)
  note same = begin_same[where pts = "points s" and pt = "start_point op", OF begins(1,2)]
  have "all_threads N making ((points s)(t := Some (start_point op))) = all_threads N making (points s)"
    "all_threads N listing ((points s)(t := Some (start_point op))) = all_threads N listing (points s)"
    "all_threads N request_of ((points s)(t := Some (start_point op))) = all_threads N request_of (points s)"
    by (intro same, simp)+
  then show ?case using begins(3) by (simp del: fun_upd_apply)
next
  case (moves t s pt p out "next")
  note c = closed_point_step[OF moves(4,5)]
  show ?case
    using c(1) step_shrinks[where pts = "points s", OF moves(1,2) c(2)]
      step_shrinks[where pts = "points s", OF moves(1,2) c(3)] step_shrinks[where pts = "points s", OF moves(1,2) c(4)]
    by (simp add: after_step_def del: fun_upd_apply)
next
  case (throws t s pt f)
  show ?case
    using throws(5) by (simp add: after_step_def thread_gone[OF throws(1)] del: fun_upd_apply)
qed

lemma closed_threads:
  assumes "(threads_step N)\<^sup>*\<^sup>* s s'" and "closed (the_pool s)"
  shows "closed (the_pool s') \<and>
    mset (connections (the_pool s')) + all_threads N making (points s') \<subseteq>#
      mset (connections (the_pool s)) + all_threads N making (points s) \<and>
    mset (ready_connections (the_pool s')) + all_threads N listing (points s') \<subseteq>#
      mset (ready_connections (the_pool s)) + all_threads N listing (points s) \<and>
    mset (queue (the_pool s')) + all_threads N request_of (points s') \<subseteq>#
      mset (queue (the_pool s)) + all_threads N request_of (points s)"
  using assms
proof (induction rule: rtranclp_induct)
  case (step s1 s2)
  then show ?case using closed_threads_step[OF step(2)] by (blast intro: subset_mset.trans)
qed simp

section \<open>A stopped service\<close>

inductive svc_threads_step :: "boost_str \<Rightarrow> nat \<Rightarrow> shared_service \<Rightarrow> shared_service \<Rightarrow> bool" for bx N where
  begins: "t < N \<Longrightarrow> at_point s t = None \<Longrightarrow> facade_op op \<Longrightarrow>
     svc_threads_step bx N s (s\<lparr>at_point := (at_point s)(t := Some (svc_start op))\<rparr>)"
| moves: "t < N \<Longrightarrow> at_point s t = Some pt \<Longrightarrow> may_go t pt s \<Longrightarrow>
     svc_point_step bx pt (mem s) = Inr (m, out, next) \<Longrightarrow> svc_threads_step bx N s (after_go t pt m next s)"
| throws: "t < N \<Longrightarrow> at_point s t = Some pt \<Longrightarrow> may_go t pt s \<Longrightarrow>
     svc_point_step bx pt (mem s) = Inl f \<Longrightarrow> svc_threads_step bx N s (after_go t pt (mem s) None s)"
| outside: "\<not> facade_op op \<Longrightarrow>
     svc_threads_step bx N s (s\<lparr>mem := (mem s)\<lparr>wld := outside_step bx op (wld (mem s))\<rparr>\<rparr>)"

lemma svc_threads_step_run:
  "svc_threads_step bx N s s' \<Longrightarrow> svc_threads bx N s b \<Longrightarrow> \<exists>b'. svc_threads bx N s' b'"
  by (induction rule: svc_threads_step.induct) (blast intro: svc_threads.intros)+

text \<open>Threads that are past the check of \<^verbatim>\<open>state_\<close> of an implementation, with a request or to register a pool.\<close>

fun asking :: "impl_id \<Rightarrow> svc_point \<Rightarrow> nat" where
  "asking i (Exec_count j _ _ _ _) = of_bool (j = i)"
| "asking i (Exec_lookup j _ _ _ _) = of_bool (j = i)"
| "asking i (Exec_call j _ _ _ _) = of_bool (j = i)"
| "asking i _ = 0"

fun registering :: "impl_id \<Rightarrow> svc_point \<Rightarrow> nat" where
  "registering i (Add_count j _ _) = of_bool (j = i)"
| "registering i (Add_create j _ _) = of_bool (j = i)"
| "registering i (Add_insert j _ _) = of_bool (j = i)"
| "registering i _ = 0"

fun checks :: "impl_id \<Rightarrow> svc_point \<Rightarrow> bool" where
  "checks i (Str_state j _ _) \<longleftrightarrow> j = i"
| "checks i (Add_state j _ _) \<longleftrightarrow> j = i"
| "checks i (Exec_state j _ _ _ _) \<longleftrightarrow> j = i"
| "checks i _ \<longleftrightarrow> False"

definition pools_of :: "impl_id \<Rightarrow> svc_mem \<Rightarrow> nat" where
  "pools_of i m = size (pids_of (i_map (impls m i)))"

lemma before_check [simp]: "asking i (svc_start op) = 0" "registering i (svc_start op) = 0"
  by (cases op; simp)+

lemma after_fetch_check: "after_fetch op j = Some pt \<Longrightarrow> asking i pt = 0 \<and> registering i pt = 0"
  by (cases op) auto

lemma checks_refused: "checks i pt \<Longrightarrow> i_state (impls m i) \<noteq> Svc_running \<Longrightarrow> svc_point_step bx pt m = Inl not_running"
  by (cases pt) simp_all

lemma stopped_point_step:
  assumes "svc_point_step bx pt m = Inr (m', out, next)" and "i_state (impls m i) \<noteq> Svc_running"
    and "i < next_io (wld m)" and "reg_wf (i_map (impls m i))"
  shows "(case next of None \<Rightarrow> 0 | Some pt' \<Rightarrow> asking i pt') \<le> asking i pt"
    and "pools_of i m' + (case next of None \<Rightarrow> 0 | Some pt' \<Rightarrow> registering i pt') \<le> pools_of i m + registering i pt"
proof -
  have "i < next_io (wld m) \<or> (\<forall>op. pt \<noteq> Fetch op)" using assms(3) by simp
  note map = svc_step_map[OF assms(1) this]
  show "(case next of None \<Rightarrow> 0 | Some pt' \<Rightarrow> asking i pt') \<le> asking i pt"
    using assms(1,2) after_fetch_check[where i = i]
    by (cases pt) (auto simp: Let_def split: if_splits sum.splits option.splits prod.splits list.splits)
  have "(case next of None \<Rightarrow> 0 | Some pt' \<Rightarrow> registering i pt') + size (pids_of (i_map (impls m' i))) \<le>
      size (pids_of (i_map (impls m i))) + registering i pt"
    using assms(1,2) map after_fetch_check[where i = i]
    by (cases pt)
      (auto simp: Let_def pids_of_insert[OF assms(4)] subscript_map
        split: if_splits sum.splits option.splits prod.splits list.splits)
  then show "pools_of i m' + (case next of None \<Rightarrow> 0 | Some pt' \<Rightarrow> registering i pt') \<le> pools_of i m + registering i pt"
    by (simp add: pools_of_def)
qed

definition winding_down :: "nat \<Rightarrow> impl_id \<Rightarrow> shared_service \<Rightarrow> shared_service \<Rightarrow> bool" where
  "winding_down N i s s' \<longleftrightarrow>
     i_state (impls (mem s') i) \<noteq> Svc_running \<and> i < next_io (wld (mem s')) \<and>
     all_threads N (asking i) (at_point s') \<le> all_threads N (asking i) (at_point s) \<and>
     pools_of i (mem s') + all_threads N (registering i) (at_point s') \<le>
       pools_of i (mem s) + all_threads N (registering i) (at_point s)"

lemma next_io_grows:
  assumes "impls_inv N s" and "at_point s t = Some pt" and "svc_point_step bx pt (mem s) = Inr (m, out, next)"
  shows "next_io (wld (mem s)) \<le> next_io (wld m)"
proof (cases "in_stop pt")
  case True
  with stop_step(1)[OF assms(3)] impls_invD(1)[OF assms(1,2)] show ?thesis by simp
next
  case stop: False
  show ?thesis
  proof (cases "\<exists>op. pt = Fetch op")
    case True
    then obtain op where op: "pt = Fetch op" by auto
    show ?thesis by (rule fetch_step[OF assms(3)[unfolded op]]) auto
  qed (use step_frame[OF assms(3) stop] in auto)
qed

lemma stopped_threads_step:
  assumes "svc_threads_step bx N s s'" and "svc_threads bx N s b"
    and "i_state (impls (mem s) i) \<noteq> Svc_running" "i < next_io (wld (mem s))"
  shows "winding_down N i s s'"
  using assms
proof (induction rule: svc_threads_step.induct)
  case (begins t s op)
  note same = begin_same[where pts = "at_point s" and pt = "svc_start op", OF begins(1,2)]
  have "all_threads N (asking i) ((at_point s)(t := Some (svc_start op))) = all_threads N (asking i) (at_point s)"
    "all_threads N (registering i) ((at_point s)(t := Some (svc_start op))) = all_threads N (registering i) (at_point s)"
    by (intro same, simp)+
  with begins show ?case by (simp add: winding_down_def del: fun_upd_apply)
next
  case (moves t s pt m out "next")
  from svc_threads_inv[OF moves(5)] have inv: "impls_inv N s" "maps_inv s" by auto
  note st = stopped_point_step[OF moves(4,6,7) maps_invD(1)[OF inv(2)]]
  from st(1) have "0 + (case next of None \<Rightarrow> 0 | Some pt' \<Rightarrow> asking i pt') \<le> 0 + asking i pt" by simp
  note less = step_less[where pts = "at_point s", OF moves(1,2) this]
    step_less[where pts = "at_point s", OF moves(1,2) st(2)]
  have "i_state (impls m i) \<noteq> Svc_running"
    using states_forward[OF inv(1) moves(2,4,7)] moves(6) by auto
  then show ?case
    using less next_io_grows[OF inv(1) moves(2,4)] moves(7) by (simp add: winding_down_def)
next
  case (throws t s pt f)
  have "0 + (case None of None \<Rightarrow> 0 | Some pt' \<Rightarrow> g pt') \<le> 0 + (g pt :: nat)" for g by simp
  from step_less[where pts = "at_point s", OF throws(1,2) this] throws(6,7) show ?case
    by (simp add: winding_down_def)
next
  case (outside op s)
  then show ?case by (simp add: winding_down_def pools_of_def outside_step_next)
qed

lemma stopped_threads:
  assumes "(svc_threads_step bx N)\<^sup>*\<^sup>* s s'" and "svc_threads bx N s b"
    and "i_state (impls (mem s) i) \<noteq> Svc_running" "i < next_io (wld (mem s))"
  shows "winding_down N i s s' \<and> (\<exists>b'. svc_threads bx N s' b')"
  using assms
proof (induction rule: rtranclp_induct)
  case base
  then show ?case by (auto simp: winding_down_def)
next
  case (step s1 s2)
  then obtain b1 where w: "winding_down N i s s1" and b1: "svc_threads bx N s1 b1" by auto
  with stopped_threads_step[OF step(2) b1, of i] have "winding_down N i s1 s2" by (simp add: winding_down_def)
  with w svc_threads_step_run[OF step(2) b1] show ?case by (auto simp: winding_down_def)
qed

text \<open>A request past the check when the service is stopped: it ends with the alias unknown.\<close>

definition sample_stopping :: "svc_play option" where
  "sample_stopping = svc_turns ref_boost 2
     (with_stop [Call 0 (S_execute ''a'' default_command None None), Go 0, Go 0] 6 [])
     (quiet_service initial_mem, \<lparr>b_refused = {#}, b_cleared = {#}\<rparr>, empty_log)"

lemma sample_stopping_outcome:
  "map_option (\<lambda>(s, b, l). (i_state (impls (mem s) 0), next_io (wld (mem s)), i_map (impls (mem s) 0), svc_lock s,
      at_point s 0, at_point s 1)) sample_stopping =
   Some (Svc_closing, 1, [], None, Some (Exec_count 0 ''a'' (Single default_command) None None), None)"
  by code_simp

lemma sample_stopping:
  obtains s b where "svc_threads ref_boost 2 s b" "i_state (impls (mem s) 0) = Svc_closing"
    "next_io (wld (mem s)) = 1" "i_map (impls (mem s) 0) = []" "svc_lock s = None"
    "at_point s 0 = Some (Exec_count 0 ''a'' (Single default_command) None None)" "at_point s 1 = None"
proof -
  from sample_stopping_outcome obtain s b l where s: "sample_stopping = Some (s, b, l)" by auto
  have "svc_threads ref_boost 2 s b"
    using svc_turns_run[OF s[unfolded sample_stopping_def]] svc_threads.nobody[of ref_boost 2]
    by (simp add: quiet_service_def)
  with sample_stopping_outcome[unfolded s] that show thesis by auto
qed

end
