(* ===== verification/Rd_Reentry.thy ===== *)
theory Rd_Reentry
  imports Rd_Pool_Laws
begin

text \<open>
  Error callbacks that call back or throw. \<^verbatim>\<open>clear_queue\<close> calls the error callbacks of the queued requests
  from inside its loop, under a recursive mutex: what a callback does to the pool happens before the loop
  looks at the queue again. Here a callback does a list of deeds, requests to the same pool and at last
  perhaps an exception; \<^const>\<open>clear_queue\<close> is the case where it does none. The loop may run forever, so
  it is a partial function.
\<close>

datatype deed =
  Request command_wrapper_t "callback option" "callback option"
| Throw thrown

text \<open>The deeds of the callbacks that an operation called itself.\<close>

fun called :: "(callback \<Rightarrow> deed list) \<Rightarrow> pool_call list \<Rightarrow> deed list" where
  "called react [] = []"
| "called react (P_error cb _ # out) = react cb @ called react out"
| "called react (_ # out) = called react out"

text \<open>
  \<open>ds\<close> are the deeds still to do of the callbacks under way, \<open>n\<close> is the pointer of the next connection. The result is the
  exception that leaves the loop, if any, with the pool it leaves behind and the calls made.
\<close>

type_synonym outcome = "fault option \<times> conn_id \<times> pool \<times> pool_call list"

definition after :: "pool_call list \<Rightarrow> outcome \<Rightarrow> outcome" where
  "after out r = (case r of (f, n, p, out') \<Rightarrow> (f, n, p, out @ out'))"

partial_function (option) clear_queue_calling ::
  "(callback \<Rightarrow> deed list) \<Rightarrow> rd_error \<Rightarrow> deed list \<Rightarrow> conn_id \<Rightarrow> pool \<Rightarrow> outcome option" where
  "clear_queue_calling react ec ds n p =
     (case ds of
        Throw t # ds' \<Rightarrow> Some (Some (Uncaught t), n, p, [])
      | Request cmd res err # ds' \<Rightarrow>
          (case get_connection n cmd res err p of
             Inl f \<Rightarrow> Some (Some f, n, p, [])
           | Inr (p', out) \<Rightarrow>
               Option.bind (clear_queue_calling react ec (called react out @ ds') (n + 1) p')
                 (\<lambda>r. Some (after out r)))
      | [] \<Rightarrow>
          (case next_event p of
             None \<Rightarrow> Some (None, n, p, [])
           | Some (req, p') \<Rightarrow>
               (case error_cb req of
                  None \<Rightarrow> clear_queue_calling react ec [] n p'
                | Some cb \<Rightarrow>
                    Option.bind (clear_queue_calling react ec (react cb) n p')
                      (\<lambda>r. Some (after [P_error cb ec] r)))))"

lemmas clear_calling_simps = clear_queue_calling.simps[of _ _ "[]"]
  clear_queue_calling.simps[of _ _ "Throw t # ds" for t ds]
  clear_queue_calling.simps[of _ _ "Request cmd res err # ds" for cmd res err ds]

lemma after_simps [simp]: "after out (f, n, p, out') = (f, n, p, out @ out')"
  "after [] r = r" "after xs (after ys r) = after (xs @ ys) r"
  by (simp_all add: after_def split: prod.splits)

section \<open>Silent callbacks\<close>

definition silent :: "(callback \<Rightarrow> deed list) \<Rightarrow> execute_event list \<Rightarrow> bool" where
  "silent react q \<longleftrightarrow> (\<forall>req \<in> set q. \<forall>cb. error_cb req = Some cb \<longrightarrow> react cb = [])"

lemma silent_prefix:
  assumes "silent react qa"
  shows "clear_queue_calling react ec [] n (p\<lparr>queue := qa @ qb\<rparr>) =
    map_option (after (clear_queue_loop qa ec)) (clear_queue_calling react ec [] n (p\<lparr>queue := qb\<rparr>))"
  using assms
proof (induction qa)
  case Nil
  then show ?case by (simp add: option.map_ident)
next
  case (Cons req qa)
  have ih: "clear_queue_calling react ec [] n (p\<lparr>queue := qa @ qb\<rparr>) =
      map_option (after (clear_queue_loop qa ec)) (clear_queue_calling react ec [] n (p\<lparr>queue := qb\<rparr>))"
    by (rule Cons.IH) (use Cons.prems in \<open>auto simp: silent_def\<close>)
  show ?case
  proof (cases "error_cb req")
    case None
    then show ?thesis by (simp add: clear_calling_simps(1)[of _ _ _ "p\<lparr>queue := req # _\<rparr>"] next_event_def ih)
  next
    case (Some cb)
    with Cons.prems have "react cb = []" by (auto simp: silent_def)
    with Some show ?thesis
      by (cases "clear_queue_calling react ec [] n (p\<lparr>queue := qb\<rparr>)")
        (simp_all add: clear_calling_simps(1)[of _ _ _ "p\<lparr>queue := req # _\<rparr>"] next_event_def ih)
  qed
qed

lemma clear_calling_silent:
  assumes "silent react (queue p)"
  shows "clear_queue_calling react ec [] n p = Some (None, n, clear_queue ec p)"
proof -
  have "clear_queue_calling react ec [] n (p\<lparr>queue := queue p @ []\<rparr>) =
      map_option (after (clear_queue_loop (queue p) ec)) (clear_queue_calling react ec [] n (p\<lparr>queue := []\<rparr>))"
    by (rule silent_prefix) (use assms in auto)
  then show ?thesis by (simp add: clear_calling_simps(1)[of _ _ _ "p\<lparr>queue := []\<rparr>"] next_event_def clear_queue_def)
qed

section \<open>A callback that throws\<close>

lemma clear_calling_throws:
  assumes "silent react qa"
    and "error_cb req = Some cb" "react cb = [Throw t]" "queue p = qa @ req # qb"
  shows "clear_queue_calling react ec [] n p =
    Some (Some (Uncaught t), n, p\<lparr>queue := qb\<rparr>, clear_queue_loop (qa @ [req]) ec)"
proof -
  have loop: "clear_queue_loop (qa @ [req]) ec = clear_queue_loop qa ec @ [P_error cb ec]"
    using assms(2) by (induction qa) simp_all
  have "clear_queue_calling react ec [] n (p\<lparr>queue := req # qb\<rparr>) =
      Some (Some (Uncaught t), n, p\<lparr>queue := qb\<rparr>, [P_error cb ec])"
    using assms(2,3) by (simp add: clear_calling_simps(1)[of _ _ _ "p\<lparr>queue := _\<rparr>"] clear_calling_simps(2) next_event_def)
  moreover have "p = p\<lparr>queue := qa @ req # qb\<rparr>" using assms(4) by simp
  moreover note silent_prefix[where p = p and n = n and ec = ec and qb = "req # qb", OF assms(1)]
  ultimately show ?thesis using loop by simp
qed

section \<open>A callback that tries again\<close>

text \<open>The situations that lead to each other forever.\<close>

definition retrying :: "command_wrapper_t \<Rightarrow> callback option \<Rightarrow> callback \<Rightarrow> deed list \<Rightarrow> pool \<Rightarrow> bool" where
  "retrying cmd res cb ds p \<longleftrightarrow>
     \<not> closed p \<and> usable (co p) \<and> ready_connections p = [] \<and>
     ((ds = [] \<and> (\<exists>req \<in> set (queue p). error_cb req = Some cb)) \<or> ds = [Request cmd res (Some cb)])"

lemma retrying_Nil:
  "retrying cmd res cb [] p \<Longrightarrow> next_event p = Some (req, p') \<Longrightarrow>
     retrying cmd res cb (if error_cb req = Some cb then [Request cmd res (Some cb)] else []) p'"
  by (auto simp: retrying_def next_event_def split: list.splits)

lemma retrying_Request:
  assumes "retrying cmd res cb ds p" and "ds \<noteq> []" and "[] \<notin> set (command_lists cmd)"
  obtains p' out where "ds = [Request cmd res (Some cb)]" "get_connection n cmd res (Some cb) p = Inr (p', out)"
    "called react out = []" "retrying cmd res cb [] p'"
proof -
  from assms(1,2) have r: "ds = [Request cmd res (Some cb)]" "\<not> closed p" "usable (co p)"
    "ready_connections p = []" by (auto simp: retrying_def)
  with get_connection_open[OF r(2,3) assms(3), of n res "Some cb"] that show thesis
    by (cases "length (connections p) < pool_size p") (simp_all add: retrying_def)
qed

lemma retry_diverges:
  assumes "clear_queue_calling react ec ds n p = Some r"
    and "[] \<notin> set (command_lists cmd)" and "react cb = [Request cmd res (Some cb)]"
    and "\<And>cb'. cb' \<noteq> cb \<Longrightarrow> react cb' = []"
  shows "\<not> retrying cmd res cb ds p"
proof -
  let ?P = "\<lambda>react ec ds n p r. react cb = [Request cmd res (Some cb)] \<and> (\<forall>cb'. cb' \<noteq> cb \<longrightarrow> react cb' = []) \<longrightarrow>
      \<not> retrying cmd res cb ds p"
  have "?P react ec ds n p r"
  proof (rule clear_queue_calling.raw_induct[OF _ assms(1), where P = ?P], goal_cases)
    case (1 rec react ec ds n p r)
    show ?case
    proof (intro impI notI)
      assume re: "react cb = [Request cmd res (Some cb)] \<and> (\<forall>cb'. cb' \<noteq> cb \<longrightarrow> react cb' = [])"
        and bad: "retrying cmd res cb ds p"
      have again: "\<not> retrying cmd res cb ds' p'" if "rec react ec ds' n' p' = Some y" for ds' n' p' y
        using 1(1)[OF that] re by blast
      show False
      proof (cases "ds = []")
        case True
        with bad obtain req p' where ne: "next_event p = Some (req, p')"
          by (cases "queue p") (auto simp: retrying_def next_event_def)
        note more = retrying_Nil[OF bad[unfolded True] ne]
        show False
        proof (cases "error_cb req")
          case None
          with 1(2) True ne more again show False by fastforce
        next
          case (Some cb')
          with 1(2) True ne obtain y where "rec react ec (react cb') n p' = Some y"
            by (auto simp: bind_eq_Some_conv)
          with again more Some re show False by (cases "cb' = cb") auto
        qed
      next
        case False
        from retrying_Request[OF bad False assms(2), where n = n and react = react] obtain p' out where
          *: "ds = [Request cmd res (Some cb)]" "get_connection n cmd res (Some cb) p = Inr (p', out)"
          "called react out = []" "retrying cmd res cb [] p'" .
        with 1(2) obtain y where "rec react ec [] (n + 1) p' = Some y" by (auto simp: bind_eq_Some_conv)
        with again *(4) show False by blast
      qed
    qed
  qed
  with assms(3,4) show ?thesis by blast
qed

section \<open>A sample request\<close>

definition sample_event :: "callback \<Rightarrow> execute_event" where
  "sample_event cb = \<lparr>buff = wire_command [''PING''], result_cb = None, error_cb = Some cb\<rparr>"

end
