(* ===== verification/Rd_Connection_Laws.thy ===== *)
theory Rd_Connection_Laws
  imports Rd_Connection
begin

text \<open>
  The connection as a transition system. \<open>conn_trans\<close> states the effect of one event per edge of
  the table and agrees with \<^const>\<open>dispatch\<close>; \<open>conn_step\<close> and \<open>env_step\<close> add the storage of MSM, the
  read loop and the outside world; \<open>conn_run\<close> collects the history of a connection. The invariants
  hold for every order in which MSM takes up stored events.
\<close>

section \<open>The edges\<close>

definition term_notes :: "connection \<Rightarrow> action list" where
  "term_notes c = snd (notify_terminated c)"

definition finish :: "connection \<Rightarrow> connection" where
  "finish c = c\<lparr>callbacks := no_callbacks, fsm_state := Terminated\<rparr>"

inductive conn_trans :: "transport \<Rightarrow> connection \<Rightarrow> event \<Rightarrow> action list \<Rightarrow> connection \<Rightarrow> bool"
  for tr where
  ignored: "fsm_state c = Terminated \<Longrightarrow> conn_trans tr c e [] c"
| plug: "fsm_state c = Unplugged \<Longrightarrow> uri opts \<noteq> [] \<Longrightarrow> connect_async tr opts = Inr req \<Longrightarrow>
     conn_trans tr c (Ev_options opts) [Out_connect req] (c\<lparr>conn_opts := opts, fsm_state := Connecting\<rparr>)"
| unplug: "fsm_state c = Unplugged \<Longrightarrow> conn_trans tr c Ev_terminate (term_notes c) (finish c)"
| open_plain: "fsm_state c = Connecting \<Longrightarrow> password (conn_opts c) = [] \<Longrightarrow>
     conn_trans tr c Ev_complete [Out_read]
       (c\<lparr>msg_queue := msg_queue c @ [Ev_complete], fsm_state := Authn\<rparr>)"
| open_auth: "fsm_state c = Connecting \<Longrightarrow> password (conn_opts c) \<noteq> [] \<Longrightarrow>
     conn_trans tr c Ev_complete
       (Out_read # send tr (wire_command [''AUTH'', password (conn_opts c)]) c) (c\<lparr>fsm_state := Authn\<rparr>)"
| fail: "fsm_state c = Connecting \<or> fsm_state c = Authn \<or> fsm_state c = Idle \<Longrightarrow>
     conn_trans tr c (Ev_connection_error m) (notify_error c m @ term_notes c) (finish c)"
| fail_query: "fsm_state c = Query \<Longrightarrow>
     conn_trans tr c (Ev_connection_error m) (notify_error c m @ term_notes c)
       (finish (c\<lparr>cur_query := empty_execute\<rparr>))"
| authed: "fsm_state c = Authn \<Longrightarrow> e = Ev_complete \<or> e = Ev_recv r \<Longrightarrow>
     conn_trans tr c e (notify_idle c) (c\<lparr>fsm_state := Idle\<rparr>)"
| start_sent: "fsm_state c = Idle \<Longrightarrow> connected tr (sock_open c) \<Longrightarrow>
     conn_trans tr c (Ev_execute evt) [Out_write (buff evt)]
       (c\<lparr>cur_query := evt\<lparr>buff := []\<rparr>, fsm_state := Query\<rparr>)"
| start_unsent: "fsm_state c = Idle \<Longrightarrow> \<not> connected tr (sock_open c) \<Longrightarrow>
     conn_trans tr c (Ev_execute evt) [] (c\<lparr>cur_query := evt, fsm_state := Query\<rparr>)"
| close: "fsm_state c = Idle \<Longrightarrow>
     conn_trans tr c Ev_terminate (Out_close # term_notes c)
       (finish (c\<lparr>sock_open := close_socket tr (sock_open c)\<rparr>))"
| answer: "fsm_state c = Query \<Longrightarrow>
     conn_trans tr c (Ev_recv r) (notify_result (cur_query c) r @ notify_idle c)
       (c\<lparr>cur_query := empty_execute, fsm_state := Idle\<rparr>)"
| refuse: "fsm_state c = Query \<Longrightarrow>
     conn_trans tr c (Ev_query_error m) (notify_query_error (cur_query c) m @ notify_idle c)
       (c\<lparr>cur_query := empty_execute, fsm_state := Idle\<rparr>)"
| defer_early: "fsm_state c = Unplugged \<or> fsm_state c = Connecting \<or> fsm_state c = Authn \<Longrightarrow>
     conn_trans tr c (Ev_execute evt) [] (c\<lparr>deferred := deferred c @ [Ev_execute evt]\<rparr>)"
| defer_terminate: "fsm_state c = Connecting \<or> fsm_state c = Authn \<or> fsm_state c = Query \<Longrightarrow>
     conn_trans tr c Ev_terminate [] (c\<lparr>deferred := deferred c @ [Ev_terminate]\<rparr>)"

inductive_simps from_query: "conn_trans tr c (Ev_recv r) out c'"
inductive_cases conn_transE: "conn_trans tr c e out c'"

lemmas hook_defs = on_exit_def run_action_def on_entry_def notify_terminated_def close_transport_def
  term_notes_def finish_def send_def start_read_def notify_idle_def notify_error_def Let_def

lemma startup_auth:
  "password (conn_opts c) \<noteq> [] \<Longrightarrow>
     send_startup_message tr c = Inr (c, send tr (wire_command [''AUTH'', password (conn_opts c)]) c)"
  by (simp add: send_startup_message_def single_command_def serialize_exact)

lemma startup_plain:
  "password (conn_opts c) = [] \<Longrightarrow> send_startup_message tr c = Inr (process_event c Ev_complete, [])"
  by (simp add: send_startup_message_def)

lemma dispatch_trans:
  assumes "dispatch tr c e = Inr (c', out)"
  shows "conn_trans tr c e out c'"
proof (cases "fsm_state c")
  case Unplugged
  with assms show ?thesis
    by (cases e)
      (auto simp: dispatch_def hook_defs connect_transport_def
        intro: conn_trans.intros[unfolded hook_defs snd_conv] split: if_splits sum.splits)
next
  case Connecting
  show ?thesis
  proof (cases "password (conn_opts c) = []")
    case True
    with Connecting assms show ?thesis
      by (cases e)
        (auto simp: dispatch_def hook_defs startup_plain process_event_def
          intro: conn_trans.intros[unfolded hook_defs snd_conv])
  next
    case False
    with Connecting assms show ?thesis
      by (cases e)
        (auto simp: dispatch_def hook_defs startup_auth intro: conn_trans.intros[unfolded hook_defs snd_conv])
  qed
next
  case Authn
  with assms show ?thesis
    by (cases e) (auto simp: dispatch_def hook_defs intro: conn_trans.intros[unfolded hook_defs snd_conv])
next
  case Idle
  with assms show ?thesis
    by (cases e)
      (auto simp: dispatch_def hook_defs intro: conn_trans.intros[unfolded hook_defs snd_conv] split: if_splits)
next
  case Query
  with assms show ?thesis
    by (cases e)
      (auto simp: dispatch_def hook_defs intro: conn_trans.intros[unfolded hook_defs snd_conv])
next
  case Terminated
  with assms show ?thesis by (auto simp: dispatch_def intro: conn_trans.ignored)
qed

lemma trans_dispatch: "conn_trans tr c e out c' \<Longrightarrow> dispatch tr c e = Inr (c', out)"
  by (induction rule: conn_trans.induct)
    (auto simp: dispatch_def hook_defs connect_transport_def startup_plain startup_auth
      process_event_def split: sum.splits)

lemma dispatch_iff_trans: "dispatch tr c e = Inr (c', out) \<longleftrightarrow> conn_trans tr c e out c'"
  using dispatch_trans trans_dispatch by blast

text \<open>What can go wrong in one event: the options are refused, or the table has no row.\<close>

lemma dispatch_Inl_iff:
  "dispatch tr c e = Inl f \<longleftrightarrow>
     fsm_state c \<noteq> Terminated \<and>
     ((row (fsm_state c) e = None \<and> \<not> defers (fsm_state c) e \<and> f = No_transition (fsm_state c) e) \<or>
      (\<exists>opts. fsm_state c = Unplugged \<and> e = Ev_options opts \<and> connect_transport tr opts c = Inl f))"
proof (cases "fsm_state c")
  case Connecting
  show ?thesis
    by (cases "password (conn_opts c) = []"; cases e)
      (auto simp: Connecting dispatch_def hook_defs startup_plain startup_auth)
next
  case Unplugged
  then show ?thesis
    by (cases e) (auto simp: dispatch_def hook_defs connect_transport_def split: sum.splits if_splits)
qed (cases e; auto simp: dispatch_def hook_defs)+

section \<open>Runs\<close>

text \<open>No event that the state machine would take up is stored.\<close>

definition quiescent :: "connection \<Rightarrow> bool" where
  "quiescent c \<longleftrightarrow> msg_queue c = [] \<and> list_all (defers (fsm_state c)) (deferred c)"

datatype label =
  L_event fsm_state event "action list"    \<comment> \<open>an event, with the state it was dispatched in\<close>
| L_round "action list"                     \<comment> \<open>a round of the read loop\<close>

fun label_actions :: "label \<Rightarrow> action list" where
  "label_actions (L_event _ _ out) = out"
| "label_actions (L_round out) = out"

inductive conn_step :: "transport \<Rightarrow> penv \<Rightarrow> connection \<Rightarrow> label \<Rightarrow> connection \<Rightarrow> bool"
  for tr env where
  queued: "msg_queue c = e # q \<Longrightarrow> dispatch tr (c\<lparr>msg_queue := q\<rparr>) e = Inr (c', out) \<Longrightarrow>
     conn_step tr env c (L_event (fsm_state c) e out) c'"
| recalled: "deferred c = xs @ e # ys \<Longrightarrow> \<not> defers (fsm_state c) e \<Longrightarrow>
     dispatch tr (c\<lparr>deferred := xs @ ys\<rparr>) e = Inr (c', out) \<Longrightarrow>
     conn_step tr env c (L_event (fsm_state c) e out) c'"
| round: "reading c \<Longrightarrow> quiescent c \<Longrightarrow> read_round env c = Inr (c', out) \<Longrightarrow>
     conn_step tr env c (L_round out) c'"

text \<open>
  The outside world: completions of Asio, with the state of the socket it leaves behind, and the
  public operations. A read completes with at least one byte or with an error and none.
\<close>

inductive env_step :: "connection \<Rightarrow> connection \<Rightarrow> bool" where
  connect_done: "env_step c (handle_connect ec (c\<lparr>sock_open := b\<rparr>))"
| read_done: "\<not> reading c \<Longrightarrow> length bytes < 2 ^ 64 \<Longrightarrow> env_step c (handle_read None bytes c)"
| read_failed: "\<not> reading c \<Longrightarrow> env_step c (handle_read (Some m) [] c)"
| write_done: "env_step c (handle_write ec c)"
| api_connect: "env_step c (connect opts c)"
| api_execute: "env_step c (execute evt c)"
| api_terminate: "env_step c (terminate c)"

inductive conn_run :: "transport \<Rightarrow> penv \<Rightarrow> connection_callbacks \<Rightarrow> label list \<Rightarrow> connection \<Rightarrow> bool"
  for tr env cbs where
  start: "conn_run tr env cbs [] (new_connection cbs)"
| step: "conn_run tr env cbs ls c \<Longrightarrow> conn_step tr env c l c' \<Longrightarrow> conn_run tr env cbs (ls @ [l]) c'"
| env: "conn_run tr env cbs ls c \<Longrightarrow> env_step c c' \<Longrightarrow> conn_run tr env cbs ls c'"

section \<open>The invariant\<close>

definition deferrable :: "event \<Rightarrow> bool" where
  "deferrable e \<longleftrightarrow> e = Ev_terminate \<or> (\<exists>evt. e = Ev_execute evt)"

definition conn_inv :: "connection_callbacks \<Rightarrow> connection \<Rightarrow> bool" where
  "conn_inv cbs c \<longleftrightarrow>
     (fsm_state c \<noteq> Query \<longrightarrow> cur_query c = empty_execute) \<and>
     callbacks c = (if fsm_state c = Terminated then no_callbacks else cbs) \<and>
     list_all deferrable (deferred c) \<and>
     (if reading c then read_left c = length (incoming c) \<and> read_left c < 2 ^ 64 else incoming c = [])"

lemma conn_inv_new: "conn_inv cbs (new_connection cbs)"
  by (simp add: conn_inv_def new_connection_def no_callbacks_def)

lemma conn_inv_msg [simp]: "conn_inv cbs (c\<lparr>msg_queue := q\<rparr>) \<longleftrightarrow> conn_inv cbs c"
  "conn_inv cbs (c\<lparr>sock_open := b\<rparr>) \<longleftrightarrow> conn_inv cbs c"
  by (simp_all add: conn_inv_def)

lemma conn_inv_process [simp]: "conn_inv cbs (process_event c e) \<longleftrightarrow> conn_inv cbs c"
  by (simp add: process_event_def)

lemma trans_inv: "conn_trans tr c e out c' \<Longrightarrow> conn_inv cbs c \<Longrightarrow> conn_inv cbs c'"
  by (induction rule: conn_trans.induct) (auto simp: conn_inv_def finish_def deferrable_def)

lemma round_inv:
  assumes "read_round env c = Inr (c', out)" "reading c" "conn_inv cbs c"
  shows "conn_inv cbs c'"
proof (cases "read_left c = 0")
  case True
  with assms show ?thesis by (auto simp: read_round_def conn_inv_def)
next
  case False
  with assms(1) obtain ev left rest where
    st: "read_step env (read_left c) (incoming c) = Inr (ev, left, rest)" and
    c': "c' = process_event (c\<lparr>incoming := rest, read_left := left\<rparr>) ev"
    by (auto simp: read_round_def split: sum.splits)
  from assms(2,3) have l: "read_left c = length (incoming c)" "length (incoming c) < 2 ^ 64"
    by (auto simp: conn_inv_def)
  with st have "left = length rest" using read_step_balance by metis
  moreover have "length rest \<le> length (incoming c)" using st by (cases rule: read_step_cases) auto
  ultimately have "conn_inv cbs (c\<lparr>incoming := rest, read_left := left\<rparr>)"
    using assms(2,3) l by (simp add: conn_inv_def)
  with c' show ?thesis by simp
qed

lemma step_inv: "conn_step tr env c l c' \<Longrightarrow> conn_inv cbs c \<Longrightarrow> conn_inv cbs c'"
proof (induction rule: conn_step.induct)
  case (queued c e q c' out)
  then have "conn_inv cbs (c\<lparr>msg_queue := q\<rparr>)" by simp
  with dispatch_trans[OF queued(2)] show ?case by (rule trans_inv)
next
  case (recalled c xs e ys c' out)
  then have "conn_inv cbs (c\<lparr>deferred := xs @ ys\<rparr>)"
    by (cases "reading c") (simp_all add: conn_inv_def)
  with dispatch_trans[OF recalled(3)] show ?case by (rule trans_inv)
next
  case (round c c' out)
  from round_inv[OF round(3,1,4)] show ?case .
qed

lemma env_inv: "env_step c c' \<Longrightarrow> conn_inv cbs c \<Longrightarrow> conn_inv cbs c'"
proof (induction rule: env_step.induct)
  case (read_done c bytes)
  then show ?case by (simp add: handle_read_def conn_inv_def)
next
  case (read_failed c m)
  then show ?case by (simp add: handle_read_def)
qed (simp_all add: handle_connect_def handle_write_def connect_def execute_def terminate_def
    split: option.splits)

lemma run_inv: "conn_run tr env cbs ls c \<Longrightarrow> conn_inv cbs c"
  by (induction rule: conn_run.induct) (blast intro: conn_inv_new step_inv env_inv)+

section \<open>The history of a connection\<close>

definition actions :: "label list \<Rightarrow> action list" where
  "actions ls = concat (map label_actions ls)"

lemma actions_snoc [simp]: "actions [] = []" "actions (ls @ [l]) = actions ls @ label_actions l"
  by (simp_all add: actions_def)

fun is_terminated_note :: "action \<Rightarrow> bool" where
  "is_terminated_note (Out_terminated _) = True"
| "is_terminated_note _ = False"

fun is_answer :: "action \<Rightarrow> bool" where
  "is_answer (Out_post _ _ _) = True"
| "is_answer (Out_query_error _ _) = True"
| "is_answer _ = False"

text \<open>Requests taken up, and requests in flight when the connection broke.\<close>

fun started :: "label \<Rightarrow> nat" where
  "started (L_event Idle (Ev_execute _) _) = 1"
| "started _ = 0"

fun lost :: "label \<Rightarrow> nat" where
  "lost (L_event Query (Ev_connection_error _) _) = 1"
| "lost _ = 0"

definition answered :: "label \<Rightarrow> nat" where
  "answered l = length (filter is_answer (label_actions l))"

fun both_callbacks :: "label \<Rightarrow> bool" where
  "both_callbacks (L_event _ (Ev_execute evt) _) \<longleftrightarrow> result_cb evt \<noteq> None \<and> error_cb evt \<noteq> None"
| "both_callbacks _ = True"

definition in_flight :: "connection \<Rightarrow> nat" where
  "in_flight c = (if fsm_state c = Query then 1 else 0)"

lemma notes_filters [simp]:
  "filter is_answer (notify_idle c) = []" "filter is_answer (notify_error c m) = []"
  "filter is_answer (term_notes c) = []" "filter is_answer (send tr b c) = []"
  "filter is_terminated_note (notify_idle c) = []" "filter is_terminated_note (notify_error c m) = []"
  "filter is_terminated_note (send tr b c) = []" "filter is_terminated_note (notify_result q r) = []"
  "filter is_terminated_note (notify_query_error q m) = []"
  by (simp_all add: notify_idle_def notify_error_def term_notes_def notify_terminated_def send_def
      notify_result_def notify_query_error_def split: option.split)

lemma env_state: "env_step c c' \<Longrightarrow> fsm_state c' = fsm_state c \<and> cur_query c' = cur_query c"
  by (induction rule: env_step.induct)
    (auto simp: handle_connect_def handle_read_def handle_write_def connect_def execute_def
      terminate_def process_event_def split: option.splits)

lemma round_state:
  "read_round env c = Inr (c', out) \<Longrightarrow>
     fsm_state c' = fsm_state c \<and> cur_query c' = cur_query c \<and> set out \<subseteq> {Out_read}"
  by (auto simp: read_round_def process_event_def start_read_def split: if_splits sum.splits)

definition query_ready :: "connection \<Rightarrow> bool" where
  "query_ready c \<longleftrightarrow>
     (fsm_state c = Query \<longrightarrow> result_cb (cur_query c) \<noteq> None \<and> error_cb (cur_query c) \<noteq> None)"

lemma trans_balance:
  assumes "conn_trans tr c e out c'" "both_callbacks (L_event (fsm_state c) e out)" "query_ready c"
  shows "in_flight c + started (L_event (fsm_state c) e out) =
      in_flight c' + answered (L_event (fsm_state c) e out) + lost (L_event (fsm_state c) e out) \<and>
    query_ready c'"
  using assms
  by (induction rule: conn_trans.induct)
    (auto simp: in_flight_def query_ready_def answered_def finish_def notify_result_def
      notify_query_error_def)

lemma step_balance:
  assumes "conn_step tr env c l c'" "both_callbacks l" "query_ready c"
  shows "in_flight c + started l = in_flight c' + answered l + lost l \<and> query_ready c'"
  using assms
proof (induction rule: conn_step.induct)
  case (queued c e q c' out)
  from trans_balance[OF dispatch_trans[OF queued(2)]] queued(3,4) show ?case
    by (simp add: in_flight_def query_ready_def)
next
  case (recalled c xs e ys c' out)
  from trans_balance[OF dispatch_trans[OF recalled(3)]] recalled(4,5) show ?case
    by (simp add: in_flight_def query_ready_def)
next
  case (round c c' out)
  from round_state[OF round(3)] round(5) show ?case
    by (auto simp: in_flight_def query_ready_def answered_def filter_empty_conv)
qed

lemma run_balance:
  assumes "conn_run tr env cbs ls c" "list_all both_callbacks ls"
  shows "sum_list (map started ls) =
      sum_list (map answered ls) + sum_list (map lost ls) + in_flight c \<and> query_ready c"
  using assms
proof (induction rule: conn_run.induct)
  case start
  show ?case by (simp add: in_flight_def query_ready_def new_connection_def)
next
  case (step ls c l c')
  with step_balance[OF step(2)] show ?case by auto
next
  case (env ls c c')
  with env_state[OF env(2)] show ?case by (simp add: in_flight_def query_ready_def)
qed

section \<open>Termination is final and announced once\<close>

lemma trans_term:
  "conn_trans tr c e out c' \<Longrightarrow>
     (fsm_state c = Terminated \<longrightarrow> fsm_state c' = Terminated \<and> out = []) \<and>
     filter is_terminated_note out =
       (if fsm_state c \<noteq> Terminated \<and> fsm_state c' = Terminated
        then (case terminated_cb (callbacks c) of None \<Rightarrow> [] | Some cb \<Rightarrow> [Out_terminated cb]) else [])"
  by (induction rule: conn_trans.induct)
    (auto simp: finish_def term_notes_def notify_terminated_def split: option.split)

lemma step_term:
  assumes "conn_step tr env c l c'"
  shows "(fsm_state c = Terminated \<longrightarrow> fsm_state c' = Terminated \<and> set (label_actions l) \<subseteq> {Out_read}) \<and>
     filter is_terminated_note (label_actions l) =
       (if fsm_state c \<noteq> Terminated \<and> fsm_state c' = Terminated
        then (case terminated_cb (callbacks c) of None \<Rightarrow> [] | Some cb \<Rightarrow> [Out_terminated cb]) else [])"
  using assms
proof (induction rule: conn_step.induct)
  case (queued c e q c' out)
  from trans_term[OF dispatch_trans[OF queued(2)]] show ?case by simp
next
  case (recalled c xs e ys c' out)
  from trans_term[OF dispatch_trans[OF recalled(3)]] show ?case by simp
next
  case (round c c' out)
  from round_state[OF round(3)] show ?case by (auto simp: filter_empty_conv)
qed

lemma run_term:
  assumes "conn_run tr env cbs ls c"
  shows "filter is_terminated_note (actions ls) =
     (if fsm_state c = Terminated
      then (case terminated_cb cbs of None \<Rightarrow> [] | Some cb \<Rightarrow> [Out_terminated cb]) else [])"
  using assms
proof (induction rule: conn_run.induct)
  case start
  show ?case by (simp add: new_connection_def)
next
  case (step ls c l c')
  from run_inv[OF step(1)] have "fsm_state c \<noteq> Terminated \<longrightarrow> callbacks c = cbs"
    by (simp add: conn_inv_def)
  with step_term[OF step(2)] step.IH show ?case by auto
next
  case (env ls c c')
  with env_state[OF env(2)] show ?case by simp
qed

section \<open>Which reply answers which request\<close>

text \<open>The requests taken up, by their error callbacks; the replies taken while one waits; the answers given.\<close>

fun started_ids :: "label \<Rightarrow> callback list" where
  "started_ids (L_event Idle (Ev_execute evt) _) = (case error_cb evt of None \<Rightarrow> [] | Some e \<Rightarrow> [e])"
| "started_ids _ = []"

fun replies :: "label \<Rightarrow> (string + result_t) list" where
  "replies (L_event Query (Ev_recv r) _) = [Inr r]"
| "replies (L_event Query (Ev_query_error m) _) = [Inl m]"
| "replies _ = []"

fun answer_of :: "action \<Rightarrow> (callback \<times> (string + result_t)) list" where
  "answer_of (Out_post _ (Some e) r) = [(e, Inr r)]"
| "answer_of (Out_query_error e m) = [(e, Inl m)]"
| "answer_of _ = []"

definition answers :: "label list \<Rightarrow> (callback \<times> (string + result_t)) list" where
  "answers ls = concat (map answer_of (actions ls))"

definition all_started :: "label list \<Rightarrow> callback list" where
  "all_started ls = concat (map started_ids ls)"

definition all_replies :: "label list \<Rightarrow> (string + result_t) list" where
  "all_replies ls = concat (map replies ls)"

lemma answer_lists [simp]:
  "answers [] = []" "all_started [] = []" "all_replies [] = []"
  "answers (ls @ [l]) = answers ls @ concat (map answer_of (label_actions l))"
  "all_started (ls @ [l]) = all_started ls @ started_ids l"
  "all_replies (ls @ [l]) = all_replies ls @ replies l"
  by (simp_all add: answers_def all_started_def all_replies_def)

lemma no_answers [simp]:
  "concat (map answer_of (notify_idle c)) = []" "concat (map answer_of (notify_error c m)) = []"
  "concat (map answer_of (term_notes c)) = []" "concat (map answer_of (send tr b c)) = []"
  by (auto simp: notify_idle_def notify_error_def term_notes_def notify_terminated_def send_def
      split: option.splits)

text \<open>The state of the book-keeping: \<open>S\<close> requests, \<open>R\<close> replies, \<open>A\<close> answers.\<close>

definition matched ::
  "connection \<Rightarrow> callback list \<Rightarrow> (string + result_t) list \<Rightarrow> (callback \<times> (string + result_t)) list \<Rightarrow> bool" where
  "matched c S R A \<longleftrightarrow>
     A = zip S R \<and> length R \<le> length S \<and> length S \<le> length R + 1 \<and>
     (fsm_state c \<noteq> Terminated \<longrightarrow> length S = length R + (if fsm_state c = Query then 1 else 0)) \<and>
     (fsm_state c = Query \<longrightarrow> Some (last S) = error_cb (cur_query c))"

lemma zip_last: "length S = Suc (length R) \<Longrightarrow> zip S (R @ [r]) = zip S R @ [(last S, r)]"
proof (induction S arbitrary: R)
  case (Cons x S)
  then show ?case by (cases R) auto
qed simp

lemma trans_matched:
  assumes "conn_trans tr c e out c'" and "both_callbacks (L_event (fsm_state c) e out)" and "query_ready c"
    and "matched c S R A"
  shows "matched c' (S @ started_ids (L_event (fsm_state c) e out)) (R @ replies (L_event (fsm_state c) e out))
    (A @ concat (map answer_of out))"
  using assms
proof (induction rule: conn_trans.induct)
  case (answer c r)
  then have "length S = Suc (length R)" by (simp add: matched_def)
  from zip_last[OF this, of "Inr r"] answer show ?case
    by (auto simp: matched_def query_ready_def notify_result_def)
next
  case (refuse c m)
  then have "length S = Suc (length R)" by (simp add: matched_def)
  from zip_last[OF this, of "Inl m"] refuse show ?case
    by (auto simp: matched_def query_ready_def notify_query_error_def)
qed (auto simp: matched_def finish_def zip_append1)

lemma step_matched:
  assumes "conn_step tr env c l c'" and "both_callbacks l" and "query_ready c" and "matched c S R A"
  shows "matched c' (S @ started_ids l) (R @ replies l) (A @ concat (map answer_of (label_actions l)))"
  using assms
proof (induction rule: conn_step.induct)
  case (queued c e q c' out)
  from trans_matched[OF dispatch_trans[OF queued(2)], of S R A] queued(3-5) show ?case
    by (simp add: matched_def query_ready_def)
next
  case (recalled c xs e ys c' out)
  from trans_matched[OF dispatch_trans[OF recalled(3)], of S R A] recalled(4-6) show ?case
    by (simp add: matched_def query_ready_def)
next
  case (round c c' out)
  note st = round_state[OF round(3)]
  then have "concat (map answer_of out) = []" by (induction out) auto
  with st round(6) show ?case by (simp add: matched_def)
qed

lemma run_matched:
  assumes "conn_run tr env cbs ls c" and "list_all both_callbacks ls"
  shows "matched c (all_started ls) (all_replies ls) (answers ls)"
  using assms
proof (induction rule: conn_run.induct)
  case start
  show ?case by (simp add: matched_def new_connection_def)
next
  case (step ls c l c')
  with run_balance[OF step(1)] step_matched[OF step(2)] show ?case by simp
next
  case (env ls c c')
  with env_state[OF env(2)] show ?case by (simp add: matched_def)
qed

section \<open>Creation\<close>

lemma creation_plugs:
  assumes "uri opts \<noteq> []"
  shows "(case connection_create opts cbs of
      Inl e \<Rightarrow> schema opts \<notin> {''tcp'', ''unix''} \<and>
        e = connection_error (''Schema '' @ schema opts @ '' is unsupported'')
    | Inr (tr, c) \<Rightarrow> schema opts \<in> {''tcp'', ''unix''} \<and> msg_queue c = [Ev_options opts] \<and>
        (\<exists>req. connect_async tr opts = Inr req \<and>
          dispatch tr (c\<lparr>msg_queue := []\<rparr>) (Ev_options opts) =
            Inr (c\<lparr>msg_queue := [], conn_opts := opts, fsm_state := Connecting\<rparr>, [Out_connect req])))"
proof -
  have plug: "dispatch tr (create_with opts cbs\<lparr>msg_queue := []\<rparr>) (Ev_options opts) =
      Inr (create_with opts cbs\<lparr>msg_queue := [], conn_opts := opts, fsm_state := Connecting\<rparr>, [Out_connect req])"
    if "connect_async tr opts = Inr req" for tr req
    using that assms by (intro trans_dispatch)
      (auto simp: conn_trans.simps create_with_def connect_def process_event_def new_connection_def)
  have queue: "msg_queue (create_with opts cbs) = [Ev_options opts]"
    by (simp add: create_with_def connect_def process_event_def new_connection_def)
  consider "schema opts = ''tcp''" | "schema opts = ''unix''" | "schema opts \<notin> {''tcp'', ''unix''}" by blast
  then show ?thesis
  proof cases
    case 1
    with tcp.accepts[OF 1 assms] plug queue show ?thesis by (auto simp: connection_create_def)
  next
    case 2
    with unix.accepts[OF 2 assms] plug queue show ?thesis by (auto simp: connection_create_def)
  qed (simp add: connection_create_def)
qed

end
