(* ===== verification/Rd_Session.thy ===== *)
theory Rd_Session
  imports Rd_Connection_Laws "HOL-Library.Code_Target_Nat"
begin

text \<open>
  An executable schedule for one connection: stimuli of the outside world come one after the other,
  and after each the connection works until it is at rest, taking queued events before deferred ones
  and both before the next round of the read loop. It is one of the schedules that \<^const>\<open>conn_run\<close>
  allows.
\<close>

datatype stimulus =
  St_connect_done sys_error bool
| St_read string
| St_read_failed string
| St_write_done sys_error
| St_connect connection_options
| St_execute execute_event
| St_terminate

fun stimulate :: "stimulus \<Rightarrow> connection \<Rightarrow> connection option" where
  "stimulate (St_connect_done ec b) c = Some (handle_connect ec (c\<lparr>sock_open := b\<rparr>))"
| "stimulate (St_read bytes) c =
     (if reading c \<or> \<not> length bytes < 2 ^ 64 then None else Some (handle_read None bytes c))"
| "stimulate (St_read_failed m) c = (if reading c then None else Some (handle_read (Some m) [] c))"
| "stimulate (St_write_done ec) c = Some (handle_write ec c)"
| "stimulate (St_connect opts) c = Some (connect opts c)"
| "stimulate (St_execute evt) c = Some (execute evt c)"
| "stimulate St_terminate c = Some (terminate c)"

text \<open>The first deferred event that the state takes up, with those before and after it.\<close>

fun first_recalled :: "fsm_state \<Rightarrow> event list \<Rightarrow> (event list \<times> event \<times> event list) option" where
  "first_recalled st [] = None"
| "first_recalled st (e # es) =
     (if \<not> defers st e then Some ([], e, es)
      else map_option (\<lambda>(xs, x, ys). (e # xs, x, ys)) (first_recalled st es))"

text \<open>One step: nothing to do is \<^const>\<open>None\<close>.\<close>

definition advance :: "transport \<Rightarrow> penv \<Rightarrow> connection \<Rightarrow> (fault + label \<times> connection) option" where
  "advance tr env c =
     (case msg_queue c of
        e # q \<Rightarrow>
          Some (case dispatch tr (c\<lparr>msg_queue := q\<rparr>) e of
                  Inl f \<Rightarrow> Inl f
                | Inr (c', out) \<Rightarrow> Inr (L_event (fsm_state c) e out, c'))
      | [] \<Rightarrow>
          (case first_recalled (fsm_state c) (deferred c) of
             Some (xs, e, ys) \<Rightarrow>
               Some (case dispatch tr (c\<lparr>deferred := xs @ ys\<rparr>) e of
                       Inl f \<Rightarrow> Inl f
                     | Inr (c', out) \<Rightarrow> Inr (L_event (fsm_state c) e out, c'))
           | None \<Rightarrow>
               if reading c then
                 Some (case read_round env c of
                         Inl f \<Rightarrow> Inl f
                       | Inr (c', out) \<Rightarrow> Inr (L_round out, c'))
               else None))"

text \<open>\<open>fuel\<close> bounds the number of steps to rest; \<^const>\<open>None\<close> is a fault, a refused stimulus or no fuel.\<close>

fun settle :: "nat \<Rightarrow> transport \<Rightarrow> penv \<Rightarrow> label list \<times> connection \<Rightarrow> (label list \<times> connection) option" where
  "settle fuel tr env (ls, c) =
     (case advance tr env c of
        None \<Rightarrow> Some (ls, c)
      | Some (Inl f) \<Rightarrow> None
      | Some (Inr (l, c')) \<Rightarrow>
          (case fuel of 0 \<Rightarrow> None | Suc fuel \<Rightarrow> settle fuel tr env (ls @ [l], c')))"

fun session ::
  "nat \<Rightarrow> transport \<Rightarrow> penv \<Rightarrow> stimulus list \<Rightarrow> label list \<times> connection \<Rightarrow> (label list \<times> connection) option" where
  "session fuel tr env [] s = Some s"
| "session fuel tr env (st # sts) (ls, c) =
     Option.bind (stimulate st c)
       (\<lambda>c. Option.bind (settle fuel tr env (ls, c)) (session fuel tr env sts))"

declare settle.simps [simp del]

lemma stimulate_env: "stimulate st c = Some c' \<Longrightarrow> env_step c c'"
  by (cases st) (auto intro: env_step.intros split: if_splits)

lemma first_recalled_Some:
  "first_recalled st es = Some (xs, e, ys) \<Longrightarrow> es = xs @ e # ys \<and> \<not> defers st e"
  by (induction st es arbitrary: xs rule: first_recalled.induct) (auto split: if_splits)

lemma first_recalled_None: "first_recalled st es = None \<longleftrightarrow> list_all (defers st) es"
  by (induction st es rule: first_recalled.induct) auto

lemma advance_step: "advance tr env c = Some (Inr (l, c')) \<Longrightarrow> conn_step tr env c l c'"
  by (auto simp: advance_def quiescent_def first_recalled_None dest!: first_recalled_Some
      intro: conn_step.intros split: list.splits option.splits sum.splits prod.splits if_splits)

lemma settle_run:
  "settle fuel tr env (ls, c) = Some (ls', c') \<Longrightarrow> conn_run tr env cbs ls c \<Longrightarrow> conn_run tr env cbs ls' c'"
proof (induction fuel arbitrary: ls c)
  case 0
  then show ?case by (auto simp: settle.simps split: option.splits sum.splits)
next
  case (Suc fuel)
  show ?case
  proof (cases "advance tr env c")
    case None
    with Suc.prems show ?thesis by (simp add: settle.simps)
  next
    case (Some r)
    with Suc.prems(1) obtain l c1 where r: "r = Inr (l, c1)" "settle fuel tr env (ls @ [l], c1) = Some (ls', c')"
      by (auto simp: settle.simps[of "Suc fuel"] split: sum.splits)
    from Suc.IH[OF r(2)] conn_run.step[OF Suc.prems(2) advance_step] Some r(1) show ?thesis by blast
  qed
qed

text \<open>Every session is a run.\<close>

lemma session_run:
  "session fuel tr env sts (ls, c) = Some (ls', c') \<Longrightarrow> conn_run tr env cbs ls c \<Longrightarrow>
     conn_run tr env cbs ls' c'"
proof (induction fuel tr env sts "(ls, c)" arbitrary: ls c rule: session.induct)
  case (2 fuel tr env st sts ls c)
  from 2(2) obtain c1 ls2 c2 where
    s: "stimulate st c = Some c1" "settle fuel tr env (ls, c1) = Some (ls2, c2)"
      "session fuel tr env sts (ls2, c2) = Some (ls', c')"
    by (auto simp: bind_eq_Some_conv)
  from settle_run[OF s(2) conn_run.env[OF 2(3) stimulate_env[OF s(1)]]]
  have "conn_run tr env cbs ls2 c2" .
  with 2(1)[OF s(1) s(2) s(3)] show ?case by simp
qed simp

lemmas session_from_start = session_run[OF _ conn_run.start]

section \<open>A sample session\<close>

text \<open>
  A connection with a password: it connects, authenticates, serves one request with an integer reply,
  and is terminated while a second request waits for its reply.
\<close>

definition sample_options :: connection_options where
  "sample_options = default_options\<lparr>conn_alias := ''main'', schema := ''tcp'', uri := ''localhost:7000'', password := ''pw''\<rparr>"

definition sample_callbacks :: connection_callbacks where
  "sample_callbacks = \<lparr>idle_cb = Some 0, terminated_cb = Some 1, conn_error_cb = Some 2\<rparr>"

definition sample_request :: execute_event where
  "sample_request = \<lparr>buff = wire_command [''INCR'', ''k''], result_cb = Some 7, error_cb = Some 8\<rparr>"

definition sample_stimuli :: "stimulus list" where
  "sample_stimuli =
     [St_connect sample_options, St_connect_done None True, St_read (''+OK'' @ crlf),
      St_execute sample_request, St_write_done None, St_read (resp (Int_t 5)),
      St_execute sample_request, St_terminate, St_read (''-ERR'' @ crlf)]"

definition sample_session :: "(label list \<times> connection) option" where
  "sample_session = session 20 tcp_transport reader_env sample_stimuli ([], new_connection sample_callbacks)"

lemma sample_outcome:
  "map_option (\<lambda>(ls, c). (actions ls, fsm_state c)) sample_session =
     Some ([Out_connect (Async_resolve ''localhost'' ''7000''), Out_read,
            Out_write (wire_command [''AUTH'', ''pw'']), Out_idle 0, Out_read,
            Out_write (wire_command [''INCR'', ''k'']), Out_post 7 (Some 8) (Int_t 5), Out_idle 0, Out_read,
            Out_write (wire_command [''INCR'', ''k'']), Out_query_error 8 ''ERR'', Out_idle 0,
            Out_close, Out_terminated 1, Out_read], Terminated)"
  by code_simp

lemma sample_labels:
  "map_option (\<lambda>(ls, c). list_all both_callbacks ls) sample_session = Some True"
  by code_simp

lemma sample_run:
  obtains ls c where "sample_session = Some (ls, c)"
    and "conn_run tcp_transport reader_env sample_callbacks ls c"
    and "fsm_state c = Terminated" and "list_all both_callbacks ls"
    and "actions ls = [Out_connect (Async_resolve ''localhost'' ''7000''), Out_read,
            Out_write (wire_command [''AUTH'', ''pw'']), Out_idle 0, Out_read,
            Out_write (wire_command [''INCR'', ''k'']), Out_post 7 (Some 8) (Int_t 5), Out_idle 0, Out_read,
            Out_write (wire_command [''INCR'', ''k'']), Out_query_error 8 ''ERR'', Out_idle 0,
            Out_close, Out_terminated 1, Out_read]"
proof -
  from sample_outcome obtain ls c where s: "sample_session = Some (ls, c)" by auto
  from session_from_start[OF s[unfolded sample_session_def]]
  have "conn_run tcp_transport reader_env sample_callbacks ls c" .
  with sample_outcome[unfolded s] sample_labels[unfolded s] show thesis by (intro that[OF s]) simp_all
qed

end
