(* ===== verification/Rd_Rest.thy ===== *)
theory Rd_Rest
  imports Rd_Session
begin

text \<open>
  A connection comes to rest: between two stimuli of the outside it makes a bounded number of steps,
  in whatever order stored events are taken up, and the bound is enough fuel for \<^const>\<open>settle\<close>. The
  rounds of the read loop inside the state machine are then compared with \<^const>\<open>read_message\<close>, the loop
  as the source writes it.
\<close>

section \<open>The measure\<close>

text \<open>
  A stored event weighs more in the queue than among the deferred ones, since deferring it is a step
  too. A byte to be read can raise an event, and completing a connect can raise one more.
\<close>

definition effort :: "connection \<Rightarrow> nat" where
  "effort c = 2 * length (msg_queue c) + length (deferred c) +
     (if fsm_state c = Unplugged \<or> fsm_state c = Connecting then 3 else 0) +
     (if reading c then 3 * read_left c + 1 else 0)"

abbreviation moves :: "transport \<Rightarrow> penv \<Rightarrow> connection \<Rightarrow> connection \<Rightarrow> bool" where
  "moves tr env c c' \<equiv> (\<exists>l. conn_step tr env c l c')"

lemma trans_effort:
  assumes "conn_trans tr c e out c'"
  shows "effort c' \<le> effort c + (if defers (fsm_state c) e then 1 else 0)"
  using assms by (induction rule: conn_trans.induct) (auto simp: effort_def finish_def)

lemma step_effort:
  assumes "conn_step tr env c l c'" and "conn_inv cbs c"
  shows "effort c' < effort c"
  using assms
proof (induction rule: conn_step.induct)
  case (queued c e q c' out)
  have "effort c = effort (c\<lparr>msg_queue := q\<rparr>) + 2" using queued(1) by (simp add: effort_def)
  with trans_effort[OF dispatch_trans[OF queued(2)]] show ?case by (simp split: if_splits)
next
  case (recalled c xs e ys c' out)
  have "effort c = effort (c\<lparr>deferred := xs @ ys\<rparr>) + 1" using recalled(1) by (simp add: effort_def)
  with trans_effort[OF dispatch_trans[OF recalled(3)]] recalled(2) show ?case by simp
next
  case (round c c' out)
  show ?case
  proof (cases "read_left c = 0")
    case True
    with round show ?thesis by (auto simp: read_round_def effort_def)
  next
    case False
    with round(3) obtain ev left rest where
      st: "read_step env (read_left c) (incoming c) = Inr (ev, left, rest)" and
      c': "c' = process_event (c\<lparr>incoming := rest, read_left := left\<rparr>) ev"
      by (auto simp: read_round_def split: sum.splits)
    from round(1,4) have l: "read_left c = length (incoming c)" "length (incoming c) < 2 ^ 64"
      by (auto simp: conn_inv_def)
    with st have "left = length rest" using read_step_balance by metis
    moreover have "length rest < length (incoming c)"
      using st False l(1) by (cases rule: read_step_cases) auto
    ultimately have "left < read_left c" using l by simp
    with round(1) c' show ?thesis by (simp add: effort_def process_event_def)
  qed
qed

lemma steps_effort:
  assumes "(moves tr env ^^ n) c c'" and "conn_inv cbs c"
  shows "n + effort c' \<le> effort c \<and> conn_inv cbs c'"
  using assms
proof (induction n arbitrary: c')
  case 0
  then show ?case by simp
next
  case (Suc n)
  from Suc.prems(1) obtain c1 l where c1: "(moves tr env ^^ n) c c1" "conn_step tr env c1 l c'" by auto
  with Suc.IH[OF c1(1) Suc.prems(2)] step_effort[OF c1(2)] step_inv[OF c1(2)] show ?case by fastforce
qed

section \<open>Rest\<close>

lemma advance_None: "advance tr env c = None \<longleftrightarrow> quiescent c \<and> \<not> reading c"
  by (auto simp: advance_def quiescent_def first_recalled_None[symmetric]
      split: list.splits option.splits)

lemma settle_simps:
  "advance tr env c = None \<Longrightarrow> settle fuel tr env (ls, c) = Some (ls, c)"
  "advance tr env c = Some (Inl f) \<Longrightarrow> settle fuel tr env (ls, c) = None"
  "advance tr env c = Some (Inr (l, c1)) \<Longrightarrow>
     settle (Suc fuel) tr env (ls, c) = settle fuel tr env (ls @ [l], c1)"
  by (simp_all add: settle.simps[of fuel] settle.simps[of "Suc fuel"])

text \<open>Going on with \<^const>\<open>advance\<close> ends at rest or at a fault.\<close>

definition comes_to_rest ::
  "nat \<Rightarrow> transport \<Rightarrow> penv \<Rightarrow> label list \<Rightarrow> connection \<Rightarrow> bool" where
  "comes_to_rest fuel tr env ls c \<longleftrightarrow>
     (\<exists>ls' c' n. settle fuel tr env (ls, c) = Some (ls', c') \<and> (moves tr env ^^ n) c c' \<and>
        quiescent c' \<and> \<not> reading c') \<or>
     (\<exists>c' n f. settle fuel tr env (ls, c) = None \<and> (moves tr env ^^ n) c c' \<and>
        advance tr env c' = Some (Inl f))"

lemma comes_to_rest_now:
  assumes "advance tr env c = None \<or> advance tr env c = Some (Inl f)"
  shows "comes_to_rest fuel tr env ls c"
  using assms
proof
  assume n: "advance tr env c = None"
  then have "settle fuel tr env (ls, c) = Some (ls, c) \<and> (moves tr env ^^ 0) c c \<and> quiescent c \<and> \<not> reading c"
    using advance_None[of tr env c] by (simp add: settle_simps(1))
  then show ?thesis unfolding comes_to_rest_def by blast
next
  assume "advance tr env c = Some (Inl f)"
  then have "settle fuel tr env (ls, c) = None \<and> (moves tr env ^^ 0) c c \<and> advance tr env c = Some (Inl f)"
    by (simp add: settle_simps(2))
  then show ?thesis unfolding comes_to_rest_def by blast
qed

lemma comes_to_rest_later:
  assumes "advance tr env c = Some (Inr (l, c1))" and "comes_to_rest fuel tr env (ls @ [l]) c1"
  shows "comes_to_rest (Suc fuel) tr env ls c"
proof -
  have "(moves tr env ^^ Suc n) c c'" if "(moves tr env ^^ n) c1 c'" for n c'
    using advance_step[OF assms(1)] that by (intro relpowp_Suc_I2) auto
  with assms(2) show ?thesis unfolding comes_to_rest_def settle_simps(3)[OF assms(1)] by blast
qed

lemma settle_rest: "conn_inv cbs c \<Longrightarrow> effort c \<le> fuel \<Longrightarrow> comes_to_rest fuel tr env ls c"
proof (induction fuel arbitrary: ls c)
  case 0
  show ?case
  proof (cases "advance tr env c")
    case (Some r)
    show ?thesis
    proof (cases r)
      case (Inr lc)
      then obtain l c1 where "lc = (l, c1)" by (cases lc)
      with Some Inr 0 step_effort[OF advance_step] show ?thesis by fastforce
    qed (use Some comes_to_rest_now in auto)
  qed (use comes_to_rest_now in auto)
next
  case (Suc fuel)
  show ?case
  proof (cases "advance tr env c")
    case (Some r)
    show ?thesis
    proof (cases r)
      case (Inr lc)
      then obtain l c1 where lc: "lc = (l, c1)" by (cases lc)
      with Some Inr have st: "advance tr env c = Some (Inr (l, c1))" by simp
      from step_effort[OF advance_step[OF st] Suc.prems(1)] Suc.prems(2) have "effort c1 \<le> fuel" by simp
      with Suc.IH[OF step_inv[OF advance_step[OF st] Suc.prems(1)]] st show ?thesis
        by (blast intro: comes_to_rest_later)
    qed (use Some comes_to_rest_now in auto)
  qed (use comes_to_rest_now in auto)
qed

section \<open>The rounds of the read loop\<close>

text \<open>The events that the loop raises, whatever the state machine does with them.\<close>

definition read_events :: "penv \<Rightarrow> nat \<Rightarrow> string \<Rightarrow> thrown + event list \<times> string" where
  "read_events env m s = read_message env (\<lambda>evs ev. evs @ [ev]) m s []"

lemma read_message_events:
  "read_message env pe m s (foldl pe c evs) =
     map_sum id (map_prod (foldl pe c) id) (read_message env (\<lambda>evs ev. evs @ [ev]) m s evs)"
proof (induction env "\<lambda>evs (ev :: event). evs @ [ev]" m s evs rule: read_message.induct)
  case (1 env m s evs)
  show ?case
  proof (cases "m = 0")
    case False
    then have m: "0 < m" by simp
    show ?thesis
    proof (cases "read_step env m s")
      case (Inl t)
      with m show ?thesis by (simp add: read_message_step)
    next
      case (Inr x)
      obtain ev m' s' where x: "x = (ev, m', s')" by (cases x)
      from 1[OF False Inr x[symmetric] refl] m Inr x show ?thesis by (simp add: read_message_step)
    qed
  qed simp
qed

text \<open>The rounds of a connection alone, with the events they raise left in the queue.\<close>

fun rounds :: "nat \<Rightarrow> penv \<Rightarrow> connection \<Rightarrow> fault + connection" where
  "rounds 0 env c = Inr c"
| "rounds (Suc fuel) env c =
     (if \<not> reading c then Inr c
      else case read_round env c of
             Inl f \<Rightarrow> Inl f
           | Inr (c', out) \<Rightarrow> rounds fuel env c')"

definition after_rounds :: "connection \<Rightarrow> event list \<times> string \<Rightarrow> connection" where
  "after_rounds c r =
     c\<lparr>msg_queue := msg_queue c @ fst r, incoming := snd r, read_left := 0, reading := False\<rparr>"

lemma read_events_step:
  "0 < m \<Longrightarrow> read_step env m s = Inl t \<Longrightarrow> read_events env m s = Inl t"
  "0 < m \<Longrightarrow> read_step env m s = Inr (ev, m', s') \<Longrightarrow>
     read_events env m s = map_sum id (map_prod (Cons ev) id) (read_events env m' s')"
proof -
  assume "0 < m" "read_step env m s = Inr (ev, m', s')"
  moreover have "foldl (\<lambda>evs ev. evs @ [ev]) evs es = evs @ es" for evs es :: "event list"
    by (induction es arbitrary: evs) simp_all
  then have "foldl (\<lambda>evs ev. evs @ [ev]) [ev] = Cons ev" by (simp add: fun_eq_iff)
  moreover note read_message_events[of env "\<lambda>evs ev. evs @ [ev]" m' s' "[ev]" "[]"]
  ultimately show "read_events env m s = map_sum id (map_prod (Cons ev) id) (read_events env m' s')"
    by (simp add: read_events_def read_message_step)
qed (simp add: read_events_def read_message_step)

lemma rounds_read_events:
  assumes "reading c" and "read_left c = length (incoming c)" and "length (incoming c) < 2 ^ 64"
    and "length (incoming c) < fuel"
  shows "rounds fuel env c =
    map_sum Uncaught (after_rounds c) (read_events env (length (incoming c)) (incoming c))"
  using assms
proof (induction fuel arbitrary: c)
  case 0
  then show ?case by simp
next
  case (Suc fuel)
  let ?n = "length (incoming c)"
  show ?case
  proof (cases "incoming c = []")
    case True
    with Suc.prems show ?thesis
      by (cases fuel) (simp_all add: read_round_def read_events_def after_rounds_def)
  next
    case False
    then have n: "0 < ?n" by simp
    show ?thesis
    proof (cases "read_step env ?n (incoming c)")
      case (Inl t)
      with Suc.prems n show ?thesis by (simp add: read_round_def read_events_step)
    next
      case (Inr x)
      then obtain ev left rest where st: "read_step env ?n (incoming c) = Inr (ev, left, rest)" by (cases x) auto
      let ?c = "process_event (c\<lparr>incoming := rest, read_left := left\<rparr>) ev"
      from read_step_balance[OF st] Suc.prems have left: "left = length rest" by simp
      have less: "length rest < ?n" using st n by (cases rule: read_step_cases) auto
      have "rounds (Suc fuel) env c = rounds fuel env ?c"
        using Suc.prems n st by (simp add: read_round_def)
      also have "\<dots> = map_sum Uncaught (after_rounds ?c) (read_events env left rest)"
        using Suc.IH[of ?c] Suc.prems left less by (simp add: process_event_def)
      also have "\<dots> = map_sum Uncaught (after_rounds c) (read_events env ?n (incoming c))"
        unfolding read_events_step(2)[OF n st]
        by (cases "read_events env left rest") (auto simp: after_rounds_def process_event_def)
      finally show ?thesis .
    qed
  qed
qed

section \<open>Bytes that nobody waits for\<close>

text \<open>Whatever arrives at an idle connection faults it: the table has no row for what the read loop raises.\<close>

lemma idle_read_faults:
  assumes "fsm_state cn = Idle" "msg_queue cn = []" "deferred cn = []" "incoming cn = []" and "s \<noteq> []"
  obtains t where "advance tr env (handle_read None s cn) = Some (Inl (Uncaught t))"
  | lb cn' ev where "advance tr env (handle_read None s cn) = Some (Inr (lb, cn'))"
      "advance tr env cn' = Some (Inl (No_transition Idle ev))"
proof (cases "read_step env (length s) s")
  case (Inl t)
  with assms that(1)[of t] show thesis by (simp add: advance_def handle_read_def read_round_def)
next
  case (Inr r)
  obtain ev m' s' where r: "r = (ev, m', s')" by (cases r)
  let ?cn = "cn\<lparr>incoming := s', reading := True, read_left := m', msg_queue := [ev]\<rparr>"
  have "cn\<lparr>reading := True, incoming := s', read_left := m', msg_queue := [ev]\<rparr> = ?cn" by (cases cn) simp
  then have a: "advance tr env (handle_read None s cn) = Some (Inr (L_round [], ?cn))"
    using assms Inr r by (simp add: advance_def handle_read_def read_round_def process_event_def)
  have "(\<exists>m. ev = Ev_query_error m) \<or> (\<exists>v. ev = Ev_recv v)"
    using Inr unfolding r by (cases rule: read_step_cases) auto
  then have "dispatch tr (?cn\<lparr>msg_queue := []\<rparr>) ev = Inl (No_transition Idle ev)"
    using assms(1) by (auto simp: dispatch_Inl_iff)
  then have "advance tr env ?cn = Some (Inl (No_transition Idle ev))" by (simp add: advance_def)
  with a that(2) show thesis by blast
qed

end
