(* ===== verification/Rd_System.thy ===== *)
theory Rd_System
  imports Rd_Session Rd_Service_Laws
begin

text \<open>
  The composition: the service with its pools, the connections that the pools make, and what these
  call of each other. A call between components is a task on the agenda; the tasks that an operation
  gives rise to come before those that wait already, as calls nest. Between two tasks every connection
  may process a stored event, every transfer may complete and the user may call the service, so that a
  synchronous call, a callback that calls back and an interleaving of several threads at the
  granularity of these steps are all among the runs.
\<close>

section \<open>State\<close>

datatype task =
  T_call pool_id pool_call        \<comment> \<open>a call that a pool makes\<close>
| T_action conn_id action         \<comment> \<open>an action of a connection\<close>

record system =
  svc :: rd_state
  conns :: "conn_id \<Rightarrow> (pool_id \<times> transport \<times> connection) option"
  agenda :: "task list"

definition initial_system :: system where
  "initial_system = \<lparr>svc = (None, initial_world), conns = (\<lambda>_. None), agenda = []\<rparr>"

section \<open>Calls\<close>

text \<open>
  A connection is made inside \<^verbatim>\<open>create_new_connection\<close>, before the operation of the pool goes on; the
  other calls become tasks.
\<close>

fun make_connection :: "out_call \<Rightarrow> system \<Rightarrow> system" where
  "make_connection (pid, P_create c) s =
     (case pools (snd (svc s)) pid of
        None \<Rightarrow> s
      | Some p \<Rightarrow>
          (case connection_create (co p) pool_callbacks of
             Inl e \<Rightarrow> s
           | Inr (tr, cn) \<Rightarrow> s\<lparr>conns := (conns s)(c := Some (pid, tr, cn))\<rparr>))"
| "make_connection _ s = s"

definition issue :: "out_call list \<Rightarrow> system \<Rightarrow> system" where
  "issue out s =
     (let s = fold make_connection out s in
      s\<lparr>agenda := map (\<lambda>(pid, call). T_call pid call) (filter (\<lambda>(pid, call). \<not> creates call) out) @ agenda s\<rparr>)"

definition on_conn :: "conn_id \<Rightarrow> (connection \<Rightarrow> connection) \<Rightarrow> system \<Rightarrow> system" where
  "on_conn c f s =
     (case conns s c of
        None \<Rightarrow> s
      | Some (pid, tr, cn) \<Rightarrow> s\<lparr>conns := (conns s)(c := Some (pid, tr, f cn))\<rparr>)"

text \<open>A notification of a connection reaches the pool that made it, through the lambda it was given.\<close>

definition notify_pool ::
  "conn_id \<Rightarrow> (pool \<Rightarrow> pool \<times> pool_call list) \<Rightarrow> system \<Rightarrow> system" where
  "notify_pool c f s =
     (case conns s c of
        None \<Rightarrow> s
      | Some (pid, tr, cn) \<Rightarrow>
          (case on_pool pid f (svc s) of
             (Inl e, r) \<Rightarrow> s\<lparr>svc := r\<rparr>
           | (Inr out, r) \<Rightarrow> issue out (s\<lparr>svc := r\<rparr>)))"

fun run_task :: "task \<Rightarrow> system \<Rightarrow> system" where
  "run_task (T_call pid (P_execute c evt)) s = on_conn c (execute evt) s"
| "run_task (T_call pid (P_terminate c)) s = on_conn c terminate s"
| "run_task (T_call pid (P_closed k)) s = s\<lparr>svc := (fst (svc s), closed_lambda k (snd (svc s)))\<rparr>"
| "run_task (T_call pid (P_error cb e)) s = s"        \<comment> \<open>user code\<close>
| "run_task (T_call pid (P_create c)) s = s"          \<comment> \<open>never on the agenda\<close>
| "run_task (T_action c (Out_idle _)) s = notify_pool c (connection_ready c) s"
| "run_task (T_action c (Out_terminated _)) s = notify_pool c (connection_terminated c) s"
| "run_task (T_action c (Out_conn_error _ m)) s =
     notify_pool c (pool_connection_error None (connection_error m)) s"
| "run_task (T_action c _) s = s"                     \<comment> \<open>user code or a request to Asio\<close>

section \<open>Runs\<close>

text \<open>What the user does; a request carries both callbacks.\<close>

fun user_op :: "svc_op \<Rightarrow> bool" where
  "user_op (S_add_string _ _) = True"
| "user_op (S_add _ _) = True"
| "user_op (S_execute _ _ res err) \<longleftrightarrow> res \<noteq> None \<and> err \<noteq> None"
| "user_op S_io_service = True"
| "user_op S_stop = True"
| "user_op _ = False"

text \<open>What Asio does to a connection.\<close>

fun completion :: "stimulus \<Rightarrow> bool" where
  "completion (St_connect_done _ _) = True"
| "completion (St_read _) = True"
| "completion (St_read_failed _) = True"
| "completion (St_write_done _) = True"
| "completion _ = False"

text \<open>
  The ledger of a run follows the requests, each by its error callback: those taken, those whose
  callbacks were called, and those a connection dropped, which it does in two situations. It also keeps,
  in order, what the connections wrote to their sockets and what the callbacks of the
  requests were given: a result, or the text of an error.
\<close>

record ledger =
  taken :: "nat multiset"
  settled :: "nat multiset"
  dropped :: "nat multiset"
  written :: "(conn_id \<times> string) list"
  posted :: "(callback \<times> (string + result_t)) list"

definition empty_ledger :: ledger where
  "empty_ledger = \<lparr>taken = {#}, settled = {#}, dropped = {#}, written = [], posted = []\<rparr>"

definition ticket :: "execute_event \<Rightarrow> nat multiset" where
  "ticket evt = (case error_cb evt of None \<Rightarrow> {#} | Some e \<Rightarrow> {#e#})"

fun takes :: "svc_op \<Rightarrow> nat multiset" where
  "takes (S_execute _ _ _ (Some e)) = {#e#}"
| "takes _ = {#}"

fun settles :: "task \<Rightarrow> nat multiset" where
  "settles (T_call _ (P_error e _)) = {#e#}"
| "settles (T_action _ (Out_post _ (Some e) _)) = {#e#}"
| "settles (T_action _ (Out_query_error e _)) = {#e#}"
| "settles _ = {#}"

fun writes :: "task \<Rightarrow> (conn_id \<times> string) list" where
  "writes (T_action c (Out_write b)) = [(c, b)]"
| "writes _ = []"

fun posts :: "task \<Rightarrow> (callback \<times> (string + result_t)) list" where
  "posts (T_action _ (Out_post cb _ r)) = [(cb, Inr r)]"
| "posts (T_action _ (Out_query_error cb m)) = [(cb, Inl m)]"
| "posts (T_call _ (P_error cb e)) = [(cb, Inl (what e))]"
| "posts _ = []"

definition book :: "task \<Rightarrow> ledger \<Rightarrow> ledger" where
  "book t l = l\<lparr>settled := settled l + settles t, written := written l @ writes t, posted := posted l @ posts t\<rparr>"

lemma book_simps [simp]: "taken (book t l) = taken l" "settled (book t l) = settled l + settles t"
  "dropped (book t l) = dropped l" "written (book t l) = written l @ writes t" "posted (book t l) = posted l @ posts t"
  by (simp_all add: book_def)

fun drops :: "connection \<Rightarrow> label \<Rightarrow> nat multiset" where
  "drops cn (L_event Terminated (Ev_execute evt) _) = ticket evt"
| "drops cn (L_event Query (Ev_connection_error _) _) = ticket (cur_query cn)"
| "drops cn _ = {#}"

inductive sys_run :: "boost_str \<Rightarrow> penv \<Rightarrow> system \<Rightarrow> ledger \<Rightarrow> bool" for bx env where
  start: "sys_run bx env initial_system empty_ledger"
| api: "sys_run bx env s l \<Longrightarrow> user_op op \<Longrightarrow> svc_step bx op (svc s) = (Inr out, r) \<Longrightarrow>
     sys_run bx env (issue out (s\<lparr>svc := r\<rparr>)) (l\<lparr>taken := taken l + takes op\<rparr>)"
| api_throws: "sys_run bx env s l \<Longrightarrow> user_op op \<Longrightarrow> svc_step bx op (svc s) = (Inl f, r) \<Longrightarrow>
     sys_run bx env (s\<lparr>svc := r\<rparr>) l"
| transfer: "sys_run bx env s l \<Longrightarrow> conns s c = Some (pid, tr, cn) \<Longrightarrow> completion st \<Longrightarrow>
     stimulate st cn = Some cn' \<Longrightarrow>
     sys_run bx env (s\<lparr>conns := (conns s)(c := Some (pid, tr, cn'))\<rparr>) l"
| work: "sys_run bx env s l \<Longrightarrow> conns s c = Some (pid, tr, cn) \<Longrightarrow> conn_step tr env cn lb cn' \<Longrightarrow>
     sys_run bx env
       (s\<lparr>conns := (conns s)(c := Some (pid, tr, cn')), agenda := map (T_action c) (label_actions lb) @ agenda s\<rparr>)
       (l\<lparr>dropped := dropped l + drops cn lb\<rparr>)"
| task: "sys_run bx env s l \<Longrightarrow> agenda s = t # rest \<Longrightarrow>
     sys_run bx env (run_task t (s\<lparr>agenda := rest\<rparr>)) (book t l)"

end
