(* ===== verification/Rd_System_Laws.thy ===== *)
theory Rd_System_Laws
  imports Rd_System
begin

text \<open>
  The laws of the composition. First its shape: what an operation of the user does to the pools, and
  the invariant that whatever is named exists. Then the components inside it: every connection and the
  service behave as in their own runs. Quantities that every step moves from one place to another
  have the locale of \<open>Rd_Flow\<close>, and their accounts are in \<open>Rd_Accounts\<close>.
\<close>

section \<open>What the user's operations do to the pools\<close>

lemma rd_impl_world:
  "rd_impl n r = (i, w) \<Longrightarrow>
     pools w = pools (snd r) \<and> next_pool w = next_pool (snd r) \<and> next_conn w = next_conn (snd r)"
  by (auto simp: rd_impl_def redis_impl_new_def split: prod.splits option.splits)

lemma via_impl_Inr:
  assumes "via_impl f r = (Inr out, r')"
  obtains i w i' w' where "rd_impl DEFAULT_POOL_SIZE r = (i, w)" "f (i, w) = Inr ((i', w'), out)"
    "r' = (Some i', w')"
proof -
  obtain i w where s: "rd_impl DEFAULT_POOL_SIZE r = (i, w)" by fastforce
  with assms obtain i' w' where "f (i, w) = Inr ((i', w'), out)" "r' = (Some i', w')"
    by (auto simp: via_impl_def Let_def split: sum.splits)
  with s that show thesis by blast
qed

lemma via_impl_Inl:
  assumes "via_impl f r = (Inl e, r')"
  obtains i w where "rd_impl DEFAULT_POOL_SIZE r = (i, w)" "r' = (Some i, w)"
proof -
  obtain i w where "rd_impl DEFAULT_POOL_SIZE r = (i, w)" by fastforce
  with assms that show thesis by (auto simp: via_impl_def Let_def split: sum.splits)
qed

lemma user_op_throws:
  assumes "user_op op" and "svc_step bx op r = (Inl f, r')"
  shows "pools (snd r') = pools (snd r) \<and> next_pool (snd r') = next_pool (snd r) \<and>
    next_conn (snd r') = next_conn (snd r)"
proof (cases op)
  case (S_add_string s n)
  with assms(2) have "via_impl (add_connection_string bx s n) r = (Inl f, r')"
    by (simp add: rd_add_connection_string_def)
  then show ?thesis by (rule via_impl_Inl) (auto dest: rd_impl_world)
next
  case (S_add opts n)
  with assms(2) have "via_impl (add_connection opts n) r = (Inl f, r')" by (simp add: rd_add_connection_def)
  then show ?thesis by (rule via_impl_Inl) (auto dest: rd_impl_world)
next
  case (S_execute a cmd res err)
  with assms(2) have "via_impl (service_get_connection a (Single cmd) res err) r = (Inl f, r')"
    by (simp add: rd_execute_def)
  then show ?thesis by (rule via_impl_Inl) (auto dest: rd_impl_world)
qed (use assms in \<open>auto split: prod.splits\<close>)

lemma add_connection_world:
  assumes "add_connection opts n (i, w) = Inr ((i', w'), out)"
  shows "(out = [] \<and> w' = w) \<or>
    (\<exists>k p. pool_create k opts (next_conn w) = Inr (p, [P_create (next_conn w)]) \<and>
       out = [(next_pool w, P_create (next_conn w))] \<and>
       w' = w\<lparr>pools := (pools w)(next_pool w := Some p), next_pool := next_pool w + 1,
              next_conn := next_conn w + 1\<rparr>)"
  using assms by (cases rule: add_connection_Inr) auto

lemma user_op_cases:
  assumes "user_op op" and "svc_step bx op r = (Inr out, r')"
  obtains (same) "out = []" "pools (snd r') = pools (snd r)" "next_pool (snd r') = next_pool (snd r)"
      "next_conn (snd r') = next_conn (snd r)" "\<And>al cmd res err. op \<noteq> S_execute al cmd res err"
    | (new) k opts p where
      "pool_create k opts (next_conn (snd r)) = Inr (p, [P_create (next_conn (snd r))])"
      "out = [(next_pool (snd r), P_create (next_conn (snd r)))]"
      "pools (snd r') = (pools (snd r))(next_pool (snd r) := Some p)"
      "next_pool (snd r') = Suc (next_pool (snd r))" "next_conn (snd r') = Suc (next_conn (snd r))"
      "\<And>al cmd res err. op \<noteq> S_execute al cmd res err"
    | (get) al cmd res err pid p p' calls where
      "op = S_execute al cmd res err" "pools (snd r) pid = Some p"
      "get_connection (next_conn (snd r)) (Single cmd) res err p = Inr (p', calls)"
      "out = map (Pair pid) calls" "pools (snd r') = (pools (snd r))(pid := Some p')"
      "next_pool (snd r') = next_pool (snd r)" "next_conn (snd r') = Suc (next_conn (snd r))"
    | (stop) k m w0 where "op = S_stop" "pools w0 = pools (snd r)" "next_pool w0 = next_pool (snd r)"
      "next_conn w0 = next_conn (snd r)" "close_all k m w0 = (snd r', out)"
proof (cases op)
  case (S_add_string str n)
  with assms(2) have "via_impl (add_connection_string bx str n) r = (Inr out, r')"
    by (simp add: rd_add_connection_string_def)
  then show thesis
  proof (rule via_impl_Inr)
    fix i w i' w'
    assume s: "rd_impl DEFAULT_POOL_SIZE r = (i, w)" "r' = (Some i', w')"
      and "add_connection_string bx str n (i, w) = Inr ((i', w'), out)"
    then obtain opts where "add_connection opts n (i, w) = Inr ((i', w'), out)"
      by (auto simp: add_connection_string_def split: if_splits sum.splits)
    from add_connection_world[OF this] rd_impl_world[OF s(1)] s(2) S_add_string same new
    show thesis by fastforce
  qed
next
  case (S_add opts n)
  with assms(2) have "via_impl (add_connection opts n) r = (Inr out, r')" by (simp add: rd_add_connection_def)
  then show thesis
  proof (rule via_impl_Inr)
    fix i w i' w'
    assume s: "rd_impl DEFAULT_POOL_SIZE r = (i, w)" "r' = (Some i', w')"
      and "add_connection opts n (i, w) = Inr ((i', w'), out)"
    from add_connection_world[OF this(3)] rd_impl_world[OF s(1)] s(2) S_add same new
    show thesis by fastforce
  qed
next
  case (S_execute a cmd res err)
  with assms(2) have "via_impl (service_get_connection a (Single cmd) res err) r = (Inr out, r')"
    by (simp add: rd_execute_def)
  then show thesis
  proof (rule via_impl_Inr)
    fix i w i' w'
    assume s: "rd_impl DEFAULT_POOL_SIZE r = (i, w)" "r' = (Some i', w')"
      and g: "service_get_connection a (Single cmd) res err (i, w) = Inr ((i', w'), out)"
    from g obtain pid p p' calls where
      "pools w pid = Some p" "get_connection (next_conn w) (Single cmd) res err p = Inr (p', calls)"
      "out = map (Pair pid) calls" "w' = w\<lparr>pools := (pools w)(pid := Some p'), next_conn := next_conn w + 1\<rparr>"
      by (auto simp: service_get_connection_def bind_eq_Some_conv
          split: if_splits option.splits sum.splits prod.splits)
    with rd_impl_world[OF s(1)] s(2) get[OF S_execute] show thesis by simp
  qed
next
  case S_io_service
  with assms(2) show thesis
    by (intro same) (auto simp: rd_io_service_def split: prod.splits dest: rd_impl_world)
next
  case S_stop
  show thesis
  proof (cases "fst r")
    case None
    with assms(2) S_stop show thesis by (intro same) (cases r; simp add: rd_stop_def)+
  next
    case (Some i)
    then obtain w where r: "r = (Some i, w)" by (cases r) simp
    show thesis
    proof (cases "svc_state i = Svc_running")
      case True
      let ?w = "w\<lparr>pool_counts := (pool_counts w)(io_svc i := of_nat (length (registry i)))\<rparr>"
      have "close_all (io_svc i) (registry i) ?w = (snd r', out)"
        using assms(2) S_stop r True by (auto simp: rd_stop_def redis_impl_stop_def split: prod.splits)
      then show thesis by (intro stop[OF S_stop, of ?w "io_svc i" "registry i"]) (simp_all add: r)
    next
      case False
      with assms(2) S_stop r show thesis
        by (intro same) (auto simp: rd_stop_def redis_impl_stop_def)
    qed
  qed
qed (use assms(1) in simp_all)

section \<open>What is named exists\<close>

definition both :: "execute_event \<Rightarrow> bool" where
  "both evt \<longleftrightarrow> result_cb evt \<noteq> None \<and> error_cb evt \<noteq> None"

definition conn_both :: "connection \<Rightarrow> bool" where
  "conn_both cn \<longleftrightarrow>
     (\<forall>evt. Ev_execute evt \<in> set (msg_queue cn @ deferred cn) \<longrightarrow> both evt) \<and> query_ready cn \<and>
     conn_inv pool_callbacks cn"

fun task_ok :: "(pool_id \<Rightarrow> conn_id \<Rightarrow> bool) \<Rightarrow> task \<Rightarrow> bool" where
  "task_ok D (T_call _ (P_create _)) \<longleftrightarrow> False"
| "task_ok D (T_call pid (P_execute c evt)) \<longleftrightarrow> D pid c \<and> both evt"
| "task_ok D (T_call pid (P_terminate c)) \<longleftrightarrow> D pid c"
| "task_ok D (T_call _ _) \<longleftrightarrow> True"
| "task_ok D (T_action c _) \<longleftrightarrow> (\<exists>pid. D pid c)"

definition pool_refs :: "(conn_id \<Rightarrow> bool) \<Rightarrow> pool \<Rightarrow> bool" where
  "pool_refs D p \<longleftrightarrow>
     (\<forall>c \<in> set (connections p) \<union> set (ready_connections p). D c) \<and> (\<forall>evt \<in> set (queue p). both evt)"

text \<open>A connection belongs to the pool that made it.\<close>

definition owned :: "system \<Rightarrow> pool_id \<Rightarrow> conn_id \<Rightarrow> bool" where
  "owned s pid c \<longleftrightarrow> (\<exists>tr cn. conns s c = Some (pid, tr, cn))"

lemma owned_simps [simp]: "owned (s\<lparr>svc := r\<rparr>) = owned s" "owned (s\<lparr>agenda := ts\<rparr>) = owned s"
  by (simp_all add: owned_def fun_eq_iff)

definition sys_inv :: "system \<Rightarrow> bool" where
  "sys_inv s \<longleftrightarrow>
     rd_inv (svc s) \<and>
     (\<forall>c pid tr cn. conns s c = Some (pid, tr, cn) \<longrightarrow>
        c < next_conn (snd (svc s)) \<and> pools (snd (svc s)) pid \<noteq> None \<and> conn_both cn) \<and>
     (\<forall>t \<in> set (agenda s). task_ok (owned s) t) \<and>
     (\<forall>pid p. pools (snd (svc s)) pid = Some p \<longrightarrow> pool_refs (owned s pid) p)"

lemma task_ok_mono: "(\<And>pid c. D pid c \<Longrightarrow> D' pid c) \<Longrightarrow> task_ok D t \<Longrightarrow> task_ok D' t"
  by (induction D t rule: task_ok.induct) auto

lemma pool_refs_mono: "(\<And>c. D c \<Longrightarrow> D' c) \<Longrightarrow> pool_refs D p \<Longrightarrow> pool_refs D' p"
  by (auto simp: pool_refs_def)

text \<open>Connections keep the callbacks of their requests.\<close>

lemma trans_both:
  assumes "conn_trans tr c e out c'" and "conn_both c" and "\<And>evt. e = Ev_execute evt \<Longrightarrow> both evt"
  shows "conn_both c'"
proof -
  have "(\<forall>evt. Ev_execute evt \<in> set (msg_queue c' @ deferred c') \<longrightarrow> both evt) \<and> query_ready c'"
    using assms
    by (induction rule: conn_trans.induct) (auto simp: conn_both_def both_def query_ready_def finish_def)
  with trans_inv[OF assms(1)] assms(2) show ?thesis by (auto simp: conn_both_def)
qed

lemma step_both: "conn_step tr env c l c' \<Longrightarrow> conn_both c \<Longrightarrow> conn_both c'"
proof (induction rule: conn_step.induct)
  case (queued c e q c' out)
  then show ?case
    by (intro trans_both[OF dispatch_trans[OF queued(2)]]) (auto simp: conn_both_def query_ready_def)
next
  case (recalled c xs e ys c' out)
  then show ?case
    by (intro trans_both[OF dispatch_trans[OF recalled(3)]])
      (auto simp: conn_both_def query_ready_def conn_inv_def)
next
  case (round c c' out)
  have "Ev_execute evt \<in> set (msg_queue c' @ deferred c') \<Longrightarrow> Ev_execute evt \<in> set (msg_queue c @ deferred c)" for evt
    using round(3)
    by (auto simp: read_round_def process_event_def split: if_splits sum.splits elim!: read_step_cases)
  with round_state[OF round(3)] round_inv[OF round(3,1)] round(4) show ?case
    by (auto simp: conn_both_def query_ready_def)
qed

lemma stimulate_both:
  assumes "completion st" and "stimulate st cn = Some cn'" and "conn_both cn"
  shows "conn_both cn'"
proof -
  have "(\<forall>evt. Ev_execute evt \<in> set (msg_queue cn' @ deferred cn') \<longrightarrow> both evt) \<and> query_ready cn'"
    using assms
    by (cases st)
      (auto simp: conn_both_def query_ready_def handle_connect_def handle_read_def handle_write_def
        process_event_def split: option.splits if_splits)
  with env_inv[OF stimulate_env[OF assms(2)]] assms(3) show ?thesis by (auto simp: conn_both_def)
qed

lemma conn_both_simps [simp]:
  "conn_both (execute evt cn) \<longleftrightarrow> both evt \<and> conn_both cn"
  "conn_both (terminate cn) \<longleftrightarrow> conn_both cn"
  "conn_both (create_with opts pool_callbacks)"
  by (auto simp: conn_both_def query_ready_def conn_inv_def execute_def terminate_def process_event_def
      create_with_def connect_def new_connection_def)

text \<open>Pools name only connections that they were told of or that they made.\<close>

fun op_refs :: "(conn_id \<Rightarrow> bool) \<Rightarrow> pool_op \<Rightarrow> bool" where
  "op_refs D (Op_get _ _ res err) \<longleftrightarrow> res \<noteq> None \<and> err \<noteq> None"
| "op_refs D (Op_ready c) \<longleftrightarrow> D c"
| "op_refs D _ \<longleftrightarrow> True"

lemma close_connections_ok:
  "pool_refs (D pid) p \<Longrightarrow> call \<in> set (close_connections p) \<Longrightarrow> task_ok D (T_call pid call)"
  by (auto simp: close_connections_def pool_refs_def split: if_splits option.splits)

lemma clear_queue_ok: "call \<in> set (clear_queue_loop q ec) \<Longrightarrow> task_ok D (T_call pid call)"
  by (induction q) (auto split: option.splits)

lemma erase_refs: "pool_refs D p \<Longrightarrow> pool_refs D (erase_connection x p)"
proof (cases x)
  case (Some c)
  have "set (remove1 c (connections p)) \<subseteq> set (connections p)" by (rule set_remove1_subset)
  with Some show "pool_refs D p \<Longrightarrow> pool_refs D (erase_connection x p)"
    by (auto simp: erase_connection_def pool_refs_def)
qed (simp add: erase_connection_def)

lemma pool_step_refs:
  assumes "pool_step op p = Inr (p', out)" and "pool_refs (D pid) p" and "op_refs (D pid) op"
  shows "(\<forall>call \<in> set out. \<not> creates call \<longrightarrow> task_ok D (T_call pid call)) \<and>
    pool_refs (\<lambda>c. D pid c \<or> P_create c \<in> set out) p'"
  using assms
proof (induction op p rule: pool_step.induct)
  case (1 conn cmd rcb ecb p)
  show ?case
  proof (cases "closed p")
    case True
    with 1 show ?thesis by (auto simp: get_connection_def pool_refs_def split: option.splits)
  next
    case False
    from 1(1) have "get_connection conn cmd rcb ecb p = Inr (p', out)" by simp
    from this False show ?thesis
      by (cases rule: get_connection_Inr) (use 1(2,3) in \<open>auto simp: pool_refs_def both_def\<close>)
  qed
next
  case (2 c p)
  then show ?case
    using close_connections_ok[where D = D, OF 2(2)]
    by (auto simp: connection_ready_def next_event_def add_idle_connection_def pool_refs_def
        split: list.splits if_splits)
next
  case (3 c p)
  from erase_refs[OF 3(2)] 3 show ?case
    by (auto simp: connection_terminated_def Let_def split: option.splits if_splits elim!: pool_refs_mono[rotated])
next
  case (4 c ec p)
  from erase_refs[OF 4(2), of c] 4 show ?case
    by (auto simp: pool_connection_error_def clear_queue_def pool_refs_def intro: clear_queue_ok)
next
  case (5 cb p)
  let ?p = "p\<lparr>closed := True, closed_callback := cb\<rparr>"
  have "pool_refs (D pid) ?p" using 5(2) by (simp add: pool_refs_def)
  from close_connections_ok[where D = D, OF this] 5 show ?case
    by (auto simp: pool_close_def pool_refs_def Let_def split: if_splits)
qed

lemma pool_step_creates:
  "pool_step op p = Inr (p', out) \<Longrightarrow>
     filter creates out = [] \<or> (\<exists>c cmd res err. op = Op_get c cmd res err \<and> out = [P_create c])"
proof (induction op p rule: pool_step.induct)
  case (1 conn cmd rcb ecb p)
  show ?case
  proof (cases "closed p")
    case True
    with 1 show ?thesis by (auto simp: get_connection_def split: option.splits)
  next
    case False
    from 1(1) have "get_connection conn cmd rcb ecb p = Inr (p', out)" by simp
    from this False show ?thesis by (cases rule: get_connection_Inr) auto
  qed
next
  case (2 c p)
  then show ?case
    by (auto simp: connection_ready_def next_event_def split: list.splits if_splits)
next
  case (3 c p)
  then show ?case
    by (auto simp: connection_terminated_def Let_def split: option.splits if_splits)
next
  case (4 c ec p)
  then show ?case by (auto simp: pool_connection_error_def clear_queue_def)
next
  case (5 cb p)
  then show ?case by (auto simp: pool_close_def Let_def split: if_splits)
qed

section \<open>Issuing calls\<close>

lemma issue_svc [simp]: "svc (issue out s) = svc s"
proof -
  have "svc (make_connection oc s) = svc s" for oc s
    by (induction oc s rule: make_connection.induct) (auto split: option.splits sum.splits)
  then have "svc (fold make_connection out s) = svc s" by (induction out arbitrary: s) simp_all
  then show ?thesis by (simp add: issue_def Let_def)
qed

definition quiet :: "out_call list \<Rightarrow> bool" where
  "quiet out \<longleftrightarrow> (\<forall>oc \<in> set out. \<not> creates (snd oc))"

abbreviation tasks_of :: "out_call list \<Rightarrow> task list" where
  "tasks_of out \<equiv> map (\<lambda>(pid, call). T_call pid call) out"

lemma issue_quiet: "quiet out \<Longrightarrow> issue out s = s\<lparr>agenda := tasks_of out @ agenda s\<rparr>"
proof -
  assume q: "quiet out"
  have "make_connection oc s = s" if "\<not> creates (snd oc)" for oc s
    using that by (induction oc s rule: make_connection.induct) auto
  with q have "fold make_connection out s = s" by (induction out) (auto simp: quiet_def)
  moreover from q have "filter (\<lambda>(pid, call). \<not> creates call) out = out"
    by (auto simp: quiet_def filter_id_conv)
  ultimately show ?thesis by (simp add: issue_def Let_def)
qed

definition conn_transport :: "pool \<Rightarrow> transport" where
  "conn_transport p = (if schema (co p) = ''tcp'' then tcp_transport else socket_transport)"

lemma issue_create:
  "pools (snd (svc s)) pid = Some p \<Longrightarrow> usable (co p) \<Longrightarrow>
     issue [(pid, P_create c)] s =
       s\<lparr>conns := (conns s)(c := Some (pid, conn_transport p, create_with (co p) pool_callbacks))\<rparr>"
  by (simp add: issue_def Let_def connection_create_cases usable_def conn_transport_def)

section \<open>The invariant of the composition\<close>

lemma sys_invD:
  assumes "sys_inv s"
  shows "rd_inv (svc s)"
    and "conns s c = Some (pid, tr, cn) \<Longrightarrow> c < next_conn (snd (svc s))"
    and "conns s c = Some (pid, tr, cn) \<Longrightarrow> pools (snd (svc s)) pid \<noteq> None"
    and "conns s c = Some (pid, tr, cn) \<Longrightarrow> conn_both cn"
    and "t \<in> set (agenda s) \<Longrightarrow> task_ok (owned s) t"
    and "pools (snd (svc s)) pid' = Some p \<Longrightarrow> pool_refs (owned s pid') p"
  using assms unfolding sys_inv_def by blast+

lemma sys_inv_pool:
  "sys_inv s \<Longrightarrow> pools (snd (svc s)) pid = Some p \<Longrightarrow>
     pid < next_pool (snd (svc s)) \<and> pool_inv p \<and> usable (co p)"
  using sys_invD(1)[of s] world_invD[of "fst (svc s)" "snd (svc s)"]
  by (auto simp: rd_inv_def pool_ok_def)

lemma conns_fresh: "sys_inv s \<Longrightarrow> next_conn (snd (svc s)) \<le> c \<Longrightarrow> conns s c = None"
  using sys_invD(2)[of s c] by (cases "conns s c") fastforce+

text \<open>
  The calls of one step are quiet, or they make one connection with a new number; the pools refer to
  what exists then.
\<close>

lemma issue_inv:
  assumes inv: "sys_inv s" and r: "rd_inv r"
    and grow: "next_conn (snd (svc s)) \<le> next_conn (snd r)"
      "\<And>pid. pools (snd (svc s)) pid \<noteq> None \<Longrightarrow> pools (snd r) pid \<noteq> None"
    and out: "quiet out \<and> (\<forall>t \<in> set (tasks_of out). task_ok (owned s) t) \<or>
      (\<exists>pid c. out = [(pid, P_create c)] \<and> pools (snd r) pid \<noteq> None \<and> conns s c = None \<and> c < next_conn (snd r))"
    and refs: "\<And>pid p. pools (snd r) pid = Some p \<Longrightarrow>
      pool_refs (\<lambda>c. owned s pid c \<or> (pid, P_create c) \<in> set out) p"
  shows "sys_inv (issue out (s\<lparr>svc := r\<rparr>))"
  using out
proof
  assume q: "quiet out \<and> (\<forall>t \<in> set (tasks_of out). task_ok (owned s) t)"
  then have "\<nexists>pid c. (pid, P_create c) \<in> set out" by (force simp: quiet_def)
  with refs have "\<And>pid p. pools (snd r) pid = Some p \<Longrightarrow> pool_refs (owned s pid) p" by simp
  with q inv r grow show ?thesis
    unfolding sys_inv_def owned_def by (simp add: issue_quiet) (fastforce dest: less_le_trans)
next
  assume "\<exists>pid c. out = [(pid, P_create c)] \<and> pools (snd r) pid \<noteq> None \<and> conns s c = None \<and> c < next_conn (snd r)"
  then obtain pid c p where o: "out = [(pid, P_create c)]" "pools (snd r) pid = Some p" "c < next_conn (snd r)"
    "conns s c = None" by auto
  have u: "usable (co p)" using r o(2) by (auto simp: rd_inv_def pool_ok_def dest: world_invD)
  let ?s = "issue out (s\<lparr>svc := r\<rparr>)"
  have s: "?s = s\<lparr>svc := r, conns := (conns s)(c := Some (pid, conn_transport p, create_with (co p) pool_callbacks))\<rparr>"
    using o(2) u by (simp add: o(1) issue_create)
  have own: "owned ?s pid' c' \<longleftrightarrow> owned s pid' c' \<or> pid' = pid \<and> c' = c" for pid' c'
    unfolding s owned_def using o(4) by auto
  have "pool_refs (owned ?s pid') p'" if "pools (snd r) pid' = Some p'" for pid' p'
    using refs[OF that] by (rule pool_refs_mono[rotated]) (auto simp: own, auto simp: o(1))
  moreover have "task_ok (owned ?s) t" if "t \<in> set (agenda s)" for t
    using sys_invD(5)[OF inv that] by (rule task_ok_mono[rotated]) (simp add: own)
  moreover have "c' < next_conn (snd r) \<and> pools (snd r) pid' \<noteq> None \<and> conn_both cn"
    if "conns ?s c' = Some (pid', tr, cn)" for c' pid' tr cn
  proof (cases "c' = c")
    case True
    with that o(2,3) show ?thesis unfolding s by auto
  next
    case False
    with that have "conns s c' = Some (pid', tr, cn)" by (simp add: s)
    from sys_invD(2-4)[OF inv this] grow show ?thesis by (auto dest: less_le_trans)
  qed
  ultimately show ?thesis using r unfolding sys_inv_def by (simp add: s)
qed

text \<open>Replacing a connection.\<close>

lemma replace_conn_inv:
  assumes inv: "sys_inv s" and c: "conns s c = Some (pid, tr, cn)" and b: "conn_both cn'"
    and a: "\<forall>t \<in> set ts. task_ok (owned s) t"
  shows "sys_inv (s\<lparr>conns := (conns s)(c := Some (pid, tr, cn')), agenda := ts\<rparr>)"
proof -
  have m: "owned (s\<lparr>conns := (conns s)(c := Some (pid, tr, cn')), agenda := ts\<rparr>) = owned s"
    using c by (intro ext) (auto simp: owned_def)
  have "c' < next_conn (snd (svc s)) \<and> pools (snd (svc s)) pid' \<noteq> None \<and> conn_both x"
    if "((conns s)(c := Some (pid, tr, cn'))) c' = Some (pid', tr', x)" for c' pid' tr' x
    using that sys_invD(2-4)[OF inv] c b by (cases "c' = c") force+
  then show ?thesis
    using sys_invD(1,6)[OF inv] a unfolding sys_inv_def m by simp
qed

lemma close_all_refs:
  "close_all k m w = (w', out) \<Longrightarrow> (\<And>pid p. pools w pid = Some p \<Longrightarrow> pool_refs (D pid) p) \<Longrightarrow>
     quiet out \<and> (\<forall>t \<in> set (tasks_of out). task_ok D t) \<and>
     (\<forall>pid p. pools w' pid = Some p \<longrightarrow> pool_refs (D pid) p) \<and> next_conn w' = next_conn w"
proof (induction k m w arbitrary: w' out rule: close_all.induct)
  case (1 k w)
  then show ?case by (simp add: quiet_def)
next
  case (2 k a pid m w)
  show ?case
  proof (cases "pools w pid")
    case None
    with 2(1)[OF None] 2(3,4) show ?thesis by simp
  next
    case (Some p)
    obtain p1 out1 where c: "pool_close (Some k) p = (p1, out1)" by fastforce
    obtain w2 out2 where
      r: "close_all k m (w\<lparr>pools := (pools w)(pid := Some p1)\<rparr>) = (w2, out2)" by fastforce
    have step: "pool_step (Op_close (Some k)) p = Inr (p1, out1)" by (simp add: c)
    from pool_step_creates[OF step] have f: "filter creates out1 = []" by simp
    then have no: "\<And>x. P_create x \<notin> set out1" by (auto simp: filter_empty_conv)
    from pool_step_refs[where D = D, OF step 2(4)[OF Some]] no f
    have p1: "pool_refs (D pid) p1" "\<forall>t \<in> set (tasks_of (map (Pair pid) out1)). task_ok D t"
      by (auto simp: filter_empty_conv)
    let ?w = "w\<lparr>pools := (pools w)(pid := Some p1)\<rparr>"
    have "quiet out2 \<and> (\<forall>t \<in> set (tasks_of out2). task_ok D t) \<and>
        (\<forall>pid p. pools w2 pid = Some p \<longrightarrow> pool_refs (D pid) p) \<and> next_conn w2 = next_conn ?w"
    proof (rule 2(2)[OF Some c[symmetric] r])
      fix pid' p'
      assume "pools ?w pid' = Some p'"
      with 2(4)[of pid' p'] p1(1) show "pool_refs (D pid') p'" by (cases "pid' = pid") auto
    qed
    moreover have "out = map (Pair pid) out1 @ out2" "w' = w2" using 2(3) Some c r by simp_all
    ultimately show ?thesis using p1(2) f by (fastforce simp: quiet_def filter_empty_conv)
  qed
qed

lemma pool_call_inv:
  assumes inv: "sys_inv s" and p: "pools (snd (svc s)) pid = Some p"
    and step: "pool_step op p = Inr (p', out)" and refs: "op_refs (owned s pid) op"
    and r: "rd_inv r" and w: "pools (snd r) = (pools (snd (svc s)))(pid := Some p')"
      "next_conn (snd (svc s)) \<le> next_conn (snd r)"
    and new: "\<And>c cmd res err. op = Op_get c cmd res err \<Longrightarrow> conns s c = None \<and> c < next_conn (snd r)"
  shows "sys_inv (issue (map (Pair pid) out) (s\<lparr>svc := r\<rparr>))"
proof (rule issue_inv[OF inv r w(2)])
  note pr = pool_step_refs[where D = "owned s", OF step sys_invD(6)[OF inv p] refs]
  show "\<And>pid'. pools (snd (svc s)) pid' \<noteq> None \<Longrightarrow> pools (snd r) pid' \<noteq> None" by (simp add: w)
  show "quiet (map (Pair pid) out) \<and> (\<forall>t \<in> set (tasks_of (map (Pair pid) out)). task_ok (owned s) t) \<or>
      (\<exists>pid' c. map (Pair pid) out = [(pid', P_create c)] \<and> pools (snd r) pid' \<noteq> None \<and> conns s c = None \<and>
        c < next_conn (snd r))"
    using pool_step_creates[OF step] pr new by (fastforce simp: quiet_def filter_empty_conv w)
  show "pool_refs (\<lambda>c. owned s pid' c \<or> (pid', P_create c) \<in> set (map (Pair pid) out)) q"
    if "pools (snd r) pid' = Some q" for pid' q
  proof (cases "pid' = pid")
    case True
    with that w pr show ?thesis by (auto elim!: pool_refs_mono[rotated])
  next
    case False
    with that w have "pools (snd (svc s)) pid' = Some q" by simp
    from sys_invD(6)[OF inv this] show ?thesis by (rule pool_refs_mono[rotated]) simp
  qed
qed

text \<open>What a notification does, as an operation of the pool of the connection.\<close>

lemma notify_pool_inv:
  assumes inv: "sys_inv s" and m: "owned s pid c" and f: "\<And>p. pool_step op p = Inr (f p)"
    and refs: "op_refs (owned s pid) op" and no: "\<And>cb. op \<noteq> Op_close cb" "\<And>c cmd res err. op \<noteq> Op_get c cmd res err"
  shows "sys_inv (notify_pool c f s)"
proof -
  from m obtain tr cn where c: "conns s c = Some (pid, tr, cn)" by (auto simp: owned_def)
  with sys_invD(3)[OF inv this] obtain p where p: "pools (snd (svc s)) pid = Some p" by auto
  obtain p' out where fp: "f p = (p', out)" by fastforce
  obtain i w where r: "svc s = (i, w)" by fastforce
  let ?r = "(i, w\<lparr>pools := (pools w)(pid := Some p')\<rparr>)"
  have n: "notify_pool c f s = issue (map (Pair pid) out) (s\<lparr>svc := ?r\<rparr>)"
    using c p fp r by (simp add: notify_pool_def on_pool_def)
  have "rd_inv (snd (on_pool pid f (svc s)))" using sys_invD(1)[OF inv] f no(1) by (rule on_pool_inv)
  with p fp r have ri: "rd_inv ?r" by (simp add: on_pool_def)
  from f[of p] fp have step: "pool_step op p = Inr (p', out)" by simp
  show ?thesis unfolding n
    by (rule pool_call_inv[OF inv p step refs ri]) (use r no(2) in simp_all)
qed

lemma closed_lambda_rest [simp]:
  "pools (closed_lambda k w) = pools w" "next_pool (closed_lambda k w) = next_pool w"
  "next_conn (closed_lambda k w) = next_conn w"
  by (simp_all add: closed_lambda_def Let_def)

lemma run_task_inv:
  assumes inv: "sys_inv s" and a: "agenda s = t # rest"
  shows "sys_inv (run_task t (s\<lparr>agenda := rest\<rparr>))"
proof -
  let ?s = "s\<lparr>agenda := rest\<rparr>"
  have i: "sys_inv ?s" using inv a by (simp add: sys_inv_def)
  have t: "task_ok (owned ?s) t" using sys_invD(5)[OF inv, of t] a by simp
  have upd: "sys_inv (on_conn c g ?s)"
    if "owned ?s pid c" "\<And>cn. conn_both cn \<Longrightarrow> conn_both (g cn)" for pid c g
  proof -
    from that(1) obtain tr cn where c: "conns ?s c = Some (pid, tr, cn)" by (auto simp: owned_def)
    have "on_conn c g ?s = ?s\<lparr>conns := (conns ?s)(c := Some (pid, tr, g cn)), agenda := rest\<rparr>"
      using c by (simp add: on_conn_def)
    with replace_conn_inv[OF i c that(2)[OF sys_invD(4)[OF i c]], of rest] sys_invD(5)[OF i] show ?thesis
      by simp
  qed
  show ?thesis
  proof (cases t)
    case (T_call pid call)
    show ?thesis
    proof (cases call)
      case (P_closed k)
      have "rd_inv (fst (svc ?s), closed_lambda k (snd (svc ?s)))"
        using sys_invD(1)[OF i] by (cases "svc ?s") (simp add: closed_lambda_def Let_def)
      with i show ?thesis unfolding T_call P_closed sys_inv_def by simp
    qed (use T_call t i upd in auto)
  next
    case (T_action c act)
    with t obtain pid where o: "owned ?s pid c" by auto
    show ?thesis
      by (cases act)
        (use T_action i o notify_pool_inv[OF i o, of "Op_ready c" "connection_ready c"]
          notify_pool_inv[OF i o, of "Op_terminated c" "connection_terminated c"]
          notify_pool_inv[OF i o, of "Op_error None _" "pool_connection_error None _"] in auto)
  qed
qed

lemma api_inv:
  assumes inv: "sys_inv s" and u: "user_op op" and step: "svc_step bx op (svc s) = (Inr out, r)"
  shows "sys_inv (issue out (s\<lparr>svc := r\<rparr>))"
proof -
  have ri: "rd_inv r" using rd_step_inv[OF sys_invD(1)[OF inv], of bx op] step by simp
  from u step show ?thesis
  proof (cases rule: user_op_cases)
    case same
    show ?thesis
      by (rule issue_inv[OF inv ri]) (use same sys_invD(6)[OF inv] in \<open>simp_all add: quiet_def\<close>)
  next
    case (new k opts p)
    let ?c = "next_conn (snd (svc s))" and ?pid = "next_pool (snd (svc s))"
    from new(1) have p: "pool_refs (\<lambda>x. owned s ?pid x \<or> (?pid, P_create x) \<in> set out) p"
      by (auto simp: pool_create_Inr pool_refs_def new(2))
    show ?thesis
    proof (rule issue_inv[OF inv ri])
      fix pid q assume q: "pools (snd r) pid = Some q"
      show "pool_refs (\<lambda>x. owned s pid x \<or> (pid, P_create x) \<in> set out) q"
      proof (cases "pid = ?pid")
        case True
        with p q show ?thesis by (simp add: new(3))
      next
        case False
        with q have "pools (snd (svc s)) pid = Some q" by (simp add: new(3))
        from sys_invD(6)[OF inv this] show ?thesis by (rule pool_refs_mono[rotated]) simp
      qed
    qed (use conns_fresh[OF inv] in \<open>simp_all add: new\<close>)
  next
    case (get al cmd res err pid p p' calls)
    from get(1) u have o: "op_refs (owned s pid) (Op_get (next_conn (snd (svc s))) (Single cmd) res err)" by simp
    from get(3) have "pool_step (Op_get (next_conn (snd (svc s))) (Single cmd) res err) p = Inr (p', calls)" by simp
    from pool_call_inv[OF inv get(2) this o ri get(5)] conns_fresh[OF inv] show ?thesis by (simp add: get)
  next
    case (stop k m w0)
    from close_all_refs[OF stop(5), of "owned s"] sys_invD(6)[OF inv] stop(2)
    have c: "quiet out" "\<forall>t \<in> set (tasks_of out). task_ok (owned s) t"
      "\<And>pid p. pools (snd r) pid = Some p \<Longrightarrow> pool_refs (owned s pid) p" "next_conn (snd r) = next_conn w0"
      by simp_all
    show ?thesis
    proof (rule issue_inv[OF inv ri])
      fix pid assume "pools (snd (svc s)) pid \<noteq> None"
      with close_all_pools[OF stop(5), of pid] stop(2) show "pools (snd r) pid \<noteq> None"
        by (cases "pools w0 pid") auto
    next
      fix pid p assume "pools (snd r) pid = Some p"
      from c(3)[OF this] show "pool_refs (\<lambda>x. owned s pid x \<or> (pid, P_create x) \<in> set out) p"
        by (rule pool_refs_mono[rotated]) simp
    qed (use c stop in simp_all)
  qed
qed

lemma api_throws_inv:
  assumes inv: "sys_inv s" and u: "user_op op" and step: "svc_step bx op (svc s) = (Inl f, r)"
  shows "sys_inv (s\<lparr>svc := r\<rparr>)"
proof -
  have "rd_inv r" using rd_step_inv[OF sys_invD(1)[OF inv], of bx op] step by simp
  with inv user_op_throws[OF u step] show ?thesis by (simp add: sys_inv_def)
qed

lemma sys_run_inv: "sys_run bx env s l \<Longrightarrow> sys_inv s"
proof (induction rule: sys_run.induct)
  case start
  show ?case
    by (simp add: sys_inv_def initial_system_def initial_world_def rd_inv_def world_inv_def)
next
  case (transfer s l c pid tr cn st cn')
  from replace_conn_inv[OF transfer(5,2) stimulate_both[OF transfer(3,4) sys_invD(4)[OF transfer(5,2)]],
      of "agenda s"] sys_invD(5)[OF transfer(5)]
  show ?case by simp
next
  case (work s l c pid tr cn lb cn')
  show ?case
    by (rule replace_conn_inv[OF work(4,2) step_both[OF work(3) sys_invD(4)[OF work(4,2)]]])
      (use sys_invD(5)[OF work(4)] work(2) in \<open>auto simp: owned_def\<close>)
qed (auto intro: api_inv api_throws_inv run_task_inv)

section \<open>The components inside the composition\<close>

text \<open>
  Seen from one connection, a run of the composition is one of its own runs, with the callbacks of a
  pool; seen from the service it is one of its runs. So whatever holds of these alone holds here.
\<close>

definition conns_run :: "penv \<Rightarrow> system \<Rightarrow> bool" where
  "conns_run env s \<longleftrightarrow>
     (\<forall>c pid tr cn. conns s c = Some (pid, tr, cn) \<longrightarrow> (\<exists>ls. conn_run tr env pool_callbacks ls cn))"

lemma conns_run_svc [simp]: "conns_run env (s\<lparr>svc := r\<rparr>) \<longleftrightarrow> conns_run env s"
  "conns_run env (s\<lparr>agenda := ts\<rparr>) \<longleftrightarrow> conns_run env s"
  by (simp_all add: conns_run_def)

lemma conns_run_replace:
  assumes "conns_run env s" and "conn_run tr env pool_callbacks ls cn'"
  shows "conns_run env (s\<lparr>conns := (conns s)(c := Some (pid, tr, cn'))\<rparr>)"
  using assms by (auto simp: conns_run_def)

lemma conns_run_issue: "conns_run env s \<Longrightarrow> conns_run env (issue out s)"
proof -
  assume "conns_run env s"
  moreover have "conns_run env (make_connection oc s)" if "conns_run env s" for oc s
    using that
  proof (induction oc s rule: make_connection.induct)
    case (1 pid c s)
    have r: "conn_run tr env pool_callbacks [] (create_with opts pool_callbacks)" for tr opts
      unfolding create_with_def by (rule conn_run.env[OF conn_run.start env_step.api_connect])
    from 1 conns_run_replace[OF _ r] show ?case
      by (auto simp: connection_create_def split: option.splits if_splits)
  qed simp_all
  ultimately have "conns_run env (fold make_connection out s)" by (induction out arbitrary: s) simp_all
  then show ?thesis by (simp add: issue_def Let_def)
qed

lemma conns_run_on_conn:
  assumes "conns_run env s" and "\<And>cn. env_step cn (g cn)"
  shows "conns_run env (on_conn c g s)"
  using assms conn_run.env by (fastforce simp: on_conn_def conns_run_def split: option.splits)

lemma conns_run_notify: "conns_run env s \<Longrightarrow> conns_run env (notify_pool c f s)"
  by (auto simp: notify_pool_def intro: conns_run_issue split: option.splits prod.splits sum.splits)

lemma conns_run_task: "conns_run env s \<Longrightarrow> conns_run env (run_task t s)"
  by (induction t s rule: run_task.induct)
    (auto intro: conns_run_on_conn conns_run_notify env_step.intros)

lemma on_conn_svc [simp]: "svc (on_conn c g s) = svc s"
  by (simp add: on_conn_def split: option.split)

lemma svc_run_notify:
  assumes "svc_run bx (svc s)" and "\<And>pid. \<exists>op. svc_step bx op (svc s) = on_pool pid f (svc s)"
  shows "svc_run bx (svc (notify_pool c f s))"
proof (cases "conns s c")
  case None
  with assms(1) show ?thesis by (simp add: notify_pool_def)
next
  case (Some a)
  obtain pid tr cn where a: "a = (pid, tr, cn)" by (cases a)
  from assms(2) obtain op where "svc_step bx op (svc s) = on_pool pid f (svc s)" by blast
  with svc_run.step[OF assms(1), of op] have "svc_run bx (snd (on_pool pid f (svc s)))" by simp
  then show ?thesis using Some a by (auto simp: notify_pool_def split: prod.splits sum.splits)
qed

lemma svc_run_task:
  assumes "svc_run bx (svc s)"
  shows "svc_run bx (svc (run_task t s))"
proof -
  have "\<exists>op. svc_step bx op (svc s) = on_pool pid (connection_ready c) (svc s)"
    "\<exists>op. svc_step bx op (svc s) = on_pool pid (connection_terminated c) (svc s)"
    "\<exists>op. svc_step bx op (svc s) = on_pool pid (pool_connection_error x e) (svc s)" for pid c x e
    by (rule exI[of _ "S_ready pid c"], simp) (rule exI[of _ "S_terminated pid c"], simp,
      rule exI[of _ "S_error pid x e"], simp)
  note told = svc_run_notify[OF assms this(1)] svc_run_notify[OF assms this(2)]
    svc_run_notify[OF assms this(3)]
  from svc_run.step[OF assms, of "S_closed_call _"] show ?thesis
    by (cases "(t, s)" rule: run_task.cases) (use assms told in simp_all)
qed

lemma sys_run_parts: "sys_run bx env s l \<Longrightarrow> svc_run bx (svc s) \<and> conns_run env s"
proof (induction rule: sys_run.induct)
  case start
  show ?case using svc_run.start by (simp add: initial_system_def conns_run_def)
next
  case (api s l op out r)
  with svc_run.step[of bx "svc s" op] show ?case by (auto intro: conns_run_issue)
next
  case (api_throws s l op f r)
  with svc_run.step[of bx "svc s" op] show ?case by simp
next
  case (transfer s l c pid tr cn st cn')
  then obtain ls where "conn_run tr env pool_callbacks ls cn" unfolding conns_run_def by blast
  from conns_run_replace[OF _ conn_run.env[OF this stimulate_env[OF transfer(4)]]] transfer(5)
  show ?case by simp
next
  case (work s l c pid tr cn lb cn')
  then obtain ls where "conn_run tr env pool_callbacks ls cn" unfolding conns_run_def by blast
  from conns_run_replace[OF _ conn_run.step[OF this work(3)], of s] work(4) show ?case
    by (simp add: conns_run_def)
next
  case (task s l t rest)
  from svc_run_task[of bx "s\<lparr>agenda := rest\<rparr>"] conns_run_task[of env "s\<lparr>agenda := rest\<rparr>"] task
  show ?case by simp
qed

end
