(* ===== verification/Rd_Flow.thy ===== *)
theory Rd_Flow
  imports Rd_System_Laws
begin

text \<open>
  Flows. A quantity sits in pools, in connections and in the calls that are under way; every step of
  the composition moves it from one place to another, and at a few points it enters or leaves. The
  locale \<open>inner_flow\<close> states what the steps inside the composition do to such a quantity, and \<open>flow\<close>
  adds the operations of the user; inside them the composition is treated once. Their
  interpretations are in \<open>Rd_Accounts\<close> and \<open>Rd_System_Rest\<close>.
\<close>

section \<open>Totals\<close>

definition total :: "nat \<Rightarrow> (nat \<Rightarrow> 'a option) \<Rightarrow> (nat \<Rightarrow> 'a \<Rightarrow> 'b multiset) \<Rightarrow> 'b multiset" where
  "total n f g = (\<Sum>i<n. case f i of None \<Rightarrow> {#} | Some x \<Rightarrow> g i x)"

lemma total_split:
  assumes "i < n"
  shows "total n f g = (case f i of None \<Rightarrow> {#} | Some x \<Rightarrow> g i x) + total n (f(i := None)) g"
proof -
  have "total n h g = (case h i of None \<Rightarrow> {#} | Some x \<Rightarrow> g i x) +
      (\<Sum>j\<in>{..<n} - {i}. case h j of None \<Rightarrow> {#} | Some x \<Rightarrow> g j x)" for h
    using assms unfolding total_def by (intro sum.remove) auto
  moreover have "(\<Sum>j\<in>{..<n} - {i}. case (f(i := None)) j of None \<Rightarrow> {#} | Some x \<Rightarrow> g j x) =
      (\<Sum>j\<in>{..<n} - {i}. case f j of None \<Rightarrow> {#} | Some x \<Rightarrow> g j x)"
    by (rule sum.cong) auto
  ultimately show ?thesis by simp
qed

lemma total_update:
  "i < n \<Longrightarrow> f i = Some x \<Longrightarrow> total n (f(i := Some y)) g + g i x = total n f g + g i y"
  using total_split[of i n f g] total_split[of i n "f(i := Some y)" g] by (simp add: ac_simps)

lemma total_insert:
  "i < n \<Longrightarrow> f i = None \<Longrightarrow> total n (f(i := Some y)) g = total n f g + g i y"
  using total_split[of i n f g] total_split[of i n "f(i := Some y)" g] by (simp add: ac_simps)

lemma total_member: "i < n \<Longrightarrow> f i = Some x \<Longrightarrow> g i x \<subseteq># total n f g"
  using total_split[of i n f g] by simp

lemma total_beyond:
  assumes "n \<le> m" and "\<And>i. n \<le> i \<Longrightarrow> f i = None"
  shows "total m f g = total n f g"
  unfolding total_def using assms by (intro sum.mono_neutral_right) auto

lemma total_empty [simp]: "total n (\<lambda>_. None) g = {#}"
  by (simp add: total_def)

lemma total_in: "x \<in># total n f g \<Longrightarrow> \<exists>i y. f i = Some y \<and> x \<in># g i y"
  unfolding total_def by (induction n) (auto split: option.splits)

section \<open>Weights\<close>

definition weight ::
  "(pool \<Rightarrow> 'b multiset) \<Rightarrow> (conn_id \<Rightarrow> connection \<Rightarrow> 'b multiset) \<Rightarrow> (task \<Rightarrow> 'b multiset) \<Rightarrow>
     system \<Rightarrow> 'b multiset" where
  "weight pw cw tw s =
     total (next_pool (snd (svc s))) (pools (snd (svc s))) (\<lambda>_. pw) +
     total (next_conn (snd (svc s))) (conns s) (\<lambda>c (pid, tr, cn). cw c cn) +
     sum_list (map tw (agenda s))"

fun entering :: "(callback option \<Rightarrow> 'b multiset) \<Rightarrow> svc_op \<Rightarrow> 'b multiset" where
  "entering enter (S_execute _ _ _ err) = enter err"
| "entering enter _ = {#}"

fun born_in :: "(conn_id \<Rightarrow> 'b multiset) \<Rightarrow> out_call list \<Rightarrow> 'b multiset" where
  "born_in born [] = {#}"
| "born_in born ((_, P_create c) # out) = born c + born_in born out"
| "born_in born (_ # out) = born_in born out"

lemma born_in_quiet: "quiet out \<Longrightarrow> born_in born out = {#}"
  by (induction born out rule: born_in.induct) (auto simp: quiet_def)

definition fresh_create :: "system \<Rightarrow> rd_state \<Rightarrow> out_call list \<Rightarrow> bool" where
  "fresh_create s r out \<longleftrightarrow>
     (\<exists>pid c p. out = [(pid, P_create c)] \<and> pools (snd r) pid = Some p \<and> usable (co p) \<and>
        conns s c = None \<and> c < next_conn (snd r))"

text \<open>What the pool of a connection lets go when the connection reports that it is idle.\<close>

fun voided :: "(pool \<Rightarrow> conn_id \<Rightarrow> 'b multiset) \<Rightarrow> task \<Rightarrow> system \<Rightarrow> 'b multiset" where
  "voided void (T_action c (Out_idle _)) s =
     (case conns s c of
        None \<Rightarrow> {#}
      | Some (pid, tr, cn) \<Rightarrow> (case pools (snd (svc s)) pid of None \<Rightarrow> {#} | Some p \<Rightarrow> void p c))"
| "voided void _ s = {#}"

lemma voided_nothing [simp]: "voided (\<lambda>_ _. {#}) t s = ({#} :: 'b multiset)"
  by (cases "(\<lambda>(_ :: pool) (_ :: conn_id). ({#} :: 'b multiset), t, s)" rule: voided.cases)
    (auto split: option.splits)

section \<open>The contract of a flow\<close>

text \<open>The tasks that a component handles; the others go to the user or to Asio.\<close>

fun inner :: "task \<Rightarrow> bool" where
  "inner (T_call _ (P_execute _ _)) = True"
| "inner (T_call _ (P_terminate _)) = True"
| "inner (T_action _ (Out_idle _)) = True"
| "inner (T_action _ (Out_terminated _)) = True"
| "inner (T_action _ (Out_conn_error _ _)) = True"
| "inner _ = False"

text \<open>First what happens inside the composition, then what enters from outside.\<close>

locale inner_flow =
  fixes le :: "'b multiset \<Rightarrow> 'b multiset \<Rightarrow> bool"
    and pw :: "pool \<Rightarrow> 'b multiset"
    and cw :: "conn_id \<Rightarrow> connection \<Rightarrow> 'b multiset"
    and tw :: "task \<Rightarrow> 'b multiset"
    and born :: "conn_id \<Rightarrow> 'b multiset"               \<comment> \<open>a connection is made\<close>
    and gone :: "connection \<Rightarrow> label \<Rightarrow> 'b multiset"   \<comment> \<open>a connection drops\<close>
    and spent :: "task \<Rightarrow> 'b multiset"                 \<comment> \<open>a task uses up\<close>
    and void :: "pool \<Rightarrow> conn_id \<Rightarrow> 'b multiset"       \<comment> \<open>a pool lets an idle connection go\<close>
  assumes le_refl: "le m1 m1"
    and le_trans: "le m1 m2 \<Longrightarrow> le m2 m3 \<Longrightarrow> le m1 m3"
    and le_add: "le m1 m2 \<Longrightarrow> le (m1 + m3) (m2 + m3)"
    and pool_ready: "connection_ready c p = (p', out) \<Longrightarrow>
      le (pw p' + sum_list (map tw (map (T_call pid) out)) + (spent (T_action c (Out_idle k)) + void p c))
        (pw p + tw (T_action c (Out_idle k)))"
    and pool_terminated: "connection_terminated c p = (p', out) \<Longrightarrow>
      le (pw p' + sum_list (map tw (map (T_call pid) out)) + spent (T_action c (Out_terminated k)))
        (pw p + tw (T_action c (Out_terminated k)))"
    and pool_error: "pool_connection_error x e p = (p', out) \<Longrightarrow>
      le (pw p' + sum_list (map tw (map (T_call pid) out)) + spent (T_action c (Out_conn_error k m)))
        (pw p + tw (T_action c (Out_conn_error k m)))"
    and conn_new: "cw c (create_with opts pool_callbacks) = born c"
    and conn_execute: "le (cw c (execute evt cn) + spent (T_call pid (P_execute c evt)))
      (cw c cn + tw (T_call pid (P_execute c evt)))"
    and conn_terminate: "le (cw c (terminate cn) + spent (T_call pid (P_terminate c)))
      (cw c cn + tw (T_call pid (P_terminate c)))"
    and conn_work: "conn_step tr env cn lb cn' \<Longrightarrow> conn_both cn \<Longrightarrow>
      le (cw c cn' + sum_list (map tw (map (T_action c) (label_actions lb))) + gone cn lb) (cw c cn)"
    and spent_outside: "\<not> inner t \<Longrightarrow> le (spent t) (tw t)"
begin

abbreviation W :: "system \<Rightarrow> 'b multiset" where
  "W \<equiv> weight pw cw tw"

lemma le_swap:
  assumes "le (y + t) (x + z)" and "x \<subseteq># w" and "w' + x = w + y"
  shows "le (w' + t) (w + z)"
proof -
  from assms(2) obtain u where w: "w = x + u" by (auto simp: mset_subset_eq_exists_conv)
  with assms(3) have "w' = y + u" by (simp add: ac_simps)
  with le_add[OF assms(1), of u] w show ?thesis by (simp add: ac_simps)
qed

lemma W_agenda [simp]:
  "W (s\<lparr>agenda := ts @ rest\<rparr>) = W (s\<lparr>agenda := rest\<rparr>) + sum_list (map tw ts)"
  "W (s\<lparr>agenda := t # rest\<rparr>) = W (s\<lparr>agenda := rest\<rparr>) + tw t"
  by (simp_all add: weight_def ac_simps)

lemma W_replace:
  assumes "sys_inv s" and "conns s c = Some (pid, tr, cn)"
  shows "W (s\<lparr>conns := (conns s)(c := Some (pid, tr, cn'))\<rparr>) + cw c cn = W s + cw c cn'"
    and "cw c cn \<subseteq># W s"
proof -
  note c = sys_invD(2)[OF assms]
  from total_update[where f = "conns s", OF c assms(2), of "(pid, tr, cn')" "\<lambda>c (pid, tr, cn). cw c cn"]
  show "W (s\<lparr>conns := (conns s)(c := Some (pid, tr, cn'))\<rparr>) + cw c cn = W s + cw c cn'"
    by (simp add: weight_def ac_simps)
  from total_member[where f = "conns s" and g = "\<lambda>c (pid, tr, cn). cw c cn", OF c assms(2)]
  show "cw c cn \<subseteq># W s"
    by (simp add: weight_def subset_mset.add_increasing subset_mset.add_increasing2)
qed

lemma W_pool_part:
  assumes "sys_inv s" and "pools (snd (svc s)) pid = Some p"
  shows "pw p \<subseteq># W s"
  using total_member[where f = "pools (snd (svc s))" and g = "\<lambda>_. pw", OF _ assms(2)]
    sys_inv_pool[OF assms]
  by (simp add: weight_def subset_mset.add_increasing subset_mset.add_increasing2)

lemma W_pool:
  assumes "sys_inv s" and "pools (snd (svc s)) pid = Some p"
    and "pools (snd r) = (pools (snd (svc s)))(pid := Some p')"
    and "next_pool (snd r) = next_pool (snd (svc s))" "next_conn (snd (svc s)) \<le> next_conn (snd r)"
  shows "W (s\<lparr>svc := r\<rparr>) + pw p = W s + pw p'"
proof -
  have swap: "a + c + d + x = b + c + d + y" if "a + x = b + y" for a b c d x y :: "'b multiset"
  proof -
    have "a + c + d + x = (a + x) + (c + d)" by (simp add: ac_simps)
    also have "\<dots> = (b + y) + (c + d)" by (simp only: that)
    also have "\<dots> = b + c + d + y" by (simp add: ac_simps)
    finally show ?thesis .
  qed
  have "conns s c = None" if "next_conn (snd (svc s)) \<le> c" for c
    using sys_invD(2)[OF assms(1), of c] that by (cases "conns s c") fastforce+
  from total_beyond[OF assms(5) this] have W: "W (s\<lparr>svc := r\<rparr>) =
      total (next_pool (snd (svc s))) ((pools (snd (svc s)))(pid := Some p')) (\<lambda>_. pw) +
      total (next_conn (snd (svc s))) (conns s) (\<lambda>c (pid, tr, cn). cw c cn) + sum_list (map tw (agenda s))"
    using assms(3,4) by (simp add: weight_def)
  from sys_inv_pool[OF assms(1,2)] have pid: "pid < next_pool (snd (svc s))" by simp
  show ?thesis unfolding W
    by (simp only: weight_def) (rule swap, rule total_update[where f = "pools (snd (svc s))", OF pid assms(2)])
qed

lemma W_issue:
  assumes "quiet out \<or> fresh_create s r out"
  shows "W (issue out (s\<lparr>svc := r\<rparr>)) = W (s\<lparr>svc := r\<rparr>) +
    sum_list (map tw (tasks_of (filter (\<lambda>oc. \<not> creates (snd oc)) out))) + born_in born out"
  using assms
proof
  assume q: "quiet out"
  then have "filter (\<lambda>oc. \<not> creates (snd oc)) out = out" by (simp add: quiet_def filter_id_conv)
  with q W_agenda(1)[of "tasks_of out" "agenda s" "s\<lparr>svc := r\<rparr>"] show ?thesis
    by (simp add: issue_quiet born_in_quiet)
next
  assume "fresh_create s r out"
  then obtain pid c p where o: "out = [(pid, P_create c)]" "pools (snd r) pid = Some p" "usable (co p)"
    "conns s c = None" "c < next_conn (snd r)" by (auto simp: fresh_create_def)
  from total_insert[where f = "conns s", OF o(5,4), of "(pid, conn_transport p, create_with (co p) pool_callbacks)"
      "\<lambda>c (pid, tr, cn). cw c cn"] o(1-3)
  show ?thesis by (simp add: issue_create weight_def conn_new ac_simps)
qed

text \<open>One operation of a pool, with the calls it makes.\<close>

lemma W_pool_call:
  assumes inv: "sys_inv s" and p: "pools (snd (svc s)) pid = Some p"
    and step: "pool_step op p = Inr (p', out)"
    and r: "pools (snd r) = (pools (snd (svc s)))(pid := Some p')"
      "next_pool (snd r) = next_pool (snd (svc s))" "next_conn (snd (svc s)) \<le> next_conn (snd r)"
    and new: "\<And>c cmd res err. op = Op_get c cmd res err \<Longrightarrow> conns s c = None \<and> c < next_conn (snd r)"
    and law: "le (pw p' + sum_list (map tw (map (T_call pid) (filter (\<lambda>call. \<not> creates call) out))) + v) (pw p + z)"
  shows "le (W (issue (map (Pair pid) out) (s\<lparr>svc := r\<rparr>)) + v)
    (W s + z + born_in born (map (Pair pid) out))"
proof -
  let ?out = "map (Pair pid) out"
  have "usable (co p')" using sys_inv_pool[OF inv p] step_co[OF step] by simp
  with pool_step_creates[OF step] new r(1) have "quiet ?out \<or> fresh_create s r ?out"
    by (fastforce simp: quiet_def fresh_create_def filter_empty_conv)
  from W_issue[OF this] have i: "W (issue ?out (s\<lparr>svc := r\<rparr>)) = W (s\<lparr>svc := r\<rparr>) +
      sum_list (map tw (map (T_call pid) (filter (\<lambda>call. \<not> creates call) out))) + born_in born ?out"
    by (simp add: filter_map comp_def)
  let ?o = "sum_list (map tw (map (T_call pid) (filter (\<lambda>call. \<not> creates call) out)))"
  from law have "le (pw p' + (?o + v)) (pw p + z)" by (simp only: add.assoc)
  from le_add[OF le_swap[OF this W_pool_part[OF inv p] W_pool[OF inv p r]], of "born_in born ?out"]
  show ?thesis unfolding i by (simp only: ac_simps)
qed

lemma W_notify:
  assumes inv: "sys_inv s" and c: "conns s c = Some (pid, tr, cn)" and p: "pools (snd (svc s)) pid = Some p"
    and f: "pool_step op p = Inr (f p)"
    and no: "\<And>c cmd res err. op \<noteq> Op_get c cmd res err"
    and law: "\<And>p' out. f p = (p', out) \<Longrightarrow>
      le (pw p' + sum_list (map tw (map (T_call pid) out)) + v) (pw p + z)"
  shows "le (W (notify_pool c f s) + v) (W s + z)"
proof -
  obtain p' out where fp: "f p = (p', out)" by fastforce
  obtain i w where r: "svc s = (i, w)" by fastforce
  let ?r = "(i, w\<lparr>pools := (pools w)(pid := Some p')\<rparr>)"
  have n: "notify_pool c f s = issue (map (Pair pid) out) (s\<lparr>svc := ?r\<rparr>)"
    using c p fp r by (simp add: notify_pool_def on_pool_def)
  from f fp have step: "pool_step op p = Inr (p', out)" by simp
  have "filter creates out = []" using pool_step_creates[OF step] no by blast
  then have q: "filter (\<lambda>call. \<not> creates call) out = out" "born_in born (map (Pair pid) out) = {#}"
    by (auto simp: filter_empty_conv filter_id_conv quiet_def intro!: born_in_quiet)
  from W_pool_call[OF inv p step, of ?r v z] law[OF fp] no r q show ?thesis unfolding n by simp
qed

text \<open>The steps of the composition.\<close>

lemma task_flow:
  assumes inv: "sys_inv s" and a: "agenda s = t # rest"
  shows "le (W (run_task t (s\<lparr>agenda := rest\<rparr>)) + spent t + voided void t s) (W s)"
proof -
  let ?s = "s\<lparr>agenda := rest\<rparr>"
  have i: "sys_inv ?s" using inv a by (simp add: sys_inv_def)
  have t: "task_ok (owned ?s) t" using sys_invD(5)[OF inv, of t] a by simp
  have "s = s\<lparr>agenda := t # rest\<rparr>" using a by simp
  from arg_cong[OF this, of W] have W: "W s = W ?s + tw t" by (simp only: W_agenda)
  have conn: "le (W (on_conn c g ?s) + spent t) (W ?s + tw t)"
    if "owned ?s pid c" "\<And>cn. le (cw c (g cn) + spent t) (cw c cn + tw t)" for pid c g
  proof -
    from that(1) obtain tr cn where c: "conns ?s c = Some (pid, tr, cn)" by (auto simp: owned_def)
    from le_swap[OF that(2) W_replace(2)[OF i c] W_replace(1)[OF i c, of "g cn"]] c
    show ?thesis by (simp add: on_conn_def)
  qed
  have outside: "le (W ?s + spent t) (W ?s + tw t)" if "\<not> inner t"
    using le_add[OF spent_outside[OF that], of "W ?s"] by (simp only: add.commute)
  have what: "\<exists>pid tr cn p. conns ?s c = Some (pid, tr, cn) \<and> pools (snd (svc ?s)) pid = Some p"
    if "owned ?s pid c" for pid c
    using that sys_invD(3)[OF i, of c pid] unfolding owned_def by blast
  show ?thesis unfolding W
  proof (cases "(t, ?s)" rule: run_task.cases)
    case (1 pid c evt s')
    with t conn[of pid c "execute evt"] conn_execute[of c evt _ pid]
    show "le (W (run_task t ?s) + spent t + voided void t s) (W ?s + tw t)" by simp
  next
    case (2 pid c s')
    with t conn[of pid c terminate] conn_terminate[of c _ pid]
    show "le (W (run_task t ?s) + spent t + voided void t s) (W ?s + tw t)" by simp
  next
    case (3 pid k s')
    have "W (?s\<lparr>svc := (fst (svc ?s), closed_lambda k (snd (svc ?s)))\<rparr>) = W ?s" by (simp add: weight_def)
    with 3 outside show "le (W (run_task t ?s) + spent t + voided void t s) (W ?s + tw t)" by simp
  next
    case (6 c k s')
    with t obtain pid0 where "owned ?s pid0 c" by auto
    from what[OF this] obtain pid tr cn p where
      c: "conns ?s c = Some (pid, tr, cn)" "pools (snd (svc ?s)) pid = Some p" by blast
    have "voided void t s = void p c" using 6 c[simplified] by auto
    with W_notify[where op = "Op_ready c", OF i c, of "connection_ready c" "spent t + void p c" "tw t"] pool_ready 6 c
    show "le (W (run_task t ?s) + spent t + voided void t s) (W ?s + tw t)" by (simp add: ac_simps)
  next
    case (7 c k s')
    with t obtain pid0 where "owned ?s pid0 c" by auto
    from what[OF this] obtain pid tr cn p where
      c: "conns ?s c = Some (pid, tr, cn)" "pools (snd (svc ?s)) pid = Some p" by blast
    from W_notify[where op = "Op_terminated c", OF i c, of "connection_terminated c" "spent t" "tw t"]
      pool_terminated 7
    show "le (W (run_task t ?s) + spent t + voided void t s) (W ?s + tw t)" by simp
  next
    case (8 c k m s')
    with t obtain pid0 where "owned ?s pid0 c" by auto
    from what[OF this] obtain pid tr cn p where
      c: "conns ?s c = Some (pid, tr, cn)" "pools (snd (svc ?s)) pid = Some p" by blast
    from W_notify[where op = "Op_error None (connection_error m)", OF i c,
        of "pool_connection_error None (connection_error m)" "spent t" "tw t"] pool_error 8
    show "le (W (run_task t ?s) + spent t + voided void t s) (W ?s + tw t)" by simp
  qed (use outside in simp_all)
qed

lemma work_flow:
  assumes inv: "sys_inv s" and c: "conns s c = Some (pid, tr, cn)" and step: "conn_step tr env cn lb cn'"
  shows "le (W (s\<lparr>conns := (conns s)(c := Some (pid, tr, cn')),
      agenda := map (T_action c) (label_actions lb) @ agenda s\<rparr>) + gone cn lb) (W s)"
proof -
  let ?s = "s\<lparr>conns := (conns s)(c := Some (pid, tr, cn'))\<rparr>"
  let ?a = "sum_list (map tw (map (T_action c) (label_actions lb)))"
  have "W (s\<lparr>conns := (conns s)(c := Some (pid, tr, cn')),
      agenda := map (T_action c) (label_actions lb) @ agenda s\<rparr>) = W ?s + ?a"
    using W_agenda(1)[of "map (T_action c) (label_actions lb)" "agenda s" ?s] by simp
  moreover have "le (W ?s + (?a + gone cn lb)) (W s + {#})"
    using conn_work[OF step sys_invD(4)[OF inv c], of c]
    by (intro le_swap[OF _ W_replace(2)[OF inv c] W_replace(1)[OF inv c]]) (simp add: ac_simps)
  ultimately show ?thesis by (simp add: ac_simps)
qed

end

locale flow = inner_flow le pw cw tw born gone spent void
  for le :: "'b multiset \<Rightarrow> 'b multiset \<Rightarrow> bool" and pw cw tw born gone spent void +
  fixes enter :: "callback option \<Rightarrow> 'b multiset"      \<comment> \<open>a request enters\<close>
  assumes pool_get: "pool_step (Op_get c cmd res err) p = Inr (p', out) \<Longrightarrow> pool_inv p \<Longrightarrow>
      le (pw p' + sum_list (map tw (map (T_call pid) (filter (\<lambda>call. \<not> creates call) out)))) (pw p + enter err)"
    and pool_close: "pool_close cb p = (p', out) \<Longrightarrow>
      le (pw p' + sum_list (map tw (map (T_call pid) out))) (pw p)"
    and pool_new: "pool_create n opts c = Inr (p, out) \<Longrightarrow> pw p = {#}"
    and conn_transfer: "completion st \<Longrightarrow> stimulate st cn = Some cn' \<Longrightarrow> cw c cn' = cw c cn"
begin

lemma transfer_flow:
  assumes "sys_inv s" and "conns s c = Some (pid, tr, cn)" and "completion st" "stimulate st cn = Some cn'"
  shows "W (s\<lparr>conns := (conns s)(c := Some (pid, tr, cn'))\<rparr>) = W s"
  using W_replace(1)[OF assms(1,2), of cn'] conn_transfer[OF assms(3,4)] by simp

lemma close_all_flow:
  "close_all k m w = (w', out) \<Longrightarrow> (\<And>pid p. pools w pid = Some p \<Longrightarrow> pid < n) \<Longrightarrow>
     le (total n (pools w') (\<lambda>_. pw) + sum_list (map tw (tasks_of out))) (total n (pools w) (\<lambda>_. pw))"
proof (induction k m w arbitrary: w' out rule: close_all.induct)
  case (1 k w)
  then show ?case by (simp add: le_refl)
next
  case (2 k a pid m w)
  show ?case
  proof (cases "pools w pid")
    case None
    with 2(1)[OF None] 2(3,4) show ?thesis by simp
  next
    case (Some p)
    obtain p1 out1 where c: "pool_close (Some k) p = (p1, out1)" by fastforce
    let ?w = "w\<lparr>pools := (pools w)(pid := Some p1)\<rparr>"
    obtain w2 out2 where r: "close_all k m ?w = (w2, out2)" by fastforce
    have out: "out = map (Pair pid) out1 @ out2" "w' = w2" using 2(3) Some c r by simp_all
    let ?o1 = "sum_list (map tw (map (T_call pid) out1))" and ?o2 = "sum_list (map tw (tasks_of out2))"
    have rest: "le (total n (pools w2) (\<lambda>_. pw) + ?o2) (total n (pools ?w) (\<lambda>_. pw))"
    proof (rule 2(2)[OF Some c[symmetric] r])
      fix pid' p' assume "pools ?w pid' = Some p'"
      with 2(4)[of pid'] 2(4)[OF Some] show "pid' < n" by (cases "pid' = pid") auto
    qed
    note pid = 2(4)[OF Some]
    have "le (total n (pools ?w) (\<lambda>_. pw) + ?o1) (total n (pools w) (\<lambda>_. pw) + {#})"
    proof (rule le_swap)
      show "le (pw p1 + ?o1) (pw p + {#})" using pool_close[OF c] by simp
      show "pw p \<subseteq># total n (pools w) (\<lambda>_. pw)"
        using total_member[where f = "pools w" and g = "\<lambda>_. pw", OF pid Some] .
      show "total n (pools ?w) (\<lambda>_. pw) + pw p = total n (pools w) (\<lambda>_. pw) + pw p1"
        using total_update[where f = "pools w" and g = "\<lambda>_. pw", OF pid Some] by simp
    qed
    with le_add[OF rest, of ?o1] have
      "le (total n (pools w2) (\<lambda>_. pw) + ?o2 + ?o1) (total n (pools w) (\<lambda>_. pw))"
      by (simp only: add_0_right) (rule le_trans)
    moreover have "sum_list (map tw (tasks_of out)) = ?o1 + ?o2" by (simp add: out comp_def)
    ultimately show ?thesis using out(2) by (simp add: ac_simps)
  qed
qed

lemma api_flow:
  assumes inv: "sys_inv s" and u: "user_op op" and step: "svc_step bx op (svc s) = (Inr out, r)"
  shows "le (W (issue out (s\<lparr>svc := r\<rparr>))) (W s + entering enter op + born_in born out)"
  using u step
proof (cases rule: user_op_cases)
  case same
  then have "W (s\<lparr>svc := r\<rparr>) = W s" by (simp add: weight_def)
  moreover have "entering enter op = {#}" using same(5) by (cases op) auto
  ultimately show ?thesis using W_issue[of out s r] same(1) by (simp add: quiet_def le_refl)
next
  case (new k opts p)
  let ?c = "next_conn (snd (svc s))" and ?pid = "next_pool (snd (svc s))"
  have "usable (co p)" using new(1) by (auto simp: pool_create_Inr usable_def)
  moreover have none: "conns s c = None" if "?c \<le> c" for c
    using sys_invD(2)[OF inv, of c] that by (cases "conns s c") fastforce+
  ultimately have f: "fresh_create s r out" using new by (simp add: fresh_create_def)
  have pnone: "pools (snd (svc s)) i = None" if "?pid \<le> i" for i
    using sys_inv_pool[OF inv, of i] that by (cases "pools (snd (svc s)) i") fastforce+
  have "total (Suc ?pid) (pools (snd r)) (\<lambda>_. pw) = total ?pid (pools (snd (svc s))) (\<lambda>_. pw)"
    unfolding new(3)
    by (subst total_insert)
      (use pnone pool_new[OF new(1)] total_beyond[of ?pid "Suc ?pid" "pools (snd (svc s))"] in simp_all)
  moreover have "total (Suc ?c) (conns s) g = total ?c (conns s) g" for g :: "_ \<Rightarrow> _ \<Rightarrow> 'b multiset"
    using none by (intro total_beyond) simp_all
  ultimately have "W (s\<lparr>svc := r\<rparr>) = W s" using new by (simp add: weight_def)
  moreover have "entering enter op = {#}" using new(6) by (cases op) auto
  moreover have "filter (\<lambda>oc. \<not> creates (snd oc)) out = []" by (simp add: new(2))
  ultimately show ?thesis using W_issue[of out s r] f by (simp add: le_refl)
next
  case (get al cmd res err pid p p' calls)
  let ?op = "Op_get (next_conn (snd (svc s))) (Single cmd) res err"
  from get(3) have step: "pool_step ?op p = Inr (p', calls)" by simp
  have "conns s (next_conn (snd (svc s))) = None"
    using sys_invD(2)[OF inv, of "next_conn (snd (svc s))"]
    by (cases "conns s (next_conn (snd (svc s)))") fastforce+
  moreover have "pool_inv p" using sys_inv_pool[OF inv get(2)] by simp
  ultimately show ?thesis
    using W_pool_call[OF inv get(2) step get(5,6), of "{#}" "enter err"] pool_get[OF step, of pid] get by simp
next
  case (stop k m w0)
  have q: "quiet out" using close_all_refs[OF stop(5), of "owned s"]
      sys_invD(6)[OF inv] stop(2) by simp
  have n: "next_conn (snd r) = next_conn (snd (svc s))" "next_pool (snd r) = next_pool (snd (svc s))"
    using close_all_refs[OF stop(5), of "owned s"] sys_invD(6)[OF inv] stop(2-4)
      close_all_pools[OF stop(5)] by simp_all
  have "le (total (next_pool (snd (svc s))) (pools (snd r)) (\<lambda>_. pw) + sum_list (map tw (tasks_of out)))
      (total (next_pool (snd (svc s))) (pools w0) (\<lambda>_. pw))"
    by (rule close_all_flow[OF stop(5)]) (use sys_inv_pool[OF inv] stop(2) in auto)
  from le_add[OF this, of "total (next_conn (snd (svc s))) (conns s) (\<lambda>c (pid, tr, cn). cw c cn) +
      sum_list (map tw (agenda s))"] W_issue[of out s r] q n stop(1,2)
  show ?thesis by (simp add: issue_quiet born_in_quiet weight_def ac_simps)
qed

lemma throws_flow:
  "user_op op \<Longrightarrow> svc_step bx op (svc s) = (Inl f, r) \<Longrightarrow> W (s\<lparr>svc := r\<rparr>) = W s"
  using user_op_throws[of op bx "svc s" f r] by (simp add: weight_def)

end

end
