(* ===== verification/Rd_Accounts.thy ===== *)
theory Rd_Accounts
  imports Rd_Flow
begin

text \<open>
  Three quantities that flow through the composition: requests, which are conserved; permissions to use
  a connection, which are never copied; and the same permissions as a set, which are not lost while a
  pool is open. From these follow the account of all requests, that a busy connection is left alone, and
  that an idle connection is listed by its pool.
\<close>

section \<open>Requests\<close>

text \<open>Where a request is, by its error callback: queued in a pool, stored or current in a connection, or under way.\<close>

definition queued :: "pool \<Rightarrow> nat multiset" where
  "queued p = sum_list (map ticket (queue p))"

fun stored :: "event \<Rightarrow> nat multiset" where
  "stored (Ev_execute evt) = ticket evt"
| "stored _ = {#}"

definition held :: "connection \<Rightarrow> nat multiset" where
  "held cn = sum_list (map stored (msg_queue cn @ deferred cn)) +
     (if fsm_state cn = Query then ticket (cur_query cn) else {#})"

fun carried :: "task \<Rightarrow> nat multiset" where
  "carried (T_call _ (P_execute _ evt)) = ticket evt"
| "carried t = settles t"

definition pending :: "system \<Rightarrow> nat multiset" where
  "pending = weight queued (\<lambda>_. held) carried"

definition ticket_of :: "callback option \<Rightarrow> nat multiset" where
  "ticket_of err = (case err of None \<Rightarrow> {#} | Some e \<Rightarrow> {#e#})"

lemma ticket_simps [simp]: "ticket \<lparr>buff = b, result_cb = r, error_cb = e\<rparr> = ticket_of e"
  "ticket (evt\<lparr>buff := b\<rparr>) = ticket evt" "ticket empty_execute = {#}"
  by (simp_all add: ticket_def ticket_of_def empty_execute_def)

lemma carried_action [simp]: "carried (T_action c a) = settles (T_action c a)"
  by simp

lemma quiet_actions [simp]:
  "sum_list (map (\<lambda>a. settles (T_action i a)) (notify_idle c)) = {#}"
  "sum_list (map (\<lambda>a. settles (T_action i a)) (notify_error c m)) = {#}"
  "sum_list (map (\<lambda>a. settles (T_action i a)) (term_notes c)) = {#}"
  "sum_list (map (\<lambda>a. settles (T_action i a)) (send tr b c)) = {#}"
  by (simp_all add: notify_idle_def notify_error_def term_notes_def notify_terminated_def send_def
      split: option.split)

lemma drops_terminated [simp]: "drops c (L_event Terminated e out) = stored e"
  by (cases e) auto

lemma trans_held:
  assumes "conn_trans tr c e out c'" and "query_ready c"
  shows "held c' + sum_list (map (\<lambda>a. settles (T_action i a)) out) + drops c (L_event (fsm_state c) e out) =
    held c + stored e"
  using assms
  by (induction rule: conn_trans.induct)
    (auto simp: held_def finish_def query_ready_def notify_result_def notify_query_error_def ticket_def
      ac_simps split: option.split)

lemma drops_query: "cur_query c = cur_query c' \<Longrightarrow> drops c l = drops c' l"
  by (induction c l rule: drops.induct) auto

lemma round_stores:
  assumes "read_round env c = Inr (c', out)"
  obtains "msg_queue c' = msg_queue c" "deferred c' = deferred c"
    | e where "msg_queue c' = msg_queue c @ [e]" "deferred c' = deferred c" "\<And>evt. e \<noteq> Ev_execute evt"
  using assms
  by (auto simp: read_round_def process_event_def split: if_splits sum.splits elim!: read_step_cases)

lemma step_held:
  assumes "conn_step tr env c l c'" and "conn_both c"
  shows "held c' + sum_list (map (\<lambda>a. settles (T_action i a)) (label_actions l)) + drops c l = held c"
  using assms
proof (induction rule: conn_step.induct)
  case (queued c e q c' out)
  let ?c = "c\<lparr>msg_queue := q\<rparr>"
  from trans_held[OF dispatch_trans[OF queued(2)], of i] queued(3)
  have "held c' + sum_list (map (\<lambda>a. settles (T_action i a)) out) + drops ?c (L_event (fsm_state c) e out) =
      held ?c + stored e" by (simp add: conn_both_def query_ready_def)
  moreover have "held ?c + stored e = held c" using queued(1) by (simp add: held_def)
  ultimately show ?case using drops_query[of c ?c] by simp
next
  case (recalled c xs e ys c' out)
  let ?c = "c\<lparr>deferred := xs @ ys\<rparr>"
  from trans_held[OF dispatch_trans[OF recalled(3)], of i] recalled(4)
  have "held c' + sum_list (map (\<lambda>a. settles (T_action i a)) out) + drops ?c (L_event (fsm_state c) e out) =
      held ?c + stored e" by (simp add: conn_both_def query_ready_def)
  moreover have "held ?c + stored e = held c" using recalled(1) by (simp add: held_def)
  ultimately show ?case using drops_query[of c ?c] by simp
next
  case (round c c' out)
  note st = round_state[OF round(3)]
  then have o: "sum_list (map (\<lambda>a. settles (T_action i a)) out) = {#}"
    by (induction out) auto
  from round(3) have "sum_list (map stored (msg_queue c' @ deferred c')) = sum_list (map stored (msg_queue c @ deferred c))"
  proof (cases rule: round_stores)
    case (2 e)
    then have "stored e = {#}" by (cases e) auto
    with 2 show ?thesis by simp
  qed simp
  with st o show ?case by (simp add: held_def)
qed

lemma clear_queue_settles:
  "sum_list (map carried (map (T_call pid) (clear_queue_loop q ec))) = sum_list (map ticket q)"
  by (induction q) (auto simp: ticket_def split: option.split)

lemma close_connections_settles [simp]:
  "sum_list (map carried (map (T_call pid) (close_connections p))) = {#}"
  by (auto simp: close_connections_def comp_def split: option.split)

lemma stimulate_held: "completion st \<Longrightarrow> stimulate st cn = Some cn' \<Longrightarrow> held cn' = held cn"
  by (cases st)
    (auto simp: held_def handle_connect_def handle_read_def handle_write_def
      process_event_def split: option.splits if_splits)

interpretation requests_flow: flow "(=)" queued "\<lambda>_. held" carried "\<lambda>_. {#}" drops settles "\<lambda>_ _. {#}" ticket_of
proof unfold_locales
  fix c cmd res err p p' out pid
  assume g: "pool_step (Op_get c cmd res err) p = Inr (p', out)"
  show "queued p' + sum_list (map carried (map (T_call pid) (filter (\<lambda>call. \<not> creates call) out))) =
    queued p + ticket_of err"
  proof (cases "closed p")
    case True
    with g show ?thesis by (auto simp: get_connection_def ticket_of_def split: option.splits)
  next
    case False
    from g have "get_connection c cmd res err p = Inr (p', out)" by simp
    from this False show ?thesis by (cases rule: get_connection_Inr) (auto simp: queued_def)
  qed
next
  fix c k p p' out pid
  assume "connection_ready c p = (p', out)"
  then show "queued p' + sum_list (map carried (map (T_call pid) out)) + (settles (T_action c (Out_idle k)) + {#}) =
    queued p + carried (T_action c (Out_idle k))"
    by (auto simp: connection_ready_def next_event_def add_idle_connection_def queued_def
        split: list.splits if_splits simp del: map_map)
next
  fix c k p p' out pid
  assume "connection_terminated c p = (p', out)"
  then show "queued p' + sum_list (map carried (map (T_call pid) out)) + settles (T_action c (Out_terminated k)) =
    queued p + carried (T_action c (Out_terminated k))"
    by (auto simp: connection_terminated_def erase_connection_def queued_def Let_def
        split: option.splits if_splits)
next
  fix x e p p' out pid c k m
  assume "pool_connection_error x e p = (p', out)"
  then show "queued p' + sum_list (map carried (map (T_call pid) out)) + settles (T_action c (Out_conn_error k m)) =
    queued p + carried (T_action c (Out_conn_error k m))"
    using clear_queue_settles[of pid "queue p" e]
    by (auto simp: pool_connection_error_def clear_queue_def erase_connection_def queued_def
        split: option.splits if_splits)
next
  fix cb p p' out pid
  assume "pool_close cb p = (p', out)"
  then show "queued p' + sum_list (map carried (map (T_call pid) out)) = queued p"
    using close_connections_settles[of pid]
    by (auto simp: pool_close_def queued_def Let_def split: if_splits simp del: map_map)
next
  fix t :: task
  assume "\<not> inner t"
  then show "settles t = carried t" by (cases t rule: inner.cases) auto
next
  fix c opts
  show "held (create_with opts pool_callbacks) = {#}"
    by (simp add: create_with_def connect_def process_event_def new_connection_def held_def)
next
  fix tr env cn lb cn' c
  assume "conn_step tr env cn lb cn'" "conn_both cn"
  from step_held[OF this, of c]
  show "held cn' + sum_list (map carried (map (T_action c) (label_actions lb))) + drops cn lb = held cn"
    by (simp add: comp_def)
qed (auto simp: pool_create_Inr queued_def held_def execute_def terminate_def process_event_def ac_simps
    dest: stimulate_held)

lemma takes_entering: "takes op = entering ticket_of op"
  by (induction op rule: takes.induct) (auto simp: ticket_of_def)

lemma born_nothing [simp]: "born_in (\<lambda>_. {#}) out = ({#} :: nat multiset)"
  by (induction "(\<lambda>_. {#}) :: conn_id \<Rightarrow> nat multiset" out rule: born_in.induct) auto

text \<open>The books balance.\<close>

lemma sys_run_balance: "sys_run bx env s l \<Longrightarrow> taken l = settled l + dropped l + pending s"
proof (induction rule: sys_run.induct)
  case start
  show ?case by (simp add: empty_ledger_def pending_def weight_def initial_system_def initial_world_def)
next
  case (api s l op out r)
  from requests_flow.api_flow[OF sys_run_inv[OF api(1)] api(2,3)] api(4) show ?case
    by (simp add: pending_def takes_entering ac_simps)
next
  case (api_throws s l op f r)
  from requests_flow.throws_flow[OF api_throws(2,3)] api_throws(4) show ?case by (simp add: pending_def)
next
  case (transfer s l c pid tr cn st cn')
  from requests_flow.transfer_flow[OF sys_run_inv[OF transfer(1)] transfer(2-4)] transfer(5) show ?case
    by (simp add: pending_def)
next
  case (work s l c pid tr cn lb cn')
  from requests_flow.work_flow[OF sys_run_inv[OF work(1)] work(2,3)] work(4) show ?case
    by (simp add: pending_def ac_simps)
next
  case (task s l t rest)
  from requests_flow.task_flow[OF sys_run_inv[OF task(1)] task(2)] task(3) show ?case
    by (simp add: pending_def ac_simps)
qed

section \<open>Permissions\<close>

text \<open>
  The permission to give a connection a request. A connection is made with one; it passes it to its pool
  when it reports that it is idle, and gets it back with a request.
\<close>

definition permits :: "connection \<Rightarrow> nat" where
  "permits cn =
     length (filter (\<lambda>e. case e of Ev_execute _ \<Rightarrow> True | _ \<Rightarrow> False) (msg_queue cn @ deferred cn)) +
     (if fsm_state cn = Idle \<or> fsm_state cn = Terminated then 0 else 1)"

fun permit_of :: "task \<Rightarrow> conn_id multiset" where
  "permit_of (T_call _ (P_execute c _)) = {#c#}"
| "permit_of (T_action c (Out_idle _)) = {#c#}"
| "permit_of _ = {#}"

definition permissions :: "system \<Rightarrow> conn_id multiset" where
  "permissions = weight (\<lambda>p. mset (ready_connections p)) (\<lambda>c cn. replicate_mset (permits cn) c) permit_of"

definition idle_notes :: "action list \<Rightarrow> nat" where
  "idle_notes out = length (filter (\<lambda>a. case a of Out_idle _ \<Rightarrow> True | _ \<Rightarrow> False) out)"

lemma permit_actions:
  "sum_list (map permit_of (map (T_action c) out)) = replicate_mset (idle_notes out) c"
proof (induction out)
  case (Cons a out)
  then show ?case by (cases a) (auto simp: idle_notes_def)
qed (simp add: idle_notes_def)

lemma idle_notes_simps [simp]:
  "idle_notes (xs @ ys) = idle_notes xs + idle_notes ys" "idle_notes [] = 0"
  "idle_notes (notify_error c m) = 0" "idle_notes (term_notes c) = 0" "idle_notes (send tr b c) = 0"
  "idle_notes (notify_result q r) = 0" "idle_notes (notify_query_error q m) = 0"
  "idle_notes (notify_idle c) \<le> Suc 0" "idle_notes (Out_read # xs) = idle_notes xs"
  "idle_notes (Out_connect req # xs) = idle_notes xs" "idle_notes (Out_write b # xs) = idle_notes xs"
  "idle_notes (Out_close # xs) = idle_notes xs"
  by (simp_all add: idle_notes_def notify_error_def term_notes_def notify_terminated_def send_def
      notify_result_def notify_query_error_def notify_idle_def split: option.split)

definition is_exec :: "event \<Rightarrow> nat" where
  "is_exec e = (case e of Ev_execute _ \<Rightarrow> 1 | _ \<Rightarrow> 0)"

lemma trans_permits:
  assumes "conn_trans tr c e out c'"
  shows "permits c' + idle_notes out \<le> permits c + is_exec e"
  using assms
  by (induction rule: conn_trans.induct) (auto simp: permits_def finish_def is_exec_def)

lemma step_permits:
  assumes "conn_step tr env c l c'"
  shows "permits c' + idle_notes (label_actions l) \<le> permits c"
  using assms
proof (induction rule: conn_step.induct)
  case (queued c e q c' out)
  then have "permits (c\<lparr>msg_queue := q\<rparr>) + is_exec e = permits c"
    by (cases e) (simp_all add: permits_def is_exec_def)
  with trans_permits[OF dispatch_trans[OF queued(2)]] show ?case by simp
next
  case (recalled c xs e ys c' out)
  then have "permits (c\<lparr>deferred := xs @ ys\<rparr>) + is_exec e = permits c"
    by (cases e) (simp_all add: permits_def is_exec_def)
  with trans_permits[OF dispatch_trans[OF recalled(3)]] show ?case by simp
next
  case (round c c' out)
  note st = round_state[OF round(3)]
  then have "idle_notes out = 0" by (induction out) (auto simp: idle_notes_def)
  moreover from round(3) have "permits c' = permits c"
  proof (cases rule: round_stores)
    case (2 e)
    with st show ?thesis by (cases e) (auto simp: permits_def)
  qed (use st in \<open>simp add: permits_def\<close>)
  ultimately show ?case by simp
qed

lemma no_permits [simp]:
  "sum_list (map permit_of (map (T_call pid) (clear_queue_loop q ec))) = {#}"
  "sum_list (map permit_of (map (T_call pid) (close_connections p))) = {#}"
  by (induction q) (auto simp: close_connections_def comp_def split: option.split)

lemma stimulate_permits: "completion st \<Longrightarrow> stimulate st cn = Some cn' \<Longrightarrow> permits cn' = permits cn"
  by (cases st)
    (auto simp: permits_def handle_connect_def handle_read_def handle_write_def
      process_event_def split: option.splits if_splits)

lemma permits_calls [simp]: "permits (execute evt cn) = Suc (permits cn)" "permits (terminate cn) = permits cn"
  by (simp_all add: permits_def execute_def terminate_def process_event_def)

text \<open>
  A pool neither makes nor loses permissions, but for those of connections that report to it after it was
  closed and emptied.
\<close>

definition let_go :: "pool \<Rightarrow> conn_id \<Rightarrow> conn_id multiset" where
  "let_go p c = (if closed p \<and> queue p = [] then {#c#} else {#})"

fun brings :: "pool_op \<Rightarrow> conn_id multiset" where
  "brings (Op_ready c) = {#c#}"
| "brings _ = {#}"

fun loses :: "pool_op \<Rightarrow> pool \<Rightarrow> conn_id multiset" where
  "loses (Op_ready c) p = let_go p c"
| "loses _ p = {#}"

abbreviation called :: "pool_id \<Rightarrow> pool_call list \<Rightarrow> conn_id multiset" where
  "called pid out \<equiv> sum_list (map permit_of (map (T_call pid) out))"

lemma called_filter [simp]: "called pid (filter (\<lambda>call. \<not> creates call) out) = called pid out"
proof (induction out)
  case (Cons call out)
  then show ?case by (cases call) auto
qed simp

lemma pool_permits:
  "pool_step op p = Inr (p', out) \<Longrightarrow>
     mset (ready_connections p') + called pid out + loses op p = mset (ready_connections p) + brings op"
proof (induction op p rule: pool_step.induct)
  case (1 c cmd res err p)
  show ?case
  proof (cases "closed p")
    case True
    with 1 show ?thesis by (auto simp: get_connection_def split: option.splits)
  next
    case False
    from 1 have "get_connection c cmd res err p = Inr (p', out)" by simp
    from this False show ?thesis by (cases rule: get_connection_Inr) auto
  qed
next
  case (2 c p)
  then show ?case
    by (auto simp: connection_ready_def next_event_def add_idle_connection_def let_go_def
        split: list.splits if_splits simp del: map_map)
next
  case (3 c p)
  then show ?case
    by (auto simp: connection_terminated_def erase_connection_def Let_def split: option.splits if_splits)
next
  case (4 c e p)
  then show ?case
    by (auto simp: pool_connection_error_def clear_queue_def erase_connection_def
        split: option.splits if_splits simp del: map_map)
next
  case (5 cb p)
  then show ?case by (auto simp: pool_close_def Let_def split: if_splits simp del: map_map)
qed

lemma pool_permits_of:
  "get_connection c cmd res err p = Inr (p', out) \<Longrightarrow>
     mset (ready_connections p') + called pid out = mset (ready_connections p)"
  "connection_ready c p = (p', out) \<Longrightarrow>
     mset (ready_connections p') + called pid out + let_go p c = add_mset c (mset (ready_connections p))"
  "connection_terminated c p = (p', out) \<Longrightarrow>
     mset (ready_connections p') + called pid out = mset (ready_connections p)"
  "pool_connection_error x e p = (p', out) \<Longrightarrow>
     mset (ready_connections p') + called pid out = mset (ready_connections p)"
  "pool_close cb p = (p', out) \<Longrightarrow>
     mset (ready_connections p') + called pid out = mset (ready_connections p)"
  using pool_permits[of "Op_get c cmd res err" p p' out pid] pool_permits[of "Op_ready c" p p' out pid]
    pool_permits[of "Op_terminated c" p p' out pid] pool_permits[of "Op_error x e" p p' out pid]
    pool_permits[of "Op_close cb" p p' out pid]
  by simp_all

interpretation permits_flow: flow "(\<subseteq>#)" "\<lambda>p. mset (ready_connections p)"
  "\<lambda>c cn. replicate_mset (permits cn) c" permit_of "\<lambda>c. {#c#}" "\<lambda>_ _. {#}" "\<lambda>_. {#}" let_go "\<lambda>_. {#}"
proof unfold_locales
  fix t :: task
  assume "\<not> inner t"
  then show "{#} \<subseteq># permit_of t" by simp
next
  fix c :: conn_id and opts
  show "replicate_mset (permits (create_with opts pool_callbacks)) c = {#c#}"
    by (simp add: create_with_def connect_def process_event_def new_connection_def permits_def)
next
  fix tr env cn lb cn' and c :: conn_id
  assume s: "conn_step tr env cn lb cn'"
  have "replicate_mset (permits cn') c + replicate_mset (idle_notes (label_actions lb)) c \<subseteq># replicate_mset (permits cn) c"
    using step_permits[OF s] by (simp add: subseteq_mset_def)
  then show "replicate_mset (permits cn') c + sum_list (map permit_of (map (T_action c) (label_actions lb))) + {#} \<subseteq>#
      replicate_mset (permits cn) c"
    unfolding permit_actions by simp
qed (auto simp: pool_create_Inr stimulate_permits subset_mset.add_right_mono pool_permits_of
    simp del: map_map dest: subset_mset.order_trans)

text \<open>Connections get new numbers.\<close>

lemma api_born:
  assumes inv: "sys_inv s" and "user_op op" and "svc_step bx op (svc s) = (Inr out, r)"
  shows "born_in (\<lambda>c. {#c#}) out = {#} \<and> next_conn (snd (svc s)) \<le> next_conn (snd r) \<or>
    born_in (\<lambda>c. {#c#}) out = {#next_conn (snd (svc s))#} \<and> next_conn (snd r) = Suc (next_conn (snd (svc s)))"
  using assms(2,3)
proof (cases rule: user_op_cases)
  case (get al cmd res err pid p p' calls)
  from get(3) have "pool_step (Op_get (next_conn (snd (svc s))) (Single cmd) res err) p = Inr (p', calls)" by simp
  from pool_step_creates[OF this] show ?thesis
  proof
    assume "filter creates calls = []"
    then have "quiet out" by (simp add: get(4) quiet_def filter_empty_conv)
    with get(7) show ?thesis by (simp add: born_in_quiet)
  qed (use get in simp)
next
  case (stop k m w0)
  have "quiet out \<and> next_conn (snd r) = next_conn w0"
    using close_all_refs[OF stop(5), of "owned s"] sys_invD(6)[OF inv] stop(2) by simp
  with stop(4) show ?thesis by (simp add: born_in_quiet)
qed simp_all

lemma run_task_next [simp]: "next_conn (snd (svc (run_task t s))) = next_conn (snd (svc s))"
proof -
  have "next_conn (snd (svc (notify_pool c f s))) = next_conn (snd (svc s))" for c f
    by (auto simp: notify_pool_def on_pool_def split: option.splits prod.splits sum.splits)
  then show ?thesis by (cases "(t, s)" rule: run_task.cases) simp_all
qed

definition one_each :: "nat \<Rightarrow> nat multiset \<Rightarrow> bool" where
  "one_each n m \<longleftrightarrow> (\<forall>c. count m c \<le> 1) \<and> (\<forall>c \<in># m. c < n)"

lemma one_each_mono: "one_each n m \<Longrightarrow> m' \<subseteq># m \<Longrightarrow> n \<le> n' \<Longrightarrow> one_each n' m'"
  unfolding one_each_def by (meson le_trans less_le_trans mset_subset_eq_count mset_subset_eqD)

lemma one_each_born:
  assumes "one_each n m"
  shows "one_each (Suc n) (m + {#n#})"
proof -
  have "count m n = 0" using assms by (auto simp: one_each_def count_eq_zero_iff)
  with assms show ?thesis by (fastforce simp: one_each_def)
qed

lemma sys_run_permissions: "sys_run bx env s l \<Longrightarrow> one_each (next_conn (snd (svc s))) (permissions s)"
proof (induction rule: sys_run.induct)
  case start
  show ?case
    by (simp add: one_each_def permissions_def weight_def initial_system_def initial_world_def)
next
  case (api s l op out r)
  note inv = sys_run_inv[OF api(1)]
  have out: "permissions (issue out (s\<lparr>svc := r\<rparr>)) \<subseteq># permissions s + born_in (\<lambda>c. {#c#}) out"
    using permits_flow.api_flow[OF inv api(2,3)]
    by (cases op) (simp_all add: permissions_def)
  from api_born[OF inv api(2,3)] show ?case
  proof
    assume b: "born_in (\<lambda>c. {#c#}) out = {#} \<and> next_conn (snd (svc s)) \<le> next_conn (snd r)"
    with one_each_mono[OF api(4), of "permissions (issue out (s\<lparr>svc := r\<rparr>))"] out show ?thesis by simp
  next
    assume "born_in (\<lambda>c. {#c#}) out = {#next_conn (snd (svc s))#} \<and> next_conn (snd r) = Suc (next_conn (snd (svc s)))"
    with one_each_mono[OF one_each_born[OF api(4)], of "permissions (issue out (s\<lparr>svc := r\<rparr>))"] out
    show ?thesis by simp
  qed
next
  case (api_throws s l op f r)
  from permits_flow.throws_flow[OF api_throws(2,3)] user_op_throws[OF api_throws(2,3)] api_throws(4)
  show ?case by (simp add: permissions_def)
next
  case (transfer s l c pid tr cn st cn')
  from permits_flow.transfer_flow[OF sys_run_inv[OF transfer(1)] transfer(2-4)] transfer(5) show ?case
    by (simp add: permissions_def)
next
  case (work s l c pid tr cn lb cn')
  from permits_flow.work_flow[OF sys_run_inv[OF work(1)] work(2,3)] one_each_mono[OF work(4)] show ?case
    by (simp add: permissions_def)
next
  case (task s l t rest)
  have "permissions (run_task t (s\<lparr>agenda := rest\<rparr>)) \<subseteq># permissions s"
    using permits_flow.task_flow[OF sys_run_inv[OF task(1)] task(2)]
    by (auto simp: permissions_def dest: mset_subset_eq_add_left[THEN subset_mset.order_trans])
  from one_each_mono[OF task(3) this] show ?case by simp
qed

section \<open>Wakeups\<close>

text \<open>
  Permissions are not lost either, as long as the pool is open: whoever had one still has one somewhere.
  Here the quantity counts only as a set, and a connection that has ended keeps its permission forever.
\<close>

definition wakes :: "connection \<Rightarrow> nat" where
  "wakes cn =
     length (filter (\<lambda>e. case e of Ev_execute _ \<Rightarrow> True | _ \<Rightarrow> False) (msg_queue cn @ deferred cn)) +
     (if fsm_state cn = Idle then 0 else 1)"

definition wakeups :: "system \<Rightarrow> conn_id multiset" where
  "wakeups = weight (\<lambda>p. mset (ready_connections p)) (\<lambda>c cn. replicate_mset (wakes cn) c) permit_of"

abbreviation covers :: "'a multiset \<Rightarrow> 'a multiset \<Rightarrow> bool" where
  "covers m n \<equiv> set_mset n \<subseteq> set_mset m"

lemma idle_notes_connected:
  "callbacks c = pool_callbacks \<Longrightarrow> idle_notes (notify_idle c) = 1"
  by (simp add: notify_idle_def idle_notes_def pool_callbacks_def)

lemma trans_wakes:
  assumes "conn_trans tr c e out c'" and "fsm_state c \<noteq> Terminated \<longrightarrow> callbacks c = pool_callbacks"
    and "0 < wakes c + is_exec e"
  shows "0 < wakes c' + idle_notes out"
  using assms
  by (induction rule: conn_trans.induct)
    (auto simp: wakes_def finish_def is_exec_def idle_notes_connected split: event.splits)

lemma step_wakes:
  assumes "conn_step tr env c l c'" and "conn_both c" and "0 < wakes c"
  shows "0 < wakes c' + idle_notes (label_actions l)"
  using assms
proof (induction rule: conn_step.induct)
  case (queued c e q c' out)
  from queued(1) have "wakes (c\<lparr>msg_queue := q\<rparr>) + is_exec e = wakes c"
    by (cases e) (simp_all add: wakes_def is_exec_def)
  with queued(3,4) trans_wakes[OF dispatch_trans[OF queued(2)]] show ?case
    by (simp add: conn_both_def conn_inv_def)
next
  case (recalled c xs e ys c' out)
  from recalled(1) have "wakes (c\<lparr>deferred := xs @ ys\<rparr>) + is_exec e = wakes c"
    by (cases e) (simp_all add: wakes_def is_exec_def)
  with recalled(4,5) trans_wakes[OF dispatch_trans[OF recalled(3)]] show ?case
    by (simp add: conn_both_def conn_inv_def)
next
  case (round c c' out)
  note st = round_state[OF round(3)]
  from round(3) have "wakes c' = wakes c"
  proof (cases rule: round_stores)
    case (2 e)
    with st show ?thesis by (cases e) (auto simp: wakes_def)
  qed (use st in \<open>simp add: wakes_def\<close>)
  with round(5) show ?case by simp
qed

lemma wakes_calls [simp]: "wakes (execute evt cn) = Suc (wakes cn)" "wakes (terminate cn) = wakes cn"
  by (simp_all add: wakes_def execute_def terminate_def process_event_def)

lemma stimulate_wakes: "completion st \<Longrightarrow> stimulate st cn = Some cn' \<Longrightarrow> wakes cn' = wakes cn"
  by (cases st)
    (auto simp: wakes_def handle_connect_def handle_read_def handle_write_def
      process_event_def split: option.splits if_splits)

lemma set_replicate_mset: "set_mset (replicate_mset n c) = (if 0 < n then {c} else {})"
  by (cases n) auto

interpretation wakeups_flow: flow covers "\<lambda>p. mset (ready_connections p)"
  "\<lambda>c cn. replicate_mset (wakes cn) c" permit_of "\<lambda>c. {#c#}" "\<lambda>_ _. {#}" "\<lambda>_. {#}" let_go "\<lambda>_. {#}"
proof unfold_locales
  fix c :: conn_id and opts
  show "replicate_mset (wakes (create_with opts pool_callbacks)) c = {#c#}"
    by (simp add: create_with_def connect_def process_event_def new_connection_def wakes_def)
next
  fix tr env cn lb cn' and c :: conn_id
  assume s: "conn_step tr env cn lb cn'" "conn_both cn"
  from step_wakes[OF s]
  show "covers (replicate_mset (wakes cn') c + sum_list (map permit_of (map (T_action c) (label_actions lb))) + {#})
      (replicate_mset (wakes cn) c)"
    unfolding permit_actions by (cases "wakes cn = 0") (auto simp: set_replicate_mset)
next
  show "covers (mset (ready_connections p') + called pid out + ({#} + let_go p c))
      (mset (ready_connections p) + permit_of (T_action c (Out_idle k)))"
    if "connection_ready c p = (p', out)" for c p p' out pid k
    using pool_permits_of(2)[OF that, of pid] by (simp del: map_map)
next
  show "covers {#} (permit_of t)" if "\<not> inner t" for t
    using that by (cases t rule: inner.cases) simp_all
qed (simp_all add: pool_create_Inr stimulate_wakes pool_permits_of del: map_map set_mset_union, auto)

text \<open>Pools stay closed, and connections stay with their pool.\<close>

lemma on_pool_shut:
  assumes "pools (snd r) pid = Some p" "closed p" "pools (snd (snd (on_pool pid' f r))) pid = Some p'"
    and "\<And>p. pool_step op p = Inr (f p)" "\<And>cb. op \<noteq> Op_close cb"
  shows "closed p'"
proof (cases "pid' = pid")
  case True
  from pool_step_closed[of op p "fst (f p)" "snd (f p)"] assms True show ?thesis
    by (cases r) (auto simp: on_pool_def split: prod.splits)
next
  case False
  with assms(1-3) show ?thesis by (cases r) (auto simp: on_pool_def split: option.splits prod.splits)
qed

lemma run_task_shut:
  assumes "pools (snd (svc s)) pid = Some p" "closed p" "pools (snd (svc (run_task t s))) pid = Some p'"
  shows "closed p'"
proof -
  have n: "closed q" if "pools (snd (svc (notify_pool c f s))) pid = Some q"
    "\<And>p. pool_step op p = Inr (f p)" "\<And>cb. op \<noteq> Op_close cb" for c f op q
  proof (cases "conns s c")
    case None
    with that(1) assms(1,2) show ?thesis by (simp add: notify_pool_def)
  next
    case (Some a)
    then obtain pid' tr cn where a: "conns s c = Some (pid', tr, cn)" by (cases a) auto
    then have "pools (snd (snd (on_pool pid' f (svc s)))) pid = Some q"
      using that(1) by (auto simp: notify_pool_def split: prod.splits sum.splits)
    from on_pool_shut[OF assms(1,2) this that(2,3)] show ?thesis .
  qed
  from assms n[where op = "Op_ready _"] n[where op = "Op_terminated _"] n[where op = "Op_error None _"] show ?thesis
    by (cases "(t, s)" rule: run_task.cases) simp_all
qed

lemma api_shut:
  assumes inv: "sys_inv s" and "user_op op" "svc_step bx op (svc s) = (Inr out, r)"
    and p: "pools (snd (svc s)) pid = Some p" "closed p" "pools (snd r) pid = Some p'"
  shows "closed p'"
  using assms(2,3)
proof (cases rule: user_op_cases)
  case (new k opts q)
  with p sys_inv_pool[OF inv p(1)] show ?thesis by auto
next
  case (get al cmd res err pid' q q' calls)
  from get(3) have "pool_step (Op_get (next_conn (snd (svc s))) (Single cmd) res err) q = Inr (q', calls)" by simp
  from pool_step_closed[OF this] get p show ?thesis by (cases "pid' = pid") auto
next
  case (stop k m w0)
  with close_all_pools[OF stop(5), of pid] p show ?thesis by (auto simp: pool_close_state split: if_splits)
qed (use p in simp)

lemma conns_issue:
  assumes "conns (issue out s) c = Some (pid, tr, cn)"
  shows "conns s c = Some (pid, tr, cn) \<or> (pid, P_create c) \<in> set out"
proof -
  have m: "conns (make_connection oc s) c = Some (pid, tr, cn) \<Longrightarrow>
      conns s c = Some (pid, tr, cn) \<or> oc = (pid, P_create c)" for oc s
    by (induction oc s rule: make_connection.induct) (auto split: option.splits sum.splits if_splits)
  have "conns (fold make_connection out s) c = Some (pid, tr, cn) \<Longrightarrow>
      conns s c = Some (pid, tr, cn) \<or> (pid, P_create c) \<in> set out" for s
  proof (induction out arbitrary: s)
    case (Cons oc out)
    from Cons.IH[of "make_connection oc s"] Cons.prems m[of oc s] show ?case by auto
  qed simp
  with assms show ?thesis by (simp add: issue_def Let_def)
qed

lemma born_member: "(pid, P_create c) \<in> set out \<Longrightarrow> c \<in># born_in (\<lambda>c. {#c#}) out"
  by (induction "\<lambda>c :: conn_id. {#c#}" out rule: born_in.induct) auto

lemma notify_issues:
  assumes "\<And>p. pool_step op p = Inr (f p)" and "\<And>c cmd res err. op \<noteq> Op_get c cmd res err"
  obtains r out where "notify_pool c f s = issue out (s\<lparr>svc := r\<rparr>)" "quiet out" | "notify_pool c f s = s"
proof (cases "conns s c")
  case (Some a)
  obtain pid tr cn where a: "a = (pid, tr, cn)" by (cases a)
  obtain i w where r: "svc s = (i, w)" by fastforce
  show thesis
  proof (cases "pools w pid")
    case None
    with Some a r show thesis by (intro that(1)[of "[]" "(i, w)"]) (simp_all add: notify_pool_def on_pool_def quiet_def)
  next
    case (Some p)
    obtain p' out where fp: "f p = (p', out)" by fastforce
    with assms(1)[of p] have "filter creates out = []" using pool_step_creates[of op p p' out] assms(2) by auto
    then have "quiet (map (Pair pid) out)" by (auto simp: quiet_def filter_empty_conv)
    with Some \<open>conns s c = Some a\<close> a r fp show thesis
      by (intro that(1)[of "map (Pair pid) out" "(i, w\<lparr>pools := (pools w)(pid := Some p')\<rparr>)"])
        (simp_all add: notify_pool_def on_pool_def)
  qed
qed (simp add: that(2) notify_pool_def)

lemma run_task_owned: "owned (run_task t s) = owned s"
proof -
  have n: "owned (notify_pool c f s) = owned s"
    if "\<And>p. pool_step op p = Inr (f p)" "\<And>c cmd res err. op \<noteq> Op_get c cmd res err" for c f op
    by (rule notify_issues[OF that, of c s]) (simp_all add: issue_quiet)
  have o: "owned (on_conn c g s) = owned s" for c g
    by (auto simp: on_conn_def owned_def fun_eq_iff split: option.splits)
  from n[where op = "Op_ready _"] n[where op = "Op_terminated _"] n[where op = "Op_error None _"] o show ?thesis
    by (cases "(t, s)" rule: run_task.cases) simp_all
qed

definition awake :: "system \<Rightarrow> bool" where
  "awake s \<longleftrightarrow>
     (\<forall>c pid p. owned s pid c \<longrightarrow> pools (snd (svc s)) pid = Some p \<longrightarrow> \<not> closed p \<longrightarrow> c \<in># wakeups s)"

text \<open>A step that closes no pool again, gives connections no other pool and covers the quantity keeps it.\<close>

lemma awake_step:
  assumes "awake s" and inv: "sys_inv s"
    and own: "\<And>pid c. owned s' pid c \<Longrightarrow> owned s pid c \<or> c \<in># b"
    and shut: "\<And>pid p p'. pools (snd (svc s)) pid = Some p \<Longrightarrow> closed p \<Longrightarrow> pools (snd (svc s')) pid = Some p' \<Longrightarrow> closed p'"
    and cover: "covers (wakeups s' + v) (wakeups s + b)"
    and either: "b = {#} \<or> v = {#}"
    and lost: "\<And>pid c p. c \<in># v \<Longrightarrow> owned s pid c \<Longrightarrow> pools (snd (svc s)) pid = Some p \<Longrightarrow> closed p"
  shows "awake s'"
  unfolding awake_def
proof (intro allI impI)
  fix c pid p'
  assume o: "owned s' pid c" and p': "pools (snd (svc s')) pid = Some p'" "\<not> closed p'"
  show "c \<in># wakeups s'"
  proof (cases "owned s pid c")
    case True
    then obtain p where p: "pools (snd (svc s)) pid = Some p"
      using sys_invD(3)[OF inv] unfolding owned_def by blast
    with shut p' have "\<not> closed p" by blast
    with assms(1) True p have "c \<in># wakeups s" unfolding awake_def by blast
    moreover have "c \<notin># v" using lost True p \<open>\<not> closed p\<close> by blast
    ultimately show ?thesis using cover by auto
  next
    case False
    with own[OF o] have "c \<in># b" by simp
    with either cover show ?thesis by auto
  qed
qed

lemma sys_run_awake: "sys_run bx env s l \<Longrightarrow> awake s"
proof (induction rule: sys_run.induct)
  case start
  show ?case by (simp add: awake_def owned_def initial_system_def)
next
  case (api s l op out r)
  note inv = sys_run_inv[OF api(1)]
  show ?case
  proof (rule awake_step[OF api(4) inv, where b = "born_in (\<lambda>c. {#c#}) out" and v = "{#}"])
    fix pid c assume "owned (issue out (s\<lparr>svc := r\<rparr>)) pid c"
    then show "owned s pid c \<or> c \<in># born_in (\<lambda>c. {#c#}) out"
      by (auto simp: owned_def dest!: conns_issue born_member)
  next
    show "covers (wakeups (issue out (s\<lparr>svc := r\<rparr>)) + {#}) (wakeups s + born_in (\<lambda>c. {#c#}) out)"
      using wakeups_flow.api_flow[OF inv api(2,3)] by (cases op) (simp_all add: wakeups_def)
  qed (use api_shut[OF inv api(2,3)] in auto)
next
  case (api_throws s l op f r)
  note pools = user_op_throws[OF api_throws(2,3)]
  show ?case
    by (rule awake_step[OF api_throws(4) sys_run_inv[OF api_throws(1)], where b = "{#}" and v = "{#}"])
      (use wakeups_flow.throws_flow[OF api_throws(2,3)] pools in \<open>auto simp: wakeups_def\<close>)
next
  case (transfer s l c pid tr cn st cn')
  note inv = sys_run_inv[OF transfer(1)]
  show ?case
    by (rule awake_step[OF transfer(5) inv, where b = "{#}" and v = "{#}"])
      (use wakeups_flow.transfer_flow[OF inv transfer(2-4)] transfer(2) in
        \<open>auto simp: wakeups_def owned_def split: if_splits\<close>)
next
  case (work s l c pid tr cn lb cn')
  note inv = sys_run_inv[OF work(1)]
  show ?case
    by (rule awake_step[OF work(4) inv, where b = "{#}" and v = "{#}"])
      (use wakeups_flow.work_flow[OF inv work(2,3)] work(2) in
        \<open>auto simp: wakeups_def owned_def split: if_splits\<close>)
next
  case (task s l t rest)
  note inv = sys_run_inv[OF task(1)]
  show ?case
  proof (rule awake_step[OF task(3) inv, where b = "{#}" and v = "voided let_go t s"])
    show "covers (wakeups (run_task t (s\<lparr>agenda := rest\<rparr>)) + voided let_go t s) (wakeups s + {#})"
      using wakeups_flow.task_flow[OF inv task(2)] by (simp add: wakeups_def)
    show "closed p" if "c \<in># voided let_go t s" "owned s pid c" "pools (snd (svc s)) pid = Some p" for pid c p
      using that by (cases "(let_go, t, s)" rule: voided.cases)
        (auto simp: owned_def let_go_def split: option.splits if_splits)
  qed (use run_task_shut[of "s\<lparr>agenda := rest\<rparr>"] in \<open>auto simp: run_task_owned\<close>)
qed

section \<open>What the flows say\<close>

lemma total_nothing: "(\<And>i x. f i = Some x \<Longrightarrow> g i x = {#}) \<Longrightarrow> total n f g = {#}"
  unfolding total_def by (intro sum.neutral) (auto split: option.split)

definition at_rest :: "system \<Rightarrow> bool" where
  "at_rest s \<longleftrightarrow> agenda s = [] \<and>
     (\<forall>pid p. pools (snd (svc s)) pid = Some p \<longrightarrow> queue p = []) \<and>
     (\<forall>c pid tr cn. conns s c = Some (pid, tr, cn) \<longrightarrow>
        fsm_state cn \<noteq> Query \<and> msg_queue cn = [] \<and> deferred cn = [])"

lemma at_rest_pending: "at_rest s \<Longrightarrow> pending s = {#}"
  by (auto simp: at_rest_def pending_def weight_def queued_def held_def intro!: total_nothing)

lemma permission_bounds:
  assumes run: "sys_run bx env s l"
  shows "conns s c = Some (pid, tr, cn) \<Longrightarrow> t \<in> set (agenda s) \<Longrightarrow> permits cn + count (permit_of t) c \<le> 1"
    and "pools (snd (svc s)) pid' = Some p \<Longrightarrow> conns s c = Some (pid, tr, cn) \<Longrightarrow>
      permits cn + count (mset (ready_connections p)) c \<le> 1"
    and "conns s c = Some (pid, tr, cn) \<Longrightarrow> permits cn \<le> 1"
    and "pools (snd (svc s)) pid' = Some p \<Longrightarrow> count (mset (ready_connections p)) k \<le> 1"
proof -
  note inv = sys_run_inv[OF run]
  let ?A = "total (next_pool (snd (svc s))) (pools (snd (svc s))) (\<lambda>_ p. mset (ready_connections p))"
  let ?B = "total (next_conn (snd (svc s))) (conns s) (\<lambda>c (pid, tr, cn). replicate_mset (permits cn) c)"
  let ?C = "sum_list (map permit_of (agenda s))"
  have one: "count ?A k + count ?B k + count ?C k \<le> 1" for k
    using sys_run_permissions[OF run] by (simp add: one_each_def permissions_def weight_def)
  have A: "count (mset (ready_connections p)) k \<le> count ?A k" if "pools (snd (svc s)) pid' = Some p" for p pid' k
    using total_member[where f = "pools (snd (svc s))" and g = "\<lambda>_ p. mset (ready_connections p)", OF _ that]
      sys_inv_pool[OF inv that] by (intro mset_subset_eq_count) simp
  have B: "permits cn \<le> count ?B c" if "conns s c = Some (pid, tr, cn)" for c pid tr cn
    using mset_subset_eq_count[OF total_member[where f = "conns s" and
          g = "\<lambda>c (pid, tr, cn). replicate_mset (permits cn) c", OF sys_invD(2)[OF inv that] that], of c] by simp
  have C: "count (permit_of t) k \<le> count ?C k" if "t \<in> set (agenda s)" for t k
  proof -
    from that obtain ts us where "agenda s = ts @ t # us" by (auto dest: split_list)
    then show ?thesis by simp
  qed
  show "conns s c = Some (pid, tr, cn) \<Longrightarrow> t \<in> set (agenda s) \<Longrightarrow> permits cn + count (permit_of t) c \<le> 1"
    using one[of c] B[of c pid tr cn] C[of t c] by linarith
  show "pools (snd (svc s)) pid' = Some p \<Longrightarrow> conns s c = Some (pid, tr, cn) \<Longrightarrow>
      permits cn + count (mset (ready_connections p)) c \<le> 1"
    using one[of c] A[of pid' p c] B[of c pid tr cn] by linarith
  show "conns s c = Some (pid, tr, cn) \<Longrightarrow> permits cn \<le> 1"
    using one[of c] B[of c pid tr cn] by linarith
  show "pools (snd (svc s)) pid' = Some p \<Longrightarrow> count (mset (ready_connections p)) k \<le> 1"
    using one[of k] A[of pid' p k] by linarith
qed

lemma busy_permits:
  assumes "fsm_state cn = Query" and "permits cn \<le> 1"
  shows "permits cn = 1 \<and> Ev_execute evt \<notin> set (msg_queue cn @ deferred cn)"
  using assms by (auto simp: permits_def filter_empty_conv dest: bspec)

text \<open>
  A connection of an open pool that is idle, with nothing stored and no call under way, is listed by its
  pool, so that its pool has no request waiting.
\<close>

lemma idle_listed:
  assumes run: "sys_run bx env s l" and a: "agenda s = []"
    and c: "conns s c = Some (pid, tr, cn)" "fsm_state cn = Idle" "msg_queue cn = []" "deferred cn = []"
    and p: "pools (snd (svc s)) pid = Some p" "\<not> closed p"
  shows "c \<in> set (ready_connections p)"
proof -
  note inv = sys_run_inv[OF run]
  let ?A = "total (next_pool (snd (svc s))) (pools (snd (svc s))) (\<lambda>_ p. mset (ready_connections p))"
  let ?B = "total (next_conn (snd (svc s))) (conns s) (\<lambda>c (pid, tr, cn). replicate_mset (wakes cn) c)"
  have "c \<in># ?A + ?B"
    using sys_run_awake[OF run] c(1) p a unfolding awake_def owned_def
    by (fastforce simp: wakeups_def weight_def)
  moreover have "c \<notin># ?B"
  proof
    assume "c \<in># ?B"
    from total_in[OF this] obtain k pid' tr' cn' where
      "conns s k = Some (pid', tr', cn')" "c \<in># replicate_mset (wakes cn') k" by auto
    with c show False by (auto simp: wakes_def split: if_splits)
  qed
  ultimately have "c \<in># ?A" by simp
  then obtain pid' q where q: "pools (snd (svc s)) pid' = Some q" "c \<in> set (ready_connections q)"
    using total_in by fastforce
  with sys_invD(6)[OF inv q(1)] have "owned s pid' c" by (auto simp: pool_refs_def)
  with c(1) have "pid' = pid" by (simp add: owned_def)
  with q p show ?thesis by simp
qed

end
