(* ===== verification/Rd_Scenario.thy ===== *)
theory Rd_Scenario
  imports Rd_Accounts
begin

text \<open>
  An executable schedule of the composition: after each move of the user or of Asio, the tasks of the
  agenda are run in their order and every connection works until it is at rest. It is one of the
  schedules that \<^const>\<open>sys_run\<close> allows; the sample runs of the development are made with it.
\<close>

datatype move =
  M_api svc_op
| M_transfer conn_id stimulus

definition sys_api :: "boost_str \<Rightarrow> svc_op \<Rightarrow> system \<times> ledger \<Rightarrow> (system \<times> ledger) option" where
  "sys_api bx op sl =
     (case sl of (s, l) \<Rightarrow>
        if \<not> user_op op then None
        else case svc_step bx op (svc s) of
               (Inl f, r) \<Rightarrow> Some (s\<lparr>svc := r\<rparr>, l)
             | (Inr out, r) \<Rightarrow> Some (issue out (s\<lparr>svc := r\<rparr>), l\<lparr>taken := taken l + takes op\<rparr>))"

definition sys_transfer :: "conn_id \<Rightarrow> stimulus \<Rightarrow> system \<times> ledger \<Rightarrow> (system \<times> ledger) option" where
  "sys_transfer c st sl =
     (case sl of (s, l) \<Rightarrow>
        case conns s c of
          None \<Rightarrow> None
        | Some (pid, tr, cn) \<Rightarrow>
            if completion st
            then map_option (\<lambda>cn'. (s\<lparr>conns := (conns s)(c := Some (pid, tr, cn'))\<rparr>, l)) (stimulate st cn)
            else None)"

text \<open>The first connection that has something to do, with what it does.\<close>

fun first_work :: "penv \<Rightarrow> system \<Rightarrow> conn_id list \<Rightarrow> (conn_id \<times> (fault + label \<times> connection)) option" where
  "first_work env s [] = None"
| "first_work env s (c # cs) =
     (case conns s c of
        None \<Rightarrow> first_work env s cs
      | Some (pid, tr, cn) \<Rightarrow>
          (case advance tr env cn of None \<Rightarrow> first_work env s cs | Some r \<Rightarrow> Some (c, r)))"

text \<open>One step towards rest; \<^const>\<open>None\<close> is rest, and a fault is \<^const>\<open>Inl\<close>.\<close>

definition sys_advance :: "penv \<Rightarrow> system \<times> ledger \<Rightarrow> (fault + system \<times> ledger) option" where
  "sys_advance env sl =
     (case sl of (s, l) \<Rightarrow>
        case agenda s of
          t # rest \<Rightarrow> Some (Inr (run_task t (s\<lparr>agenda := rest\<rparr>), book t l))
        | [] \<Rightarrow>
            (case first_work env s [0..<next_conn (snd (svc s))] of
               None \<Rightarrow> None
             | Some (c, Inl f) \<Rightarrow> Some (Inl f)
             | Some (c, Inr (lb, cn')) \<Rightarrow>
                 (case conns s c of
                    None \<Rightarrow> None
                  | Some (pid, tr, cn) \<Rightarrow>
                      Some (Inr
                        (s\<lparr>conns := (conns s)(c := Some (pid, tr, cn')),
                          agenda := map (T_action c) (label_actions lb) @ agenda s\<rparr>,
                         l\<lparr>dropped := dropped l + drops cn lb\<rparr>)))))"

fun sys_settle :: "nat \<Rightarrow> penv \<Rightarrow> system \<times> ledger \<Rightarrow> (system \<times> ledger) option" where
  "sys_settle fuel env sl =
     (case sys_advance env sl of
        None \<Rightarrow> Some sl
      | Some (Inl f) \<Rightarrow> None
      | Some (Inr sl') \<Rightarrow> (case fuel of 0 \<Rightarrow> None | Suc fuel \<Rightarrow> sys_settle fuel env sl'))"

declare sys_settle.simps [simp del]

fun sys_moves :: "nat \<Rightarrow> boost_str \<Rightarrow> penv \<Rightarrow> move list \<Rightarrow> system \<times> ledger \<Rightarrow> (system \<times> ledger) option" where
  "sys_moves fuel bx env [] sl = Some sl"
| "sys_moves fuel bx env (m # ms) sl =
     Option.bind (case m of M_api op \<Rightarrow> sys_api bx op sl | M_transfer c st \<Rightarrow> sys_transfer c st sl)
       (\<lambda>sl. Option.bind (sys_settle fuel env sl) (sys_moves fuel bx env ms))"

section \<open>Schedules are runs\<close>

lemma sys_api_run: "sys_api bx op (s, l) = Some (s', l') \<Longrightarrow> sys_run bx env s l \<Longrightarrow> sys_run bx env s' l'"
  by (auto simp: sys_api_def intro: sys_run.api sys_run.api_throws split: if_splits prod.splits sum.splits)

lemma sys_transfer_run:
  "sys_transfer c st (s, l) = Some (s', l') \<Longrightarrow> sys_run bx env s l \<Longrightarrow> sys_run bx env s' l'"
  by (auto simp: sys_transfer_def intro: sys_run.transfer split: if_splits option.splits prod.splits)

lemma first_work_Some:
  "first_work env s cs = Some (c, r) \<Longrightarrow>
     \<exists>pid tr cn. conns s c = Some (pid, tr, cn) \<and> advance tr env cn = Some r"
  by (induction env s cs rule: first_work.induct) (auto split: option.splits)

lemma sys_advance_run:
  assumes "sys_advance env (s, l) = Some (Inr (s', l'))" and "sys_run bx env s l"
  shows "sys_run bx env s' l'"
proof (cases "agenda s")
  case (Cons t rest)
  with assms sys_run.task[OF assms(2) Cons] show ?thesis by (simp add: sys_advance_def)
next
  case Nil
  with assms(1) obtain c lb cn' where
    f: "first_work env s [0..<next_conn (snd (svc s))] = Some (c, Inr (lb, cn'))"
    by (auto simp: sys_advance_def split: option.splits sum.splits prod.splits)
  from first_work_Some[OF this] obtain pid tr cn where
    c: "conns s c = Some (pid, tr, cn)" "advance tr env cn = Some (Inr (lb, cn'))" by blast
  from sys_run.work[OF assms(2) c(1) advance_step[OF c(2)]] assms(1) Nil f c(1) show ?thesis
    by (simp add: sys_advance_def)
qed

lemma sys_settle_run:
  "sys_settle fuel env (s, l) = Some (s', l') \<Longrightarrow> sys_run bx env s l \<Longrightarrow> sys_run bx env s' l'"
proof (induction fuel arbitrary: s l)
  case 0
  then show ?case by (auto simp: sys_settle.simps split: option.splits sum.splits)
next
  case (Suc fuel)
  show ?case
  proof (cases "sys_advance env (s, l)")
    case None
    with Suc.prems show ?thesis by (simp add: sys_settle.simps)
  next
    case (Some r)
    with Suc.prems(1) obtain s1 l1 where
      r: "r = Inr (s1, l1)" "sys_settle fuel env (s1, l1) = Some (s', l')"
      by (auto simp: sys_settle.simps[of "Suc fuel"] split: sum.splits)
    from Suc.IH[OF r(2) sys_advance_run[OF _ Suc.prems(2)]] Some r(1) show ?thesis by simp
  qed
qed

lemma sys_moves_run:
  "sys_moves fuel bx env ms (s, l) = Some (s', l') \<Longrightarrow> sys_run bx env s l \<Longrightarrow> sys_run bx env s' l'"
proof (induction fuel bx env ms "(s, l)" arbitrary: s l rule: sys_moves.induct)
  case (2 fuel bx env m ms s l)
  from 2(2) obtain s1 l1 s2 l2 where
    s: "(case m of M_api op \<Rightarrow> sys_api bx op (s, l) | M_transfer c st \<Rightarrow> sys_transfer c st (s, l)) = Some (s1, l1)"
      "sys_settle fuel env (s1, l1) = Some (s2, l2)" "sys_moves fuel bx env ms (s2, l2) = Some (s', l')"
    by (auto simp: bind_eq_Some_conv)
  have "sys_run bx env s1 l1"
    using s(1) 2(3) by (cases m) (auto intro: sys_api_run sys_transfer_run)
  with s 2(1)[OF s(1,2)] sys_settle_run[OF s(2)] show ?case by simp
qed simp

section \<open>A sample run\<close>

text \<open>
  A pool of one connection that needs a password, and three requests: the second reply is an error, and the connection
  breaks while the third is in flight.
\<close>

definition incr :: single_command_t where
  "incr = \<lparr>arguments = [''INCR'', ''k'']\<rparr>"

definition sample_moves :: "move list" where
  "sample_moves =
     [M_api (S_add sample_options (Some 1)),
      M_api (S_execute ''main'' incr (Some 10) (Some 11)),
      M_transfer 0 (St_connect_done None True), M_transfer 0 (St_read (''+OK'' @ crlf)),
      M_transfer 0 (St_write_done None), M_transfer 0 (St_read (resp (Int_t 5))),
      M_api (S_execute ''main'' incr (Some 20) (Some 21)), M_transfer 0 (St_read (''-ERR'' @ crlf)),
      M_api (S_execute ''main'' incr (Some 30) (Some 31)), M_api (S_execute ''main'' incr (Some 40) (Some 41))]"

definition sample_system :: "(system \<times> ledger) option" where
  "sample_system = sys_moves 40 ref_boost reader_env sample_moves (initial_system, empty_ledger)"

lemma sample_system_outcome:
  "map_option (\<lambda>(s, l). (taken l, settled l, dropped l, agenda s,
      map_option (\<lambda>(pid, tr, cn). (fsm_state cn, cur_query cn)) (conns s 0), map_option queue (pools (snd (svc s)) 0)))
     sample_system =
   Some ({#11, 21, 31, 41#}, {#11, 21#}, {#}, [],
     Some (Query, \<lparr>buff = [], result_cb = Some 30, error_cb = Some 31\<rparr>),
     Some [\<lparr>buff = wire_command [''INCR'', ''k''], result_cb = Some 40, error_cb = Some 41\<rparr>])"
  by code_simp

lemma sample_system_run:
  obtains s l pid tr cn p where "sample_system = Some (s, l)" "sys_run ref_boost reader_env s l"
    "taken l = {#11, 21, 31, 41#}" "settled l = {#11, 21#}" "dropped l = {#}" "agenda s = []"
    "conns s 0 = Some (pid, tr, cn)" "fsm_state cn = Query" "error_cb (cur_query cn) = Some 31"
    "pools (snd (svc s)) 0 = Some p"
    "queue p = [\<lparr>buff = wire_command [''INCR'', ''k''], result_cb = Some 40, error_cb = Some 41\<rparr>]"
proof -
  from sample_system_outcome obtain s l where s: "sample_system = Some (s, l)" by auto
  have "sys_run ref_boost reader_env s l"
    by (rule sys_moves_run[OF s[unfolded sample_system_def] sys_run.start])
  moreover from sample_system_outcome[unfolded s] obtain pid tr cn p where
    "taken l = {#11, 21, 31, 41#}" "settled l = {#11, 21#}" "dropped l = {#}" "agenda s = []"
    "conns s 0 = Some (pid, tr, cn)" "fsm_state cn = Query" "error_cb (cur_query cn) = Some 31"
    "pools (snd (svc s)) 0 = Some p"
    "queue p = [\<lparr>buff = wire_command [''INCR'', ''k''], result_cb = Some 40, error_cb = Some 41\<rparr>]"
    by auto
  ultimately show thesis by (intro that[OF s])
qed

text \<open>The same run, stopped when the connection is idle again after the first reply.\<close>

definition sample_idle :: "(system \<times> ledger) option" where
  "sample_idle = sys_moves 40 ref_boost reader_env (take 6 sample_moves) (initial_system, empty_ledger)"

lemma sample_idle_outcome:
  "map_option (\<lambda>(s, l). (agenda s,
      map_option (\<lambda>(pid, tr, cn). (pid, fsm_state cn, msg_queue cn, deferred cn)) (conns s 0),
      map_option closed (pools (snd (svc s)) 0))) sample_idle =
   Some ([], Some (0, Idle, [], []), Some False)"
  by code_simp

lemma sample_idle_run:
  obtains s l tr cn p where "sample_idle = Some (s, l)" "sys_run ref_boost reader_env s l" "agenda s = []"
    "conns s 0 = Some (0, tr, cn)" "fsm_state cn = Idle" "msg_queue cn = []" "deferred cn = []"
    "pools (snd (svc s)) 0 = Some p" "\<not> closed p"
proof -
  from sample_idle_outcome obtain s l where s: "sample_idle = Some (s, l)" by auto
  have "sys_run ref_boost reader_env s l"
    by (rule sys_moves_run[OF s[unfolded sample_idle_def] sys_run.start])
  moreover from sample_idle_outcome[unfolded s] obtain tr cn p where "agenda s = []"
    "conns s 0 = Some (0, tr, cn)" "fsm_state cn = Idle" "msg_queue cn = []" "deferred cn = []"
    "pools (snd (svc s)) 0 = Some p" "\<not> closed p" by auto
  ultimately show thesis by (intro that[OF s])
qed

end
