(* ===== verification/Rd_System_Rest.thy ===== *)
theory Rd_System_Rest
  imports Rd_Rest Rd_Scenario "HOL-Library.Multiset_Order"
begin

text \<open>
  The composition comes to rest. Whatever waits somewhere, a request in a queue, a stored event, a byte
  to be read, a call under way, has a rank, and a step of the composition takes away something of one
  rank and adds only what has lower ranks, if any number of it: a pool that is closed tells all of its
  connections to end whenever one of them becomes idle. The multiset of the ranks therefore decreases
  in the order of multisets, in every schedule.
\<close>

section \<open>Ranks\<close>

fun rank_queued :: "event \<Rightarrow> nat" where
  "rank_queued (Ev_execute _) = 2"
| "rank_queued Ev_terminate = 3"
| "rank_queued _ = 7"

definition rank_deferred :: "event \<Rightarrow> nat" where
  "rank_deferred e = rank_queued e - 1"

fun rank_task :: "task \<Rightarrow> nat" where
  "rank_task (T_call _ (P_execute _ _)) = 3"
| "rank_task (T_call _ (P_terminate _)) = 4"
| "rank_task (T_action _ (Out_idle _)) = 5"
| "rank_task (T_action _ (Out_terminated _)) = 1"
| "rank_task (T_action _ (Out_conn_error _ _)) = 1"
| "rank_task _ = 0"

definition conn_load :: "connection \<Rightarrow> nat multiset" where
  "conn_load c = mset (map rank_queued (msg_queue c)) + mset (map rank_deferred (deferred c)) +
     (if fsm_state c = Unplugged \<or> fsm_state c = Connecting then {#8#} else {#}) +
     (if reading c then replicate_mset (read_left c) 8 + {#1#} else {#})"

definition pool_load :: "pool \<Rightarrow> nat multiset" where
  "pool_load p = replicate_mset (length (queue p)) 4"

lemma pool_load_connections [simp]: "pool_load (p\<lparr>connections := cs\<rparr>) = pool_load p"
  by (simp add: pool_load_def)

abbreviation task_load :: "task \<Rightarrow> nat multiset" where
  "task_load t \<equiv> {#rank_task t#}"

definition sys_load :: "system \<Rightarrow> nat multiset" where
  "sys_load = weight pool_load (\<lambda>_. conn_load) task_load"

lemma sum_task_load: "sum_list (map task_load ts) = mset (map rank_task ts)"
  by (induction ts) simp_all

text \<open>Much of low rank is less than one thing of a higher rank.\<close>

lemma outranked: "\<forall>x \<in># N. x < k \<Longrightarrow> k \<in># M \<Longrightarrow> N \<le> (M :: nat multiset)"
proof -
  assume "\<forall>x \<in># N. x < k" "k \<in># M"
  then have "N < {#k#}" "{#k#} \<le> M" by (simp_all add: subset_eq_imp_le_multiset)
  then show ?thesis by (meson less_le_trans less_imp_le)
qed

section \<open>Connections\<close>

definition ranks :: "action list \<Rightarrow> nat multiset" where
  "ranks out = mset (map (\<lambda>a. rank_task (T_action 0 a)) out)"

lemma ranks_actions: "sum_list (map task_load (map (T_action c) out)) = ranks out"
proof -
  have "rank_task (T_action c a) = rank_task (T_action 0 a)" for a by (cases a) simp_all
  then show ?thesis unfolding sum_task_load by (simp add: ranks_def multiset.map_comp comp_def)
qed

lemma ranks_simps [simp]:
  "ranks [] = {#}" "ranks (a # out) = add_mset (rank_task (T_action 0 a)) (ranks out)"
  "ranks (xs @ ys) = ranks xs + ranks ys"
  by (simp_all add: ranks_def)

lemma ranks_hooks:
  "x \<in># ranks (notify_idle c) \<Longrightarrow> x = 5" "x \<in># ranks (term_notes c) \<Longrightarrow> x = 1"
  "x \<in># ranks (notify_error c m) \<Longrightarrow> x = 1" "x \<in># ranks (send tr b c) \<Longrightarrow> x = 0"
  "x \<in># ranks (notify_result q r) \<Longrightarrow> x = 0" "x \<in># ranks (notify_query_error q m) \<Longrightarrow> x = 0"
  by (auto simp: notify_idle_def term_notes_def notify_terminated_def notify_error_def send_def
      notify_result_def notify_query_error_def split: option.splits if_splits)

lemma trans_load:
  assumes "conn_trans tr c e out c'"
    and "rank_deferred e \<le> k" "defers (fsm_state c) e \<Longrightarrow> rank_deferred e < k"
  shows "conn_load c' + ranks out + {#0#} \<le> conn_load c + {#k#}"
  using assms
proof (induction rule: conn_trans.induct)
  case (unplug c)
  then show ?case by (auto simp: conn_load_def finish_def intro!: outranked[where k = 8] dest!: ranks_hooks)
next
  case (open_plain c)
  then show ?case by (auto simp: conn_load_def intro!: outranked[where k = 8])
next
  case (open_auth c)
  then show ?case by (auto simp: conn_load_def intro!: outranked[where k = 8] dest!: ranks_hooks)
next
  case (fail c m)
  then show ?case
    by (auto simp: conn_load_def rank_deferred_def finish_def intro!: outranked[where k = k] dest!: ranks_hooks)
qed (auto simp: conn_load_def rank_deferred_def finish_def intro!: outranked dest!: ranks_hooks)

lemma step_load:
  assumes "conn_step tr env c l c'" and "conn_both c"
  shows "conn_load c' + ranks (label_actions l) + {#0#} \<le> conn_load c"
  using assms
proof (induction rule: conn_step.induct)
  case (queued c e q c' out)
  have "conn_load c = conn_load (c\<lparr>msg_queue := q\<rparr>) + {#rank_queued e#}"
    using queued(1) by (simp add: conn_load_def)
  moreover have "rank_deferred e < rank_queued e" by (cases e) (simp_all add: rank_deferred_def)
  ultimately show ?case using trans_load[OF dispatch_trans[OF queued(2)], of "rank_queued e"] by simp
next
  case (recalled c xs e ys c' out)
  have "conn_load c = conn_load (c\<lparr>deferred := xs @ ys\<rparr>) + {#rank_deferred e#}"
    using recalled(1) by (simp add: conn_load_def)
  with trans_load[OF dispatch_trans[OF recalled(3)], of "rank_deferred e"] recalled(2) show ?case by simp
next
  case (round c c' out)
  show ?case
  proof (cases "read_left c = 0")
    case True
    with round(1) have "conn_load c = conn_load (c\<lparr>reading := False\<rparr>) + {#1#}"
      by (simp add: conn_load_def)
    with round(3) True show ?thesis by (auto simp: read_round_def start_read_def intro!: outranked)
  next
    case False
    with round(3) obtain ev left rest where
      st: "read_step env (read_left c) (incoming c) = Inr (ev, left, rest)" and
      c': "c' = process_event (c\<lparr>incoming := rest, read_left := left\<rparr>) ev" "out = []"
      by (auto simp: read_round_def split: sum.splits)
    from round(1,4) have l: "read_left c = length (incoming c)" "length (incoming c) < 2 ^ 64"
      by (auto simp: conn_both_def conn_inv_def)
    with st have "left = length rest" using read_step_balance by metis
    moreover have "length rest < length (incoming c)"
      using st False l(1) by (cases rule: read_step_cases) auto
    ultimately obtain n where n: "read_left c = left + Suc n" using l by (metis less_iff_Suc_add add_Suc_right)
    have "replicate_mset (left + m) (8 :: nat) = replicate_mset left 8 + replicate_mset m 8" for m
      by (induction m) simp_all
    moreover have "rank_queued ev < 8" by (cases ev) simp_all
    ultimately show ?thesis using round(1) c' n
      by (auto simp: conn_load_def process_event_def intro!: outranked)
  qed
qed

section \<open>The composition\<close>

interpretation load_flow: inner_flow "(\<le>)" pool_load "\<lambda>_. conn_load" task_load "\<lambda>_. {#7, 8#}"
  "\<lambda>_ _. {#0#}" "\<lambda>_. {#0#}" "\<lambda>_ _. {#}"
proof unfold_locales
  fix c k p p' out pid
  assume "connection_ready c p = (p', out)"
  then show "pool_load p' + sum_list (map task_load (map (T_call pid) out)) + ({#0#} + {#}) \<le>
    pool_load p + task_load (T_action c (Out_idle k))"
    by (auto simp: connection_ready_def next_event_def add_idle_connection_def pool_load_def sum_task_load
        close_connections_def intro!: outranked[where k = 5] split: list.splits if_splits option.splits)
next
  fix c k p p' out pid
  assume "connection_terminated c p = (p', out)"
  then show "pool_load p' + sum_list (map task_load (map (T_call pid) out)) + {#0#} \<le>
    pool_load p + task_load (T_action c (Out_terminated k))"
    by (auto simp: connection_terminated_def erase_connection_def sum_task_load Let_def
        split: if_splits option.splits)
next
  fix x e p p' out pid c k m
  assume "pool_connection_error x e p = (p', out)"
  then have o: "queue p' = []" "out = clear_queue_loop (queue (erase_connection x p)) e"
    by (auto simp: pool_connection_error_def clear_queue_def)
  have "rank_task (T_call pid call) = 0" if "call \<in> set (clear_queue_loop q e)" for call q
    using that by (induction q) (auto split: option.splits)
  with o(2) have "\<forall>y \<in># sum_list (map task_load (map (T_call pid) out)). y = 0"
    unfolding sum_task_load by auto
  with o(1) show "pool_load p' + sum_list (map task_load (map (T_call pid) out)) + {#0#} \<le>
    pool_load p + task_load (T_action c (Out_conn_error k m))"
    by (intro outranked[where k = 1]) (auto simp: pool_load_def simp del: map_map)
next
  fix tr env cn lb cn' c
  assume "conn_step tr env cn lb cn'" "conn_both cn"
  from step_load[OF this]
  show "conn_load cn' + sum_list (map task_load (map (T_action c) (label_actions lb))) + {#0#} \<le> conn_load cn"
    by (simp only: ranks_actions)
qed (auto simp: conn_load_def create_with_def connect_def new_connection_def execute_def terminate_def
    process_event_def intro!: outranked)

text \<open>A step inside the composition: a call that is under way, or the work of a connection.\<close>

inductive inner_step :: "penv \<Rightarrow> system \<Rightarrow> system \<Rightarrow> bool" for env where
  task: "agenda s = t # rest \<Longrightarrow> inner_step env s (run_task t (s\<lparr>agenda := rest\<rparr>))"
| work: "conns s c = Some (pid, tr, cn) \<Longrightarrow> conn_step tr env cn lb cn' \<Longrightarrow>
     inner_step env s
       (s\<lparr>conns := (conns s)(c := Some (pid, tr, cn')), agenda := map (T_action c) (label_actions lb) @ agenda s\<rparr>)"

lemma inner_step_run: "inner_step env s s' \<Longrightarrow> sys_run bx env s l \<Longrightarrow> \<exists>l'. sys_run bx env s' l'"
  by (induction rule: inner_step.induct) (blast intro: sys_run.task sys_run.work)+

lemma one_less: "M + {#0#} \<le> N \<Longrightarrow> M < (N :: nat multiset)"
  by (rule less_le_trans[of _ "M + {#0#}"]) simp_all

lemma inner_step_load: "inner_step env s s' \<Longrightarrow> sys_inv s \<Longrightarrow> sys_load s' < sys_load s"
proof (induction rule: inner_step.induct)
  case (task s t rest)
  have "voided (\<lambda>_ _. {#}) t s = ({#} :: nat multiset)" by simp
  with load_flow.task_flow[OF task(2,1)] show ?case unfolding sys_load_def by (simp only: one_less add_0_right)
next
  case (work s c pid tr cn lb cn')
  from load_flow.work_flow[OF work(3,1,2)] show ?case unfolding sys_load_def by (rule one_less)
qed

lemma inner_steps_run:
  "(inner_step env)\<^sup>*\<^sup>* s s' \<Longrightarrow> sys_run bx env s l \<Longrightarrow> \<exists>l'. sys_run bx env s' l'"
  by (induction rule: rtranclp_induct) (blast dest: inner_step_run)+

text \<open>No schedule goes on forever.\<close>

lemma inner_steps_end:
  assumes "sys_run bx env (f 0) l" and "\<And>i. inner_step env (f i) (f (Suc i))"
  shows False
proof -
  have run: "\<exists>l. sys_run bx env (f i) l" for i
    by (induction i) (use assms inner_step_run in blast)+
  have "\<nexists>i. sys_load (f i) = m" for m
  proof (induction m rule: less_induct)
    case (less m)
    have "sys_load (f (Suc i)) < sys_load (f i)" for i
      using inner_step_load[OF assms(2)] run[of i] sys_run_inv by blast
    with less show ?case by blast
  qed
  then show False by blast
qed

text \<open>
  Where the composition can stop: nothing is under way, and every connection is at rest or its next event
  is a fault.
\<close>

definition stopped :: "penv \<Rightarrow> system \<Rightarrow> bool" where
  "stopped env s \<longleftrightarrow> agenda s = [] \<and>
     (\<forall>c pid tr cn. conns s c = Some (pid, tr, cn) \<longrightarrow>
        quiescent cn \<and> \<not> reading cn \<or> (\<exists>f. advance tr env cn = Some (Inl f)))"

lemma not_stopped: "\<not> stopped env s \<Longrightarrow> \<exists>s'. inner_step env s s'"
proof (cases "agenda s")
  case Nil
  assume "\<not> stopped env s"
  with Nil obtain c pid tr cn where c: "conns s c = Some (pid, tr, cn)" "\<not> (quiescent cn \<and> \<not> reading cn)"
    "\<And>f. advance tr env cn \<noteq> Some (Inl f)" by (auto simp: stopped_def)
  then obtain r where "advance tr env cn = Some r" using advance_None by blast
  with c(3) obtain lb cn' where "advance tr env cn = Some (Inr (lb, cn'))" by (cases r) auto
  from inner_step.work[OF c(1) advance_step[OF this]] show ?thesis by blast
qed (blast intro: inner_step.task)

lemma inner_steps_stop: "sys_run bx env s l \<Longrightarrow> \<exists>s'. (inner_step env)\<^sup>*\<^sup>* s s' \<and> stopped env s'"
proof (induction "sys_load s" arbitrary: s l rule: less_induct)
  case less
  show ?case
  proof (cases "stopped env s")
    case False
    then obtain s1 where s1: "inner_step env s s1" using not_stopped by blast
    with inner_step_load[OF s1 sys_run_inv[OF less(2)]] less inner_step_run[OF s1 less(2)] obtain s' where
      "(inner_step env)\<^sup>*\<^sup>* s1 s'" "stopped env s'" by blast
    with s1 show ?thesis by (blast intro: converse_rtranclp_into_rtranclp)
  qed blast
qed

text \<open>The schedule of \<^const>\<open>sys_settle\<close> is one of them: some fuel is enough for it.\<close>

lemma sys_settle_simps:
  "sys_advance env sl = None \<Longrightarrow> sys_settle fuel env sl = Some sl"
  "sys_advance env sl = Some (Inr sl') \<Longrightarrow> sys_settle (Suc fuel) env sl = sys_settle fuel env sl'"
  by (simp_all add: sys_settle.simps[of fuel] sys_settle.simps[of "Suc fuel"])

lemma sys_advance_inner: "sys_advance env (s, l) = Some (Inr (s', l')) \<Longrightarrow> inner_step env s s'"
proof (cases "agenda s")
  case Nil
  assume a: "sys_advance env (s, l) = Some (Inr (s', l'))"
  with Nil obtain c lb cn' where
    f: "first_work env s [0..<next_conn (snd (svc s))] = Some (c, Inr (lb, cn'))"
    by (auto simp: sys_advance_def split: option.splits sum.splits prod.splits)
  from first_work_Some[OF this] obtain pid tr cn where
    c: "conns s c = Some (pid, tr, cn)" "advance tr env cn = Some (Inr (lb, cn'))" by blast
  from inner_step.work[OF c(1) advance_step[OF c(2)]] a Nil f c(1) show ?thesis
    by (simp add: sys_advance_def)
qed (auto simp: sys_advance_def intro: inner_step.task)

lemma sys_settle_enough:
  "sys_run bx env s l \<Longrightarrow>
     (\<exists>fuel s' l'. sys_settle fuel env (s, l) = Some (s', l')) \<or>
     (\<exists>s' l' f. (inner_step env)\<^sup>*\<^sup>* s s' \<and> sys_advance env (s', l') = Some (Inl f))"
proof (induction "sys_load s" arbitrary: s l rule: less_induct)
  case less
  show ?case
  proof (cases "sys_advance env (s, l)")
    case None
    then show ?thesis using sys_settle_simps(1)[OF None] by fastforce
  next
    case (Some r)
    show ?thesis
    proof (cases r)
      case (Inr sl)
      then obtain s1 l1 where a: "sys_advance env (s, l) = Some (Inr (s1, l1))" using Some by (cases sl) auto
      note s1 = sys_advance_inner[OF a]
      from less(1)[OF inner_step_load[OF s1 sys_run_inv[OF less(2)]] sys_advance_run[OF a less(2)]]
        sys_settle_simps(2)[OF a] s1 show ?thesis
        by (metis converse_rtranclp_into_rtranclp)
    qed (use Some in blast)
  qed
qed

end
