(* ===== verification/Rd_Request.thy ===== *)
theory Rd_Request
  imports Rd_System_Rest
begin

text \<open>
  One request on its way through all the components: from the facade to the pool of its alias, to an
  idle connection, as bytes to the socket; and from the bytes of the reply through the read loop to the
  result callback, with the connection back among the idle ones of its pool.
\<close>

section \<open>One connection works while the others rest\<close>

definition others_rest :: "penv \<Rightarrow> system \<Rightarrow> conn_id \<Rightarrow> bool" where
  "others_rest env s c \<longleftrightarrow>
     (\<forall>d pid tr cn. d \<noteq> c \<longrightarrow> conns s d = Some (pid, tr, cn) \<longrightarrow> advance tr env cn = None)"

definition stage ::
  "system \<Rightarrow> conn_id \<Rightarrow> rd_state \<Rightarrow> pool_id \<times> transport \<times> connection \<Rightarrow> task list \<Rightarrow> system" where
  "stage s c r x ts = s\<lparr>svc := r, conns := (conns s)(c := Some x), agenda := ts\<rparr>"

lemma stage_simps [simp]: "svc (stage s c r x ts) = r" "agenda (stage s c r x ts) = ts"
  "conns (stage s c r x ts) = (conns s)(c := Some x)"
  "(stage s c r x ts)\<lparr>svc := r'\<rparr> = stage s c r' x ts" "(stage s c r x ts)\<lparr>agenda := ts'\<rparr> = stage s c r x ts'"
  "(stage s c r x ts)\<lparr>conns := (conns s)(c := Some y)\<rparr> = stage s c r y ts"
  by (simp_all add: stage_def)

lemma first_work_only:
  assumes "others_rest env s c"
  shows "c \<in> set cs \<Longrightarrow>
    first_work env (stage s c r (pid, tr, cn) ts) cs = map_option (Pair c) (advance tr env cn)"
    and "c \<notin> set cs \<Longrightarrow> first_work env (stage s c r (pid, tr, cn) ts) cs = None"
proof -
  have out: "first_work env (stage s c r (pid, tr, cn) ts) cs = None" if "c \<notin> set cs" for cs
    using that assms
    by (induction cs) (auto simp: others_rest_def split: option.splits)
  then show "c \<notin> set cs \<Longrightarrow> first_work env (stage s c r (pid, tr, cn) ts) cs = None" .
  show "c \<in> set cs \<Longrightarrow>
    first_work env (stage s c r (pid, tr, cn) ts) cs = map_option (Pair c) (advance tr env cn)"
  proof (induction cs)
    case (Cons d cs)
    show ?case
    proof (cases "d = c")
      case True
      with Cons out[of cs] show ?thesis
        by (cases "c \<in> set cs") (auto split: option.splits)
    next
      case False
      with Cons assms show ?thesis by (auto simp: others_rest_def split: option.splits)
    qed
  qed simp
qed

lemma stage_task:
  "sys_advance env (stage s c r x (t # ts), l) = Some (Inr (run_task t (stage s c r x ts), book t l))"
  by (simp add: sys_advance_def)

lemma stage_work:
  assumes "others_rest env s c" and "c < next_conn (snd r)" and "advance tr env cn = Some (Inr (lb, cn'))"
  shows "sys_advance env (stage s c r (pid, tr, cn) [], l) =
    Some (Inr (stage s c r (pid, tr, cn') (map (T_action c) (label_actions lb)),
      l\<lparr>dropped := dropped l + drops cn lb\<rparr>))"
  using first_work_only(1)[OF assms(1), of "[0..<next_conn (snd r)]" r pid tr cn "[]"] assms(2,3)
  by (simp add: sys_advance_def stage_def)

lemma stage_rest:
  assumes "others_rest env s c" and "c < next_conn (snd r)" and "advance tr env cn = None"
  shows "sys_advance env (stage s c r (pid, tr, cn) [], l) = None"
  using first_work_only(1)[OF assms(1), of "[0..<next_conn (snd r)]" r pid tr cn "[]"] assms(2,3)
  by (simp add: sys_advance_def)

lemma all_rest:
  assumes "sys_inv s" and "sys_advance env (s, l) = None"
  shows "agenda s = []" and "conns s c = Some (pid, tr, cn) \<Longrightarrow> advance tr env cn = None"
proof -
  show a: "agenda s = []" using assms(2) by (simp add: sys_advance_def split: list.splits)
  have none: "advance tr env cn = None"
    if "first_work env s cs = None" "c \<in> set cs" "conns s c = Some (pid, tr, cn)" for cs
    using that by (induction cs) (auto split: option.splits)
  assume c: "conns s c = Some (pid, tr, cn)"
  from assms(2) a have "first_work env s [0..<next_conn (snd (svc s))] = None"
  proof (cases "first_work env s [0..<next_conn (snd (svc s))]")
    case (Some x)
    obtain d y where x: "x = (d, y)" by (cases x)
    from first_work_Some[of env s _ d y] Some x obtain pid' tr' cn' where "conns s d = Some (pid', tr', cn')"
      by blast
    with assms(2) a Some x show ?thesis by (auto simp: sys_advance_def split: sum.splits prod.splits)
  qed
  from none[OF this _ c] sys_invD(2)[OF assms(1) c] show "advance tr env cn = None" by simp
qed

section \<open>The way to the socket\<close>

definition serving :: "execute_event \<Rightarrow> connection \<Rightarrow> connection" where
  "serving evt cn = cn\<lparr>cur_query := evt\<lparr>buff := []\<rparr>, fsm_state := Query\<rparr>"

lemma idle_at_rest:
  assumes "advance tr env cn = None" and "fsm_state cn = Idle" and "conn_both cn"
  shows "msg_queue cn = []" "deferred cn = []" "\<not> reading cn" "incoming cn = []"
    "callbacks cn = pool_callbacks" "cur_query cn = empty_execute"
  using assms advance_None[of tr env cn]
  by (auto simp: quiescent_def conn_both_def conn_inv_def list_all_iff split: if_splits)

lemma advance_execute:
  assumes "msg_queue cn = []" and "fsm_state cn = Idle" and "connected tr (sock_open cn)"
  shows "advance tr env (execute evt cn) =
    Some (Inr (L_event Idle (Ev_execute evt) [Out_write (buff evt)], serving evt cn))"
proof -
  have e: "cn\<lparr>msg_queue := []\<rparr> = cn" using assms(1) by (cases cn) simp
  have "dispatch tr (cn\<lparr>msg_queue := []\<rparr>) (Ev_execute evt) = Inr (serving evt cn, [Out_write (buff evt)])"
    unfolding e serving_def using assms(2,3) by (intro trans_dispatch start_sent)
  with assms show ?thesis by (simp add: advance_def execute_def process_event_def)
qed

lemma serving_rest:
  "msg_queue cn = [] \<Longrightarrow> deferred cn = [] \<Longrightarrow> \<not> reading cn \<Longrightarrow> advance tr env (serving evt cn) = None"
  by (simp add: advance_None quiescent_def serving_def)

lemma settle_steps:
  "sys_advance env sl = Some (Inr sl') \<Longrightarrow> sys_settle (Suc n) env sl = sys_settle n env sl'"
  "sys_advance env sl = None \<Longrightarrow> sys_settle n env sl = Some sl"
  by (simp_all add: sys_settle_simps)

lemma settle_request:
  assumes rest: "others_rest env s c" and c: "c < next_conn (snd r)"
    and cn: "msg_queue cn = []" "deferred cn = []" "\<not> reading cn" "fsm_state cn = Idle" "connected tr (sock_open cn)"
  shows "sys_settle (Suc (Suc (Suc n))) env (stage s c r (pid, tr, cn) [T_call pid (P_execute c evt)], l) =
    Some (stage s c r (pid, tr, serving evt cn) [], l\<lparr>written := written l @ [(c, buff evt)]\<rparr>)"
proof -
  let ?l = "l\<lparr>written := written l @ [(c, buff evt)]\<rparr>"
  have "sys_advance env (stage s c r (pid, tr, cn) [T_call pid (P_execute c evt)], l) =
      Some (Inr (stage s c r (pid, tr, execute evt cn) [], l))"
    by (simp add: stage_task on_conn_def book_def)
  moreover have "sys_advance env (stage s c r (pid, tr, execute evt cn) [], l) =
      Some (Inr (stage s c r (pid, tr, serving evt cn) [T_action c (Out_write (buff evt))], l))"
    using stage_work[OF rest c advance_execute[OF cn(1,4,5), of env evt], of pid l] by simp
  moreover have "sys_advance env (stage s c r (pid, tr, serving evt cn) [T_action c (Out_write (buff evt))], l) =
      Some (Inr (stage s c r (pid, tr, serving evt cn) [], ?l))"
    by (simp add: stage_task book_def)
  moreover have "sys_advance env (stage s c r (pid, tr, serving evt cn) [], ?l) = None"
    by (rule stage_rest[OF rest c serving_rest[OF cn(1-3)]])
  ultimately show ?thesis by (simp add: settle_steps)
qed

section \<open>The way back\<close>

text \<open>
  The reply of a server to a request: a value, or the text of an error. What arrives for it, the event that
  it raises, what the state machine then does with the callbacks of the request, and what they are given.
\<close>

type_synonym reply = "string + result_t"

fun reply_bytes :: "reply \<Rightarrow> string" where
  "reply_bytes (Inl m) = CHR ''-'' # m @ crlf"
| "reply_bytes (Inr r) = resp r"

fun reply_event :: "reply \<Rightarrow> event" where
  "reply_event (Inl m) = Ev_query_error m"
| "reply_event (Inr r) = Ev_recv r"

fun reply_action :: "callback \<Rightarrow> callback \<Rightarrow> reply \<Rightarrow> action" where
  "reply_action rc ec (Inl m) = Out_query_error ec m"
| "reply_action rc ec (Inr r) = Out_post rc (Some ec) r"

fun told :: "callback \<Rightarrow> callback \<Rightarrow> reply \<Rightarrow> callback \<times> reply" where
  "told rc ec (Inl m) = (ec, Inl m)"
| "told rc ec (Inr r) = (rc, Inr r)"

text \<open>Bytes that one round of the read loop takes for a reply, with none left over.\<close>

definition taken_for :: "penv \<Rightarrow> string \<Rightarrow> reply \<Rightarrow> bool" where
  "taken_for env b reply \<longleftrightarrow> read_step env (length b) b = Inr (reply_event reply, 0, []) \<and> b \<noteq> []"

abbreviation reads_as :: "penv \<Rightarrow> reply \<Rightarrow> bool" where
  "reads_as env reply \<equiv> taken_for env (reply_bytes reply) reply"

lemma reads_as_error: "CR \<notin> set m \<Longrightarrow> reads_as env (Inl m)"
proof -
  assume "CR \<notin> set m"
  then have "raw_parse env (reply_bytes (Inl m)) = Inr (Error_reply m (length (reply_bytes (Inl m))))"
    using error_line[of m env "[]"] by simp
  then show ?thesis by (simp add: taken_for_def read_step_def Let_def del: reply_bytes.simps) simp
qed

lemma reads_as_value:
  "raw_parse env (resp r) = Inr (Positive r (length (resp r))) \<Longrightarrow> reads_as env (Inr r)"
  by (cases r) (simp_all add: taken_for_def read_step_def Let_def)

lemma reads_as_reply:
  assumes cast: "\<And>i. lexical_cast env (dec_int (sint i)) = Some i"
    and alloc: "\<And>n. n \<le> limit \<Longrightarrow> reserve_throws env n = None" "limit < 2 ^ 63"
    and "case reply of Inl m \<Rightarrow> CR \<notin> set m | Inr r \<Rightarrow> wire_ok limit r"
  shows "reads_as env reply"
proof (cases reply)
  case (Inl m)
  with assms(4) show ?thesis unfolding Inl by (intro reads_as_error) simp
next
  case (Inr r)
  with assms(4) reply_reader.roundtrip[OF reply_reader.intro[OF cast alloc], of r "[]"] show ?thesis
    unfolding Inr by (intro reads_as_value) simp
qed

text \<open>The connection while it reads the reply to the request \<open>evt\<close>.\<close>

definition replied :: "execute_event \<Rightarrow> connection \<Rightarrow> connection" where
  "replied evt cn = (serving evt cn)\<lparr>reading := True, read_left := 0\<rparr>"

definition returned :: "connection \<Rightarrow> connection" where
  "returned cn = cn\<lparr>reading := True, read_left := 0\<rparr>"

lemma advance_reply_round:
  assumes "taken_for env b reply" and "msg_queue cn = []" "deferred cn = []" "incoming cn = []"
  shows "advance tr env (handle_read None b (serving evt cn)) =
    Some (Inr (L_round [], process_event (replied evt cn) (reply_event reply)))"
proof -
  have "read_step env (length b) b = Inr (reply_event reply, 0, [])" "b \<noteq> []"
    using assms(1) by (simp_all add: taken_for_def)
  moreover have "(serving evt cn)\<lparr>incoming := [], reading := True, read_left := 0\<rparr> =
      (serving evt cn)\<lparr>reading := True, read_left := 0\<rparr>"
    using assms(4) by (cases cn) (simp add: serving_def)
  ultimately show ?thesis
    using assms(2-4) by (simp add: advance_def handle_read_def serving_def read_round_def replied_def
        process_event_def)
qed

lemma advance_reply:
  assumes "msg_queue cn = []" "fsm_state cn = Idle" "callbacks cn = pool_callbacks" "cur_query cn = empty_execute"
    and "result_cb evt = Some rc" "error_cb evt = Some ec"
  shows "advance tr env (process_event (replied evt cn) (reply_event reply)) =
    Some (Inr (L_event Query (reply_event reply) [reply_action rc ec reply, Out_idle 0], returned cn))"
proof -
  have e: "(process_event (replied evt cn) (reply_event reply))\<lparr>msg_queue := []\<rparr> = replied evt cn"
    using assms(1) by (cases cn) (simp add: process_event_def replied_def serving_def)
  have c: "fsm_state (replied evt cn) = Query" by (simp add: replied_def serving_def)
  have o: "notify_idle (replied evt cn) = [Out_idle 0]"
    using assms(3) by (simp add: replied_def serving_def notify_idle_def pool_callbacks_def)
  have q: "notify_result (cur_query (replied evt cn)) r = [Out_post rc (Some ec) r]"
    "notify_query_error (cur_query (replied evt cn)) m = [Out_query_error ec m]" for r m
    using assms(5,6) by (simp_all add: replied_def serving_def notify_result_def notify_query_error_def)
  have r: "replied evt cn\<lparr>cur_query := empty_execute, fsm_state := Idle\<rparr> = returned cn"
    using assms(2,4) by (cases cn) (simp add: replied_def serving_def returned_def)
  have "dispatch tr (replied evt cn) (reply_event reply) = Inr (returned cn, [reply_action rc ec reply, Out_idle 0])"
    using trans_dispatch[OF answer[of "replied evt cn" tr, OF c]] trans_dispatch[OF refuse[of "replied evt cn" tr, OF c]]
    by (cases reply) (simp_all only: o q r reply_event.simps reply_action.simps append.simps)
  then have "dispatch tr ((process_event (replied evt cn) (reply_event reply))\<lparr>msg_queue := []\<rparr>) (reply_event reply) =
      Inr (returned cn, [reply_action rc ec reply, Out_idle 0])"
    by (simp only: e)
  with assms(1) c show ?thesis
    by (simp add: advance_def process_event_def replied_def serving_def)
qed

lemma advance_returned:
  assumes "msg_queue cn = []" "deferred cn = []"
  shows "advance tr env (returned cn) = Some (Inr (L_round [Out_read], cn\<lparr>reading := False, read_left := 0\<rparr>))"
  using assms by (simp add: advance_def returned_def read_round_def start_read_def)

definition listed_again :: "conn_id \<Rightarrow> pool_id \<Rightarrow> pool \<Rightarrow> rd_state \<Rightarrow> rd_state" where
  "listed_again c pid p r = (fst r, (snd r)\<lparr>pools := (pools (snd r))(pid := Some (add_idle_connection c p))\<rparr>)"

lemma idle_note:
  assumes "pools (snd r) pid = Some p" and "queue p = []" and "\<not> closed p"
  shows "run_task (T_action c (Out_idle k)) (stage s c r (pid, tr, cn) ts) =
    stage s c (listed_again c pid p r) (pid, tr, cn) ts"
  using assms
  by (cases r)
    (simp add: notify_pool_def on_pool_def connection_ready_def next_event_def issue_def listed_again_def)

lemma settle_reply:
  assumes rest: "others_rest env s c" and c: "c < next_conn (snd r)"
    and parsed: "taken_for env b reply"
    and cn: "msg_queue cn = []" "deferred cn = []" "incoming cn = []" "fsm_state cn = Idle"
      "callbacks cn = pool_callbacks" "cur_query cn = empty_execute"
    and rc: "result_cb evt = Some rc" "error_cb evt = Some ec"
    and p: "pools (snd r) pid = Some p" "queue p = []" "\<not> closed p"
  shows "sys_settle (Suc (Suc (Suc (Suc (Suc (Suc n)))))) env
      (stage s c r (pid, tr, handle_read None b (serving evt cn)) [], l) =
    Some (stage s c (listed_again c pid p r) (pid, tr, cn\<lparr>reading := False, read_left := 0\<rparr>) [],
      l\<lparr>settled := settled l + {#ec#}, posted := posted l @ [told rc ec reply]\<rparr>)"
proof -
  let ?st = "\<lambda>r x ts. stage s c r (pid, tr, x) ts"
  let ?r = "listed_again c pid p r" and ?post = "T_action c (reply_action rc ec reply)"
  let ?cn = "cn\<lparr>reading := False, read_left := 0\<rparr>"
  let ?l = "l\<lparr>settled := settled l + {#ec#}, posted := posted l @ [told rc ec reply]\<rparr>"
  have c': "c < next_conn (snd ?r)" using c by (simp add: listed_again_def)
  have book: "book ?post l = ?l" "book (T_action c (Out_idle 0)) ?l = ?l" "book (T_action c Out_read) ?l = ?l"
    by (cases reply; simp add: book_def)+
  have none: "drops x (L_event Query (reply_event reply) acts) = {#}" for x acts by (cases reply) simp_all
  have "sys_advance env (?st r (handle_read None b (serving evt cn)) [], l) =
      Some (Inr (?st r (process_event (replied evt cn) (reply_event reply)) [], l))"
    using stage_work[where pid = pid and l = l, OF rest c advance_reply_round[OF parsed cn(1-3)]] by simp
  moreover have "sys_advance env (?st r (process_event (replied evt cn) (reply_event reply)) [], l) =
      Some (Inr (?st r (returned cn) [?post, T_action c (Out_idle 0)], l))"
    using stage_work[where pid = pid and l = l, OF rest c advance_reply[OF cn(1,4-6) rc]] none by simp
  moreover have "sys_advance env (?st r (returned cn) [?post, T_action c (Out_idle 0)], l) =
      Some (Inr (?st r (returned cn) [T_action c (Out_idle 0)], ?l))"
    unfolding stage_task book by (cases reply) simp_all
  moreover have "sys_advance env (?st r (returned cn) [T_action c (Out_idle 0)], ?l) =
      Some (Inr (?st ?r (returned cn) [], ?l))"
    unfolding stage_task book idle_note[OF p] by simp
  moreover have "sys_advance env (?st ?r (returned cn) [], ?l) =
      Some (Inr (?st ?r ?cn [T_action c Out_read], ?l))"
    using stage_work[where pid = pid and l = ?l, OF rest c' advance_returned[OF cn(1,2)]] by simp
  moreover have "sys_advance env (?st ?r ?cn [T_action c Out_read], ?l) = Some (Inr (?st ?r ?cn [], ?l))"
    unfolding stage_task book by simp
  moreover have "sys_advance env (?st ?r ?cn [], ?l) = None"
    using stage_rest[where pid = pid and l = ?l, OF rest c', of tr ?cn] cn(1,2)
    by (simp add: advance_None quiescent_def)
  ultimately show ?thesis by (simp add: settle_steps)
qed

section \<open>There and back\<close>

lemma pool_of_update:
  assumes "rd_inv r" and "pool_of r al = Some (pid, p)"
    and "fst r' = fst r" "pools (snd r') = (pools (snd r))(pid := Some p')"
  shows "pool_of r' = (pool_of r)(al := Some (pid, p'))"
proof
  fix al'
  obtain i w where r: "r = (Some i, w)" "map_of (registry i) al = Some pid" "pools w pid = Some p"
    using assms(2) by (auto simp: pool_of_def bind_eq_Some_conv split: prod.splits option.splits)
  obtain w' where r': "r' = (Some i, w')" "pools w' = (pools w)(pid := Some p')"
    using assms(3,4) r(1) by (cases r') simp
  have "map_of (registry i) al' \<noteq> Some pid" if "al' \<noteq> al"
  proof
    assume "map_of (registry i) al' = Some pid"
    with r have "pool_of r al' = Some (pid, p)" by (simp add: pool_of_def)
    with pool_of_inv[OF assms(1)] assms(2) that show False by blast
  qed
  with r r' show "pool_of r' al' = ((pool_of r)(al := Some (pid, p'))) al'"
    by (cases "map_of (registry i) al'") (auto simp: pool_of_def)
qed

lemma request_answered_run:
  assumes run: "sys_run bx env s l" and still: "sys_advance env (s, l) = None"
    and po: "pool_of (svc s) al = Some (pid, p)" "ready_connections p = c # cs"
    and cn: "conns s c = Some (pid, tr, cn)" "fsm_state cn = Idle" "connected tr (sock_open cn)"
    and cmd: "arguments cmd \<noteq> []"
    and reply: "reads_as env reply" "length (reply_bytes reply) < 2 ^ 64"
    and fuel: "6 \<le> fuel"
  shows "\<exists>r. sys_moves fuel bx env
      [M_api (S_execute al cmd (Some rc) (Some ec)), M_transfer c (St_read (reply_bytes reply))] (s, l) =
    Some (stage s c r (pid, tr, cn\<lparr>reading := False, read_left := 0\<rparr>) [],
      \<lparr>taken = taken l + {#ec#}, settled = settled l + {#ec#}, dropped = dropped l,
       written = written l @ [(c, wire_command (arguments cmd))], posted = posted l @ [told rc ec reply]\<rparr>) \<and>
    pool_of r = (pool_of (svc s))(al := Some (pid, p\<lparr>ready_connections := cs @ [c]\<rparr>))"
proof -
  note inv = sys_run_inv[OF run]
  have rd: "rd_inv (svc s)" using inv by (simp add: sys_inv_def)
  note a = all_rest(1)[OF inv still] and q = all_rest(2)[OF inv still]
  have others: "others_rest env s c" using q by (auto simp: others_rest_def)
  note b = idle_at_rest[OF q[OF cn(1)] cn(2) sys_invD(4)[OF inv cn(1)]]
  let ?evt = "request cmd (Some rc) (Some ec)"
  define p1 where "p1 = p\<lparr>ready_connections := cs\<rparr>"
  define r1 where "r1 = (fst (svc s),
    (snd (svc s))\<lparr>pools := (pools (snd (svc s)))(pid := Some p1), next_conn := next_conn (snd (svc s)) + 1\<rparr>)"
  have ex: "rd_execute al cmd (Some rc) (Some ec) (svc s) = (Inr [(pid, P_execute c ?evt)], r1)"
    by (rule execute_known[OF rd po(1) cmd, of "Some rc" "Some ec"]) (auto simp: po(2) r1_def p1_def)
  let ?st = "\<lambda>r x ts. stage s c r (pid, tr, x) ts"
  let ?l1 = "l\<lparr>taken := taken l + {#ec#}\<rparr>"
  let ?l2 = "?l1\<lparr>written := written l @ [(c, wire_command (arguments cmd))]\<rparr>"
  have cc: "c < next_conn (snd r1)" using sys_invD(2)[OF inv cn(1)] by (simp add: r1_def)
  have evt: "buff ?evt = wire_command (arguments cmd)" "result_cb ?evt = Some rc" "error_cb ?evt = Some ec"
    by (simp_all add: request_def)
  have same: "(conns s)(c := Some (pid, tr, cn)) = conns s" using cn(1) by (simp add: fun_upd_idem)
  have "svc_step bx (S_execute al cmd (Some rc) (Some ec)) (svc s) = (Inr [(pid, P_execute c ?evt)], r1)"
    using ex by simp
  then have api: "sys_api bx (S_execute al cmd (Some rc) (Some ec)) (s, l) =
      Some (?st r1 cn [T_call pid (P_execute c ?evt)], ?l1)"
    using a same by (simp add: sys_api_def issue_def stage_def)
  obtain n where n: "fuel = Suc (Suc (Suc (Suc (Suc (Suc n)))))"
    using fuel by (auto dest!: le_Suc_ex simp: numeral_eq_Suc)
  have sent: "sys_settle fuel env (?st r1 cn [T_call pid (P_execute c ?evt)], ?l1) =
      Some (?st r1 (serving ?evt cn) [], ?l2)"
    unfolding n using settle_request[where n = "Suc (Suc (Suc n))" and pid = pid and evt = ?evt and l = ?l1,
      OF others cc b(1-3) cn(2,3)] evt(1)
    by simp
  have transfer: "sys_transfer c (St_read (reply_bytes reply)) (?st r1 (serving ?evt cn) [], ?l2) =
      Some (?st r1 (handle_read None (reply_bytes reply) (serving ?evt cn)) [], ?l2)"
    using b(3) reply(2) by (simp add: sys_transfer_def serving_def stage_def)
  note p = pool_of_inv[OF rd po(1)]
  then have "queue p = []" using po(2) by (auto simp: pool_ok_def pool_inv_def)
  then have p1: "pools (snd r1) pid = Some p1" "queue p1 = []" "\<not> closed p1" using p by (simp_all add: r1_def p1_def)
  note home = settle_reply[where n = n and l = ?l2 and tr = tr, OF others cc reply(1) b(1,2,4) cn(2) b(5,6) evt(2,3) p1]
  have "pool_of (listed_again c pid p1 r1) = (pool_of (svc s))(al := Some (pid, p\<lparr>ready_connections := cs @ [c]\<rparr>))"
    using p1(3) by (intro pool_of_update[OF rd po(1)])
      (simp_all add: listed_again_def r1_def p1_def add_idle_connection_def)
  moreover have "sys_moves fuel bx env
      [M_api (S_execute al cmd (Some rc) (Some ec)), M_transfer c (St_read (reply_bytes reply))] (s, l) =
    Some (?st (listed_again c pid p1 r1) (cn\<lparr>reading := False, read_left := 0\<rparr>) [],
      ?l2\<lparr>settled := settled ?l2 + {#ec#}, posted := posted ?l2 @ [told rc ec reply]\<rparr>)"
    by (simp only: sys_moves.simps move.case api Option.bind.simps sent transfer home[folded n])
  moreover have "?l2\<lparr>settled := settled ?l2 + {#ec#}, posted := posted ?l2 @ [told rc ec reply]\<rparr> =
      \<lparr>taken = taken l + {#ec#}, settled = settled l + {#ec#}, dropped = dropped l,
       written = written l @ [(c, wire_command (arguments cmd))], posted = posted l @ [told rc ec reply]\<rparr>"
    by simp
  ultimately show ?thesis by metis
qed

section \<open>A sample\<close>

text \<open>The sample run stopped with an idle connection is at rest, and its pool lists that connection.\<close>

lemma sample_idle_outcome2:
  "map_option (\<lambda>(s, l). (case sys_advance reader_env (s, l) of None \<Rightarrow> True | Some _ \<Rightarrow> False,
      map_option (\<lambda>(pid, p). (pid, ready_connections p)) (pool_of (svc s) ''main''),
      map_option (\<lambda>(pid, tr, cn). (pid, fsm_state cn, connected tr (sock_open cn))) (conns s 0),
      written l, posted l)) sample_idle =
   Some (True, Some (0, [0]), Some (0, Idle, True),
     [(0, wire_command [''AUTH'', ''pw'']), (0, wire_command [''INCR'', ''k''])], [(10, Inr (Int_t 5))])"
  by code_simp

lemma sample_idle_still:
  obtains s l p tr cn where "sample_idle = Some (s, l)" "sys_run ref_boost reader_env s l"
    "sys_advance reader_env (s, l) = None" "pool_of (svc s) ''main'' = Some (0, p)" "ready_connections p = [0]"
    "conns s 0 = Some (0, tr, cn)" "fsm_state cn = Idle" "connected tr (sock_open cn)"
    "written l = [(0, wire_command [''AUTH'', ''pw'']), (0, wire_command [''INCR'', ''k''])]"
    "posted l = [(10, Inr (Int_t 5))]"
proof -
  obtain s l tr cn p where s: "sample_idle = Some (s, l)" "sys_run ref_boost reader_env s l"
    by (rule sample_idle_run)
  from sample_idle_outcome2[unfolded s(1)] that[OF s] show thesis
    by (auto split: option.splits)
qed

end
