(* ===== verification/Rd_Queue_Drain.thy ===== *)
theory Rd_Queue_Drain
  imports Rd_Request
begin

text \<open>
  The requests that wait in a pool: each reply that the serving connection gets hands it the next request
  of the queue, until the queue is empty and the connection is listed as idle.
\<close>

section \<open>From one request to the next\<close>

definition dequeued :: "pool_id \<Rightarrow> pool \<Rightarrow> rd_state \<Rightarrow> rd_state" where
  "dequeued pid p r = (fst r, (snd r)\<lparr>pools := (pools (snd r))(pid := Some (p\<lparr>queue := tl (queue p)\<rparr>))\<rparr>)"

lemma idle_note_next:
  assumes "pools (snd r) pid = Some p" and "queue p = evt # q"
  shows "run_task (T_action c (Out_idle k)) (stage s c r (pid, tr, cn) ts) =
    stage s c (dequeued pid p r) (pid, tr, cn) (T_call pid (P_execute c evt) # ts)"
  using assms
  by (cases r)
    (simp add: notify_pool_def on_pool_def connection_ready_def next_event_def issue_def dequeued_def)

lemma serving_reading:
  "serving evt (cn\<lparr>reading := b, read_left := k\<rparr>) = (serving evt cn)\<lparr>reading := b, read_left := k\<rparr>"
  by (simp add: serving_def)

lemma advance_last_round:
  assumes "msg_queue cn = []" "deferred cn = []"
  shows "advance tr env ((serving evt cn)\<lparr>reading := True, read_left := 0\<rparr>) =
    Some (Inr (L_round [Out_read], (serving evt cn)\<lparr>reading := False, read_left := 0\<rparr>))"
  using assms by (simp add: advance_def serving_def read_round_def start_read_def)

lemma settle_next:
  assumes rest: "others_rest env s c" and c: "c < next_conn (snd r)"
    and parsed: "taken_for env b reply"
    and cn: "msg_queue cn = []" "deferred cn = []" "incoming cn = []" "fsm_state cn = Idle"
      "callbacks cn = pool_callbacks" "cur_query cn = empty_execute" "connected tr (sock_open cn)"
    and rc: "result_cb evt = Some rc" "error_cb evt = Some ec"
    and p: "pools (snd r) pid = Some p" "queue p = evt' # q"
  shows "sys_settle (9 + n) env
      (stage s c r (pid, tr, handle_read None b (serving evt cn)) [], l) =
    Some (stage s c (dequeued pid p r) (pid, tr, serving evt' (cn\<lparr>reading := False, read_left := 0\<rparr>)) [],
      l\<lparr>settled := settled l + {#ec#}, written := written l @ [(c, buff evt')],
        posted := posted l @ [told rc ec reply]\<rparr>)"
proof -
  let ?st = "\<lambda>r x ts. stage s c r (pid, tr, x) ts"
  let ?r = "dequeued pid p r" and ?post = "T_action c (reply_action rc ec reply)"
  let ?l = "l\<lparr>settled := settled l + {#ec#}, posted := posted l @ [told rc ec reply]\<rparr>"
  let ?l2 = "?l\<lparr>written := written l @ [(c, buff evt')]\<rparr>"
  let ?ex = "T_call pid (P_execute c evt')" and ?wr = "T_action c (Out_write (buff evt'))"
  let ?sv = "(serving evt' cn)\<lparr>reading := True, read_left := 0\<rparr>"
  let ?cn = "(serving evt' cn)\<lparr>reading := False, read_left := 0\<rparr>"
  have c': "c < next_conn (snd ?r)" using c by (simp add: dequeued_def)
  have book: "book ?post l = ?l" "book (T_action c (Out_idle 0)) ?l = ?l" "book (T_action c Out_read) ?l2 = ?l2"
    "book ?ex ?l = ?l" "book ?wr ?l = ?l2"
    by (cases reply; simp add: book_def)+
  have none: "drops x (L_event Query (reply_event reply) acts) = {#}" for x acts by (cases reply) simp_all
  have ret: "msg_queue (returned cn) = []" "fsm_state (returned cn) = Idle" "connected tr (sock_open (returned cn))"
    "serving evt' (returned cn) = ?sv"
    using cn by (simp_all add: returned_def serving_def)
  have "sys_advance env (?st r (handle_read None b (serving evt cn)) [], l) =
      Some (Inr (?st r (process_event (replied evt cn) (reply_event reply)) [], l))"
    using stage_work[where pid = pid and l = l, OF rest c advance_reply_round[OF parsed cn(1-3)]] by simp
  moreover have "sys_advance env (?st r (process_event (replied evt cn) (reply_event reply)) [], l) =
      Some (Inr (?st r (returned cn) [?post, T_action c (Out_idle 0)], l))"
    using stage_work[where pid = pid and l = l, OF rest c advance_reply[OF cn(1,4-6) rc]] none by simp
  moreover have "sys_advance env (?st r (returned cn) [?post, T_action c (Out_idle 0)], l) =
      Some (Inr (?st r (returned cn) [T_action c (Out_idle 0)], ?l))"
    unfolding stage_task book by (cases reply) simp_all
  moreover have "sys_advance env (?st r (returned cn) [T_action c (Out_idle 0)], ?l) =
      Some (Inr (?st ?r (returned cn) [?ex], ?l))"
    unfolding stage_task book idle_note_next[OF p] by simp
  moreover have "sys_advance env (?st ?r (returned cn) [?ex], ?l) =
      Some (Inr (?st ?r (execute evt' (returned cn)) [], ?l))"
    unfolding stage_task book by (simp add: on_conn_def)
  moreover have "sys_advance env (?st ?r (execute evt' (returned cn)) [], ?l) = Some (Inr (?st ?r ?sv [?wr], ?l))"
    using stage_work[where pid = pid and l = ?l, OF rest c' advance_execute[OF ret(1-3), of env evt']]
    by (simp add: ret(4))
  moreover have "sys_advance env (?st ?r ?sv [?wr], ?l) = Some (Inr (?st ?r ?sv [], ?l2))"
    unfolding stage_task book by simp
  moreover have "sys_advance env (?st ?r ?sv [], ?l2) = Some (Inr (?st ?r ?cn [T_action c Out_read], ?l2))"
    using stage_work[where pid = pid and l = ?l2, OF rest c' advance_last_round[OF cn(1,2)]] by simp
  moreover have "sys_advance env (?st ?r ?cn [T_action c Out_read], ?l2) = Some (Inr (?st ?r ?cn [], ?l2))"
    unfolding stage_task book by simp
  moreover have "sys_advance env (?st ?r ?cn [], ?l2) = None"
    using stage_rest[where pid = pid and l = ?l2, OF rest c', of tr ?cn] cn(1,2)
    by (simp add: advance_None quiescent_def serving_def)
  ultimately show ?thesis by (simp add: settle_steps serving_reading numeral_eq_Suc)
qed

section \<open>To the end of the queue\<close>

definition arrives :: "conn_id \<Rightarrow> reply list \<Rightarrow> move list" where
  "arrives c rs = map (\<lambda>reply. M_transfer c (St_read (reply_bytes reply))) rs"

definition error_of :: "execute_event \<Rightarrow> callback" where
  "error_of evt = the (error_cb evt)"

text \<open>What the callbacks of a request are given for its reply.\<close>

definition outcome :: "execute_event \<Rightarrow> reply \<Rightarrow> callback \<times> reply" where
  "outcome evt reply = told (the (result_cb evt)) (error_of evt) reply"

lemma transfer_reply:
  assumes "\<not> reading cn" and "length b < 2 ^ 64"
  shows "sys_transfer c (St_read b) (stage s c r (pid, tr, serving evt cn) [], l) =
    Some (stage s c r (pid, tr, handle_read None b (serving evt cn)) [], l)"
  using assms by (simp add: sys_transfer_def serving_def stage_def)

lemma drain:
  assumes rest: "others_rest env s c" and "c < next_conn (snd r)"
    and "msg_queue cn = []" "deferred cn = []" "incoming cn = []" "\<not> reading cn" "fsm_state cn = Idle"
      "callbacks cn = pool_callbacks" "cur_query cn = empty_execute" "connected tr (sock_open cn)"
    and "pools (snd r) pid = Some p" "\<not> closed p" "queue p = q"
    and "\<forall>e \<in> set (evt # q). both e"
    and "length rs = Suc (length q)"
    and "\<forall>reply \<in> set rs. reads_as env reply \<and> length (reply_bytes reply) < 2 ^ 64"
    and fuel: "9 \<le> fuel"
  shows "\<exists>r' cn'. sys_moves fuel bx env (arrives c rs) (stage s c r (pid, tr, serving evt cn) [], l) =
      Some (stage s c r' (pid, tr, cn') [],
        l\<lparr>settled := settled l + mset (map error_of (evt # q)),
          written := written l @ map (\<lambda>e. (c, buff e)) q,
          posted := posted l @ map2 outcome (evt # q) rs\<rparr>) \<and>
    cn' = cn\<lparr>reading := False, read_left := 0\<rparr> \<and>
    fst r' = fst r \<and> pools (snd r') = (pools (snd r))(pid := Some (add_idle_connection c (p\<lparr>queue := []\<rparr>)))"
  using assms(2-16)
proof (induction q arbitrary: r cn p evt rs l)
  case Nil
  then obtain reply where rs: "rs = [reply]" by (auto simp: length_Suc_conv)
  with Nil have reply: "reads_as env reply" "length (reply_bytes reply) < 2 ^ 64" by auto
  have evt: "result_cb evt = Some (the (result_cb evt))" "error_cb evt = Some (error_of evt)"
    using Nil by (auto simp: both_def error_of_def)
  obtain n where n: "fuel = Suc (Suc (Suc (Suc (Suc (Suc n)))))"
    using fuel by (auto dest!: le_Suc_ex simp: numeral_eq_Suc)
  have p: "p\<lparr>queue := []\<rparr> = p" using Nil by (cases p) simp
  note home = settle_reply[where n = n and l = l and tr = tr and pid = pid, OF rest Nil(1) reply(1) Nil(2-4,6-8) evt
      Nil(10,12,11), folded n]
  show ?case
    using home transfer_reply[OF Nil(5) reply(2)]
    by (intro exI[of _ "listed_again c pid p r"] exI[of _ "cn\<lparr>reading := False, read_left := 0\<rparr>"])
      (simp add: arrives_def rs outcome_def listed_again_def p fun_upd_def)
next
  case (Cons evt' q)
  then obtain reply rs' where rs: "rs = reply # rs'" "length rs' = Suc (length q)"
    by (auto simp: length_Suc_conv)
  with Cons have reply: "reads_as env reply" "length (reply_bytes reply) < 2 ^ 64" by auto
  have evt: "result_cb evt = Some (the (result_cb evt))" "error_cb evt = Some (error_of evt)"
    using Cons(14) by (auto simp: both_def error_of_def)
  obtain n where n: "fuel = 9 + n" using fuel by (auto dest!: le_Suc_ex)
  let ?r = "dequeued pid p r" and ?cn = "cn\<lparr>reading := False, read_left := 0\<rparr>" and ?p = "p\<lparr>queue := q\<rparr>"
  let ?l = "l\<lparr>settled := settled l + {#error_of evt#}, written := written l @ [(c, buff evt')],
    posted := posted l @ [outcome evt reply]\<rparr>"
  note nxt = settle_next[where n = n and l = l and tr = tr and pid = pid, OF rest Cons(2) reply(1) Cons(3-5,7-10) evt
      Cons(11,13), folded n outcome_def]
  have r: "c < next_conn (snd ?r)" "pools (snd ?r) pid = Some ?p" "\<not> closed ?p" "queue ?p = q"
    using Cons(2,12,13) by (simp_all add: dequeued_def)
  have cn: "msg_queue ?cn = []" "deferred ?cn = []" "incoming ?cn = []" "\<not> reading ?cn" "fsm_state ?cn = Idle"
    "callbacks ?cn = pool_callbacks" "cur_query ?cn = empty_execute" "connected tr (sock_open ?cn)"
    using Cons(3-10) by simp_all
  have both: "\<forall>e \<in> set (evt' # q). both e" using Cons(14) by simp
  have reads: "\<forall>reply \<in> set rs'. reads_as env reply \<and> length (reply_bytes reply) < 2 ^ 64"
    using Cons(16) rs(1) by simp
  from Cons.IH[where l = ?l, OF r(1) cn r(2-4) both rs(2) reads]
  obtain r' cn' where ih: "sys_moves fuel bx env (arrives c rs') (stage s c ?r (pid, tr, serving evt' ?cn) [], ?l) =
      Some (stage s c r' (pid, tr, cn') [],
        ?l\<lparr>settled := settled ?l + mset (map error_of (evt' # q)),
          written := written ?l @ map (\<lambda>e. (c, buff e)) q,
          posted := posted ?l @ map2 outcome (evt' # q) rs'\<rparr>)"
    "cn' = ?cn\<lparr>reading := False, read_left := 0\<rparr>" "fst r' = fst ?r"
    "pools (snd r') = (pools (snd ?r))(pid := Some (add_idle_connection c (?p\<lparr>queue := []\<rparr>)))"
    by (elim exE conjE)
  show ?case
    using ih nxt transfer_reply[OF Cons(6) reply(2)] rs(1)
    by (intro exI[of _ r'] exI[of _ cn']) (simp add: arrives_def dequeued_def)
qed

section \<open>From a reachable state\<close>

lemma query_at_rest:
  assumes "advance tr env cn = None" and "fsm_state cn = Query" and "conn_both cn"
  shows "msg_queue cn = []" "\<not> reading cn" "incoming cn = []" "callbacks cn = pool_callbacks" "both (cur_query cn)"
  using assms advance_None[of tr env cn]
  by (auto simp: quiescent_def conn_both_def conn_inv_def query_ready_def both_def split: if_splits)

definition idle_again :: "connection \<Rightarrow> connection" where
  "idle_again cn = cn\<lparr>fsm_state := Idle, cur_query := empty_execute, reading := False, read_left := 0\<rparr>"

lemma drained_run:
  assumes run: "sys_run bx env s l" and still: "sys_advance env (s, l) = None"
    and po: "pool_of (svc s) al = Some (pid, p)"
    and cn: "conns s c = Some (pid, tr, cn)" "fsm_state cn = Query" "connected tr (sock_open cn)" "deferred cn = []"
      "buff (cur_query cn) = []"
    and rs: "length rs = Suc (length (queue p))"
      "\<forall>reply \<in> set rs. reads_as env reply \<and> length (reply_bytes reply) < 2 ^ 64"
    and fuel: "9 \<le> fuel"
  shows "\<exists>r'. sys_moves fuel bx env (arrives c rs) (s, l) = Some (stage s c r' (pid, tr, idle_again cn) [],
      l\<lparr>settled := settled l + mset (map error_of (cur_query cn # queue p)),
        written := written l @ map (\<lambda>e. (c, buff e)) (queue p),
        posted := posted l @ map2 outcome (cur_query cn # queue p) rs\<rparr>) \<and>
    pool_of r' = (pool_of (svc s))(al := Some (pid, p\<lparr>queue := [], ready_connections := ready_connections p @ [c]\<rparr>))"
proof -
  note inv = sys_run_inv[OF run]
  have rd: "rd_inv (svc s)" using inv by (simp add: sys_inv_def)
  note a = all_rest(1)[OF inv still] and q = all_rest(2)[OF inv still]
  have others: "others_rest env s c" using q by (auto simp: others_rest_def)
  note b = query_at_rest[OF q[OF cn(1)] cn(2) sys_invD(4)[OF inv cn(1)]]
  note pool = pool_of_inv[OF rd po]
  let ?cn = "cn\<lparr>fsm_state := Idle, cur_query := empty_execute\<rparr>" and ?evt = "cur_query cn"
  have evt: "?evt\<lparr>buff := []\<rparr> = ?evt" using cn(5) by (cases ?evt) simp
  have serving: "serving ?evt ?cn = cn" using cn(2) evt by (cases cn) (simp add: serving_def)
  have s: "s = stage s c (svc s) (pid, tr, serving ?evt ?cn) []"
    using a cn(1) by (cases s) (simp add: stage_def serving fun_upd_idem)
  have c: "c < next_conn (snd (svc s))" using sys_invD(2)[OF inv cn(1)] .
  have c1: "msg_queue ?cn = []" "deferred ?cn = []" "incoming ?cn = []" "\<not> reading ?cn" "fsm_state ?cn = Idle"
    "callbacks ?cn = pool_callbacks" "cur_query ?cn = empty_execute" "connected tr (sock_open ?cn)"
    using b cn by simp_all
  have both: "\<forall>e \<in> set (?evt # queue p). both e"
    using b(5) sys_invD(6)[OF inv, of pid p] pool by (auto simp: pool_refs_def)
  have p: "pools (snd (svc s)) pid = Some p" "\<not> closed p" "queue p = queue p" using pool by auto
  from drain[OF others c c1 p both rs fuel, of bx l]
  obtain r' where r': "sys_moves fuel bx env (arrives c rs) (stage s c (svc s) (pid, tr, serving ?evt ?cn) [], l) =
      Some (stage s c r' (pid, tr, idle_again cn) [],
        l\<lparr>settled := settled l + mset (map error_of (?evt # queue p)),
          written := written l @ map (\<lambda>e. (c, buff e)) (queue p),
          posted := posted l @ map2 outcome (?evt # queue p) rs\<rparr>)"
    "fst r' = fst (svc s)"
    "pools (snd r') = (pools (snd (svc s)))(pid := Some (add_idle_connection c (p\<lparr>queue := []\<rparr>)))"
    by (auto simp: idle_again_def)
  have "pool_of r' = (pool_of (svc s))(al := Some (pid, add_idle_connection c (p\<lparr>queue := []\<rparr>)))"
    using pool_of_update[OF rd po r'(2,3)] .
  moreover have "add_idle_connection c (p\<lparr>queue := []\<rparr>) =
      p\<lparr>queue := [], ready_connections := ready_connections p @ [c]\<rparr>"
    using p(2) by (simp add: add_idle_connection_def)
  ultimately show ?thesis using r'(1) s by metis
qed

section \<open>A sample\<close>

text \<open>The sample run, with a request in flight and one that waits.\<close>

lemma sample_waiting_outcome:
  "map_option (\<lambda>(s, l). (case sys_advance reader_env (s, l) of None \<Rightarrow> True | Some _ \<Rightarrow> False,
      map_option (\<lambda>(pid, p). (pid, queue p)) (pool_of (svc s) ''main''),
      map_option (\<lambda>(pid, tr, cn). (pid, fsm_state cn, connected tr (sock_open cn), deferred cn, cur_query cn))
        (conns s 0), settled l)) sample_system =
   Some (True, Some (0, [\<lparr>buff = wire_command [''INCR'', ''k''], result_cb = Some 40, error_cb = Some 41\<rparr>]),
     Some (0, Query, True, [], \<lparr>buff = [], result_cb = Some 30, error_cb = Some 31\<rparr>), {#11, 21#})"
  by code_simp

lemma sample_waiting:
  obtains s l p tr cn where "sample_system = Some (s, l)" "sys_run ref_boost reader_env s l"
    "sys_advance reader_env (s, l) = None" "pool_of (svc s) ''main'' = Some (0, p)" "conns s 0 = Some (0, tr, cn)"
    "fsm_state cn = Query" "connected tr (sock_open cn)" "deferred cn = []" "settled l = {#11, 21#}"
    "cur_query cn = \<lparr>buff = [], result_cb = Some 30, error_cb = Some 31\<rparr>"
    "queue p = [\<lparr>buff = wire_command [''INCR'', ''k''], result_cb = Some 40, error_cb = Some 41\<rparr>]"
proof -
  obtain s l where s: "sample_system = Some (s, l)" "sys_run ref_boost reader_env s l"
    by (rule sample_system_run)
  from sample_waiting_outcome[unfolded s(1)] that[OF s] show thesis
    by (auto split: option.splits)
qed

end
