(* ===== verification/Rd_Split_Reply.thy ===== *)
theory Rd_Split_Reply
  imports Rd_Queue_Drain
begin

text \<open>
  A reply that arrives in two reads. The first part is taken for an error, which ends the request that it
  belongs to; what the second part meets depends on the queue of the pool.
\<close>

section \<open>One reply\<close>

text \<open>The connection, and the state of the facade, after the reply to a request.\<close>

definition goes_on :: "execute_event list \<Rightarrow> connection \<Rightarrow> connection" where
  "goes_on q cn =
     (case q of [] \<Rightarrow> idle_again cn | e # _ \<Rightarrow> serving e (idle_again cn))"

definition pool_after :: "conn_id \<Rightarrow> pool \<Rightarrow> pool" where
  "pool_after c p =
     (case queue p of [] \<Rightarrow> p\<lparr>ready_connections := ready_connections p @ [c]\<rparr> | _ # q \<Rightarrow> p\<lparr>queue := q\<rparr>)"

definition next_written :: "conn_id \<Rightarrow> execute_event list \<Rightarrow> (conn_id \<times> string) list" where
  "next_written c q = (case q of [] \<Rightarrow> [] | e # _ \<Rightarrow> [(c, buff e)])"

lemma settled_still: "sys_settle fuel env sl = Some sl' \<Longrightarrow> sys_advance env sl' = None"
proof (induction fuel arbitrary: sl)
  case 0
  then show ?case by (auto simp: sys_settle.simps split: option.splits sum.splits)
next
  case (Suc fuel)
  then show ?case by (auto simp: sys_settle.simps[of "Suc fuel"] split: option.splits sum.splits)
qed

lemma next_reply:
  assumes run: "sys_run bx env s l" and still: "sys_advance env (s, l) = None"
    and po: "pool_of (svc s) al = Some (pid, p)"
    and cn: "conns s c = Some (pid, tr, cn)" "fsm_state cn = Query" "connected tr (sock_open cn)" "deferred cn = []"
      "buff (cur_query cn) = []"
    and reply: "taken_for env b reply" "length b < 2 ^ 64"
    and fuel: "9 \<le> fuel"
  obtains s1 l1 where
    "sys_moves fuel bx env [M_transfer c (St_read b)] (s, l) = Some (s1, l1)"
    "l1 = l\<lparr>settled := settled l + {#error_of (cur_query cn)#}, written := written l @ next_written c (queue p),
       posted := posted l @ [outcome (cur_query cn) reply]\<rparr>"
    "sys_run bx env s1 l1" "sys_advance env (s1, l1) = None"
    "conns s1 = (conns s)(c := Some (pid, tr, goes_on (queue p) cn))"
    "pool_of (svc s1) = (pool_of (svc s))(al := Some (pid, pool_after c p))"
proof -
  note inv = sys_run_inv[OF run]
  have rd: "rd_inv (svc s)" using inv by (simp add: sys_inv_def)
  note a = all_rest(1)[OF inv still] and q = all_rest(2)[OF inv still]
  have others: "others_rest env s c" using q by (auto simp: others_rest_def)
  note b = query_at_rest[OF q[OF cn(1)] cn(2) sys_invD(4)[OF inv cn(1)]]
  note pool = pool_of_inv[OF rd po]
  let ?cn = "cn\<lparr>fsm_state := Idle, cur_query := empty_execute\<rparr>" and ?evt = "cur_query cn"
  have "?evt\<lparr>buff := []\<rparr> = ?evt" using cn(5) by (cases ?evt) simp
  then have "serving ?evt ?cn = cn" using cn(2) by (cases cn) (simp add: serving_def)
  then have s: "s = stage s c (svc s) (pid, tr, serving ?evt ?cn) []"
    using a cn(1) by (cases s) (simp add: stage_def fun_upd_idem)
  have c: "c < next_conn (snd (svc s))" using sys_invD(2)[OF inv cn(1)] .
  have c1: "msg_queue ?cn = []" "deferred ?cn = []" "incoming ?cn = []" "\<not> reading ?cn" "fsm_state ?cn = Idle"
    "callbacks ?cn = pool_callbacks" "cur_query ?cn = empty_execute" "connected tr (sock_open ?cn)"
    using b cn by simp_all
  have evt: "result_cb ?evt = Some (the (result_cb ?evt))" "error_cb ?evt = Some (error_of ?evt)"
    using b(5) by (auto simp: both_def error_of_def)
  have p: "pools (snd (svc s)) pid = Some p" "\<not> closed p" using pool by auto
  obtain n where n: "fuel = 9 + n" using fuel by (auto dest!: le_Suc_ex)
  let ?l = "l\<lparr>settled := settled l + {#error_of ?evt#}, written := written l @ next_written c (queue p),
    posted := posted l @ [outcome ?evt reply]\<rparr>"
  obtain r1 where r1: "sys_settle fuel env (stage s c (svc s) (pid, tr, handle_read None b (serving ?evt ?cn)) [], l) =
      Some (stage s c r1 (pid, tr, goes_on (queue p) cn) [], ?l)"
    "fst r1 = fst (svc s)" "pools (snd r1) = (pools (snd (svc s)))(pid := Some (pool_after c p))"
  proof (cases "queue p")
    case Nil
    have "fuel = Suc (Suc (Suc (Suc (Suc (Suc (n + 3))))))" by (simp add: n numeral_eq_Suc)
    with settle_reply[where n = "n + 3" and l = l and tr = tr and pid = pid, OF others c reply(1) c1(1-3,5-7) evt
        p(1) Nil p(2)] that[of "listed_again c pid p (svc s)"] p(2)
    show thesis
      by (simp add: listed_again_def goes_on_def Nil idle_again_def next_written_def outcome_def pool_after_def
          add_idle_connection_def)
  next
    case (Cons e q)
    with settle_next[where n = n and l = l and tr = tr and pid = pid, OF others c reply(1) c1(1-3,5-8) evt p(1) Cons]
      that[of "dequeued pid p (svc s)"]
    show thesis
      by (simp add: n dequeued_def goes_on_def idle_again_def next_written_def outcome_def pool_after_def)
  qed
  let ?s = "stage s c r1 (pid, tr, goes_on (queue p) cn) []"
  have "sys_transfer c (St_read b) (s, l) =
      Some (stage s c (svc s) (pid, tr, handle_read None b (serving ?evt ?cn)) [], l)"
    using transfer_reply[OF c1(4) reply(2), of c s "svc s" pid tr ?evt l] unfolding s[symmetric] .
  then have m: "sys_moves fuel bx env [M_transfer c (St_read b)] (s, l) = Some (?s, ?l)"
    using r1(1) by simp
  show thesis
    using m sys_moves_run[OF m run] settled_still[OF r1(1)] pool_of_update[OF rd po r1(2,3)]
    by (intro that[of ?s ?l]) simp_all
qed

section \<open>The second part\<close>

lemma stage_fault:
  assumes "others_rest env s c" and "c < next_conn (snd r)" and "advance tr env cn = Some (Inl f)"
  shows "sys_advance env (stage s c r (pid, tr, cn) [], l) = Some (Inl f)"
  using first_work_only(1)[OF assms(1), of "[0..<next_conn (snd r)]" r pid tr cn "[]"] assms(2,3)
  by (simp add: sys_advance_def)

lemma idle_gets_bytes:
  assumes run: "sys_run bx env s l" and still: "sys_advance env (s, l) = None"
    and cn: "conns s c = Some (pid, tr, cn)" "fsm_state cn = Idle" and b: "b \<noteq> []" "length b < 2 ^ 64"
  shows "\<exists>s2 s3 f. sys_transfer c (St_read b) (s, l) = Some (s2, l) \<and>
    (s3 = s2 \<or> sys_advance env (s2, l) = Some (Inr (s3, l))) \<and> sys_advance env (s3, l) = Some (Inl f) \<and>
    ((\<exists>t. f = Uncaught t) \<or> (\<exists>ev. f = No_transition Idle ev))"
proof -
  note inv = sys_run_inv[OF run]
  note a = all_rest(1)[OF inv still] and q = all_rest(2)[OF inv still]
  have others: "others_rest env s c" using q by (auto simp: others_rest_def)
  note rest = idle_at_rest[OF q[OF cn(1)] cn(2) sys_invD(4)[OF inv cn(1)]]
  have c: "c < next_conn (snd (svc s))" using sys_invD(2)[OF inv cn(1)] .
  let ?st = "\<lambda>x. stage s c (svc s) (pid, tr, x) []" and ?cn = "handle_read None b cn"
  have t: "sys_transfer c (St_read b) (s, l) = Some (?st ?cn, l)"
    using cn(1) rest(3) b(2) a by (cases s) (simp add: sys_transfer_def stage_def)
  from idle_read_faults[OF cn(2) rest(1,2,4) b(1), of tr env] show ?thesis
  proof cases
    case (1 x)
    from stage_fault[OF others c this] t show ?thesis by blast
  next
    case (2 lb cn' ev)
    from 2(1) have lb: "label_actions lb = []" "drops ?cn lb = {#}"
      using rest cn(2) b(1) by (auto simp: advance_def handle_read_def read_round_def split: if_splits sum.splits)
    from stage_work[OF others c 2(1), where pid = pid and l = l] lb
    have "sys_advance env (?st ?cn, l) = Some (Inr (?st cn', l))" by simp
    with stage_fault[OF others c 2(2)] t show ?thesis by blast
  qed
qed

section \<open>Both parts\<close>

definition cut_off :: reply where
  "cut_off = Inl (ec_message (make_error_code not_enough_data))"

lemma goes_on_simps [simp]:
  "fsm_state (goes_on q cn) = (if q = [] then Idle else Query)" "sock_open (goes_on q cn) = sock_open cn"
  "deferred (goes_on q cn) = deferred cn" "buff (cur_query (goes_on (e # q) cn)) = []"
  "outcome (cur_query (goes_on (e # q) cn)) = outcome e"
  by (auto simp: goes_on_def idle_again_def serving_def outcome_def error_of_def fun_eq_iff split: list.split)

lemma split_reply:
  assumes run: "sys_run bx env s l" and still: "sys_advance env (s, l) = None"
    and po: "pool_of (svc s) al = Some (pid, p)"
    and cn: "conns s c = Some (pid, tr, cn)" "fsm_state cn = Query" "connected tr (sock_open cn)" "deferred cn = []"
      "buff (cur_query cn) = []"
    and cut: "taken_for env b1 cut_off" and b: "b2 \<noteq> []" "length b1 < 2 ^ 64" "length b2 < 2 ^ 64"
    and fuel: "9 \<le> fuel"
  obtains s1 l1 where
    "sys_moves fuel bx env [M_transfer c (St_read b1)] (s, l) = Some (s1, l1)"
    "l1 = l\<lparr>settled := settled l + {#error_of (cur_query cn)#}, written := written l @ next_written c (queue p),
       posted := posted l @ [outcome (cur_query cn) cut_off]\<rparr>"
    "conns s1 = (conns s)(c := Some (pid, tr, goes_on (queue p) cn))"
    "queue p = [] \<Longrightarrow> \<exists>s2 s3 f. sys_transfer c (St_read b2) (s1, l1) = Some (s2, l1) \<and>
       (s3 = s2 \<or> sys_advance env (s2, l1) = Some (Inr (s3, l1))) \<and> sys_advance env (s3, l1) = Some (Inl f) \<and>
       ((\<exists>t. f = Uncaught t) \<or> (\<exists>ev. f = No_transition Idle ev))"
    "\<And>e q reply. queue p = e # q \<Longrightarrow> taken_for env b2 reply \<Longrightarrow>
       \<exists>s2 l2. sys_moves fuel bx env [M_transfer c (St_read b2)] (s1, l1) = Some (s2, l2) \<and>
         posted l2 = posted l1 @ [outcome e reply]"
proof (rule next_reply[OF run still po cn cut b(2) fuel])
  fix s1 l1
  assume m: "sys_moves fuel bx env [M_transfer c (St_read b1)] (s, l) = Some (s1, l1)"
    and l1: "l1 = l\<lparr>settled := settled l + {#error_of (cur_query cn)#}, written := written l @ next_written c (queue p),
       posted := posted l @ [outcome (cur_query cn) cut_off]\<rparr>"
    and run1: "sys_run bx env s1 l1" "sys_advance env (s1, l1) = None"
    and conns: "conns s1 = (conns s)(c := Some (pid, tr, goes_on (queue p) cn))"
    and po1: "pool_of (svc s1) = (pool_of (svc s))(al := Some (pid, pool_after c p))"
  have c: "conns s1 c = Some (pid, tr, goes_on (queue p) cn)" by (simp add: conns)
  show thesis
  proof (rule that[OF m l1 conns])
    assume "queue p = []"
    with idle_gets_bytes[OF run1 c _ b(1,3)] show "\<exists>s2 s3 f. sys_transfer c (St_read b2) (s1, l1) = Some (s2, l1) \<and>
       (s3 = s2 \<or> sys_advance env (s2, l1) = Some (Inr (s3, l1))) \<and> sys_advance env (s3, l1) = Some (Inl f) \<and>
       ((\<exists>t. f = Uncaught t) \<or> (\<exists>ev. f = No_transition Idle ev))" by simp
  next
    fix e q reply assume q: "queue p = e # q" and reply: "taken_for env b2 reply"
    have "fsm_state (goes_on (queue p) cn) = Query" "connected tr (sock_open (goes_on (queue p) cn))"
      "deferred (goes_on (queue p) cn) = []" "buff (cur_query (goes_on (queue p) cn)) = []"
      using cn(3,4) by (simp_all add: q)
    note here = this
    have "pool_of (svc s1) al = Some (pid, pool_after c p)" by (simp add: po1)
    then show "\<exists>s2 l2. sys_moves fuel bx env [M_transfer c (St_read b2)] (s1, l1) = Some (s2, l2) \<and>
         posted l2 = posted l1 @ [outcome e reply]"
    proof (rule next_reply[OF run1 _ c here reply b(3) fuel])
      fix s2 l2
      assume "sys_moves fuel bx env [M_transfer c (St_read b2)] (s1, l1) = Some (s2, l2)"
        and "l2 = l1\<lparr>settled := settled l1 + {#error_of (cur_query (goes_on (queue p) cn))#},
          written := written l1 @ next_written c (queue (pool_after c p)),
          posted := posted l1 @ [outcome (cur_query (goes_on (queue p) cn)) reply]\<rparr>"
      then show ?thesis by (simp add: q)
    qed
  qed
qed

text \<open>The sample run after the reply to its request in flight: the last request is written and nothing waits.\<close>

definition sample_last :: "(system \<times> ledger) option" where
  "sample_last = Option.bind sample_system
     (sys_moves 9 ref_boost reader_env [M_transfer 0 (St_read (CHR '':'' # ''7'' @ crlf))])"

lemma sample_last_outcome:
  "map_option (\<lambda>(s, l). (case sys_advance reader_env (s, l) of None \<Rightarrow> True | Some _ \<Rightarrow> False,
      map_option (\<lambda>(pid, p). (pid, queue p)) (pool_of (svc s) ''main''),
      map_option (\<lambda>(pid, tr, cn). (pid, fsm_state cn, connected tr (sock_open cn), deferred cn, cur_query cn))
        (conns s 0))) sample_last =
   Some (True, Some (0, []),
     Some (0, Query, True, [], \<lparr>buff = [], result_cb = Some 40, error_cb = Some 41\<rparr>))"
  by code_simp

lemma sample_last:
  obtains s l p tr cn where "sample_last = Some (s, l)" "sys_run ref_boost reader_env s l"
    "sys_advance reader_env (s, l) = None" "pool_of (svc s) ''main'' = Some (0, p)" "conns s 0 = Some (0, tr, cn)"
    "fsm_state cn = Query" "connected tr (sock_open cn)" "deferred cn = []" "queue p = []"
    "cur_query cn = \<lparr>buff = [], result_cb = Some 40, error_cb = Some 41\<rparr>"
proof -
  from sample_last_outcome obtain s l where s: "sample_last = Some (s, l)" by auto
  obtain s0 l0 where s0: "sample_system = Some (s0, l0)" "sys_run ref_boost reader_env s0 l0"
    by (rule sample_system_run)
  have "sys_moves 9 ref_boost reader_env [M_transfer 0 (St_read (CHR '':'' # ''7'' @ crlf))] (s0, l0) = Some (s, l)"
    using s unfolding sample_last_def s0(1) by (simp only: Option.bind.simps)
  then have "sys_run ref_boost reader_env s l" using s0(2) by (rule sys_moves_run)
  with sample_last_outcome[unfolded s] that[OF s] show thesis
    by (auto split: option.splits)
qed


end
