(* ===== verification/Rd_Faults.thy ===== *)
theory Rd_Faults
  imports Rd_Scenario
begin

text \<open>
  What can go wrong in the composition. A connection can fault where it takes up an event or reads on; here
  it is shown which of these faults are left when connections are made and called by pools as the program
  does it: those that Asio or the server provoke.
\<close>

section \<open>Faults of a connection\<close>

text \<open>Where a step of \<^const>\<open>conn_step\<close> would be, but ends in a fault.\<close>

inductive conn_fault :: "transport \<Rightarrow> penv \<Rightarrow> connection \<Rightarrow> fault \<Rightarrow> bool" for tr env where
  queued: "msg_queue c = e # q \<Longrightarrow> dispatch tr (c\<lparr>msg_queue := q\<rparr>) e = Inl f \<Longrightarrow> conn_fault tr env c f"
| recalled: "deferred c = xs @ e # ys \<Longrightarrow> \<not> defers (fsm_state c) e \<Longrightarrow>
     dispatch tr (c\<lparr>deferred := xs @ ys\<rparr>) e = Inl f \<Longrightarrow> conn_fault tr env c f"
| round: "reading c \<Longrightarrow> quiescent c \<Longrightarrow> read_round env c = Inl f \<Longrightarrow> conn_fault tr env c f"

lemma advance_fault: "advance tr env c = Some (Inl f) \<Longrightarrow> conn_fault tr env c f"
  by (auto simp: advance_def quiescent_def first_recalled_None dest!: first_recalled_Some
      intro: conn_fault.intros split: list.splits option.splits sum.splits prod.splits if_splits)

text \<open>The events that Asio and the server can raise where the table has no row for them.\<close>

fun unheard :: "fsm_state \<Rightarrow> event \<Rightarrow> bool" where
  "unheard Connecting (Ev_recv _) = True"
| "unheard Connecting (Ev_query_error _) = True"
| "unheard Authn (Ev_query_error _) = True"
| "unheard Idle Ev_complete = True"
| "unheard Idle (Ev_recv _) = True"
| "unheard Idle (Ev_query_error _) = True"
| "unheard Query Ev_complete = True"
| "unheard _ _ = False"

definition from_outside :: "penv \<Rightarrow> fault \<Rightarrow> bool" where
  "from_outside env f \<longleftrightarrow>
     (\<exists>st e. f = No_transition st e \<and> unheard st e) \<or>
     (\<exists>n t. f = Uncaught t \<and> n < 2 ^ 63 \<and> reserve_throws env n = Some t)"

section \<open>The options of a connection\<close>

definition no_options :: "event list \<Rightarrow> bool" where
  "no_options es \<longleftrightarrow> (\<forall>opts. Ev_options opts \<notin> set es)"

lemma no_options_simps [simp]: "no_options []" "no_options (xs @ ys) \<longleftrightarrow> no_options xs \<and> no_options ys"
  "no_options (e # es) \<longleftrightarrow> (\<forall>opts. e \<noteq> Ev_options opts) \<and> no_options es"
  by (auto simp: no_options_def)

definition accepted_by :: "transport \<Rightarrow> connection_options \<Rightarrow> bool" where
  "accepted_by tr opts \<longleftrightarrow> uri opts \<noteq> [] \<and> (\<exists>req. connect_async tr opts = Inr req)"

text \<open>They are the first event, are taken once, and suit the transport.\<close>

definition plugged :: "transport \<Rightarrow> connection \<Rightarrow> bool" where
  "plugged tr cn \<longleftrightarrow>
     (if fsm_state cn = Unplugged
      then deferred cn = [] \<and>
        (\<exists>opts q. msg_queue cn = Ev_options opts # q \<and> no_options q \<and> accepted_by tr opts)
      else no_options (msg_queue cn))"

lemma trans_plugged:
  "conn_trans tr c e out c' \<Longrightarrow> no_options (msg_queue c) \<Longrightarrow> (fsm_state c = Unplugged \<Longrightarrow> \<exists>opts. e = Ev_options opts) \<Longrightarrow>
     fsm_state c' \<noteq> Unplugged \<and> no_options (msg_queue c')"
  by (induction rule: conn_trans.induct) (auto simp: finish_def)

lemma round_plugged:
  "read_round env c = Inr (c', out) \<Longrightarrow> no_options (msg_queue c) \<Longrightarrow> no_options (msg_queue c')"
  by (auto simp: read_round_def process_event_def split: if_splits sum.splits elim!: read_step_cases)

lemma step_plugged:
  assumes "conn_step tr env c l c'" and "plugged tr c"
  shows "plugged tr c'"
  using assms
proof (induction rule: conn_step.induct)
  case (queued c e q c' out)
  have "no_options q" "fsm_state c = Unplugged \<Longrightarrow> \<exists>opts. e = Ev_options opts"
    using queued(1,3) by (auto simp: plugged_def split: if_splits)
  with trans_plugged[OF dispatch_trans[OF queued(2)]] show ?case by (simp add: plugged_def)
next
  case (recalled c xs e ys c' out)
  then have "no_options (msg_queue c)" "fsm_state c \<noteq> Unplugged"
    by (auto simp: plugged_def split: if_splits)
  with trans_plugged[OF dispatch_trans[OF recalled(3)]] show ?case by (simp add: plugged_def)
next
  case (round c c' out)
  then have "no_options (msg_queue c)" "fsm_state c \<noteq> Unplugged"
    by (auto simp: plugged_def quiescent_def split: if_splits)
  with round_plugged[OF round(3)] round_state[OF round(3)] show ?case by (simp add: plugged_def)
qed

lemma process_plugged: "plugged tr cn \<Longrightarrow> (\<And>opts. e \<noteq> Ev_options opts) \<Longrightarrow> plugged tr (process_event cn e)"
  by (auto simp: plugged_def process_event_def split: if_splits)

lemma plugged_other [simp]:
  "plugged tr (cn\<lparr>sock_open := b\<rparr>) \<longleftrightarrow> plugged tr cn" "plugged tr (cn\<lparr>incoming := i\<rparr>) \<longleftrightarrow> plugged tr cn"
  "plugged tr (cn\<lparr>reading := r, incoming := i, read_left := n\<rparr>) \<longleftrightarrow> plugged tr cn"
  by (simp_all add: plugged_def)

lemma calls_plugged: "plugged tr cn \<Longrightarrow> plugged tr (execute evt cn)" "plugged tr cn \<Longrightarrow> plugged tr (terminate cn)"
  by (simp_all add: execute_def terminate_def process_plugged)

lemma stimulate_plugged:
  assumes "completion st" and "stimulate st cn = Some cn'" and "plugged tr cn"
  shows "plugged tr cn'"
  using assms
  by (cases st)
    (auto simp: handle_connect_def handle_read_def handle_write_def Let_def plugged_def process_event_def
      split: option.splits if_splits)

lemma create_plugged:
  assumes "connection_create opts cbs = Inr (tr, cn)" and "uri opts \<noteq> []"
  shows "plugged tr cn"
proof -
  have "accepted_by tr opts"
    using assms tcp.accepts[of opts] unix.accepts[of opts]
    by (auto simp: connection_create_def accepted_by_def split: if_splits)
  with assms(1) show ?thesis
    by (auto simp: connection_create_def create_with_def connect_def new_connection_def process_event_def plugged_def
        split: if_splits)
qed

section \<open>In the composition\<close>

definition all_plugged :: "system \<Rightarrow> bool" where
  "all_plugged s \<longleftrightarrow> (\<forall>c pid tr cn. conns s c = Some (pid, tr, cn) \<longrightarrow> plugged tr cn)"

lemma all_plugged_simps [simp]: "all_plugged (s\<lparr>svc := r\<rparr>) \<longleftrightarrow> all_plugged s"
  "all_plugged (s\<lparr>agenda := ts\<rparr>) \<longleftrightarrow> all_plugged s"
  by (simp_all add: all_plugged_def)

lemma all_plugged_replace:
  "all_plugged s \<Longrightarrow> plugged tr cn \<Longrightarrow> all_plugged (s\<lparr>conns := (conns s)(c := Some (pid, tr, cn))\<rparr>)"
  by (auto simp: all_plugged_def)

lemma make_plugged:
  assumes "all_plugged s" and "rd_inv (svc s)"
  shows "all_plugged (make_connection oc s)"
  using assms
proof (induction oc s rule: make_connection.induct)
  case (1 pid c s)
  show ?case
  proof (cases "pools (snd (svc s)) pid")
    case (Some p)
    have "uri (co p) \<noteq> []" using 1(2) Some by (auto simp: rd_inv_def pool_ok_def dest: world_invD)
    from create_plugged[OF _ this] 1(1) Some all_plugged_replace[OF 1(1)] show ?thesis
      by (auto split: sum.splits)
  qed (use 1 in simp)
qed simp_all

lemma make_connection_svc: "svc (make_connection oc s) = svc s"
  by (induction oc s rule: make_connection.induct) (auto split: option.splits sum.splits)

lemma issue_plugged: "all_plugged s \<Longrightarrow> rd_inv (svc s) \<Longrightarrow> all_plugged (issue out s)"
proof -
  assume "all_plugged s" "rd_inv (svc s)"
  then have "all_plugged (fold make_connection out s)"
    by (induction out arbitrary: s) (simp_all add: make_plugged make_connection_svc)
  then show ?thesis by (simp add: issue_def Let_def)
qed

lemma on_conn_plugged:
  "all_plugged s \<Longrightarrow> (\<And>tr cn. plugged tr cn \<Longrightarrow> plugged tr (g cn)) \<Longrightarrow> all_plugged (on_conn c g s)"
  by (auto simp: on_conn_def all_plugged_def split: option.splits)

lemma notify_plugged:
  assumes "all_plugged s" and "rd_inv (svc (notify_pool c f s))"
  shows "all_plugged (notify_pool c f s)"
  using assms
  by (auto simp: notify_pool_def intro!: issue_plugged split: option.splits prod.splits sum.splits)

lemma task_plugged: "all_plugged s \<Longrightarrow> rd_inv (svc (run_task t s)) \<Longrightarrow> all_plugged (run_task t s)"
  by (induction t s rule: run_task.induct) (auto intro: on_conn_plugged notify_plugged calls_plugged)

lemma sys_run_plugged: "sys_run bx env s l \<Longrightarrow> all_plugged s"
proof (induction rule: sys_run.induct)
  case start
  show ?case by (simp add: all_plugged_def initial_system_def)
next
  case (api s l op out r)
  from sys_invD(1)[OF api_inv[OF sys_run_inv[OF api(1)] api(2,3)]] api(4) show ?case by (simp add: issue_plugged)
next
  case (transfer s l c pid tr cn st cn')
  then show ?case by (auto intro: all_plugged_replace stimulate_plugged simp: all_plugged_def)
next
  case (work s l c pid tr cn lb cn')
  then have "plugged tr cn'" by (auto intro: step_plugged simp: all_plugged_def)
  with work(4) all_plugged_replace[of s] show ?case by (auto simp: all_plugged_def)
next
  case (task s l t rest)
  from sys_invD(1)[OF run_task_inv[OF sys_run_inv[OF task(1)] task(2)]] task(3) show ?case
    by (simp add: task_plugged)
qed simp_all

lemma plugged_fault:
  assumes "conn_fault tr env cn f" and "plugged tr cn" and "conn_inv pool_callbacks cn"
    and busy: "\<And>evt. fsm_state cn = Query \<Longrightarrow> Ev_execute evt \<notin> set (msg_queue cn @ deferred cn)"
  shows "from_outside env f"
  using assms(1)
proof cases
  case (queued e q)
  show ?thesis
  proof (cases "fsm_state cn = Unplugged")
    case True
    with assms(2) queued obtain opts where "e = Ev_options opts" "accepted_by tr opts" by (auto simp: plugged_def)
    with True queued(2) show ?thesis
      by (auto simp: dispatch_Inl_iff connect_transport_def accepted_by_def Let_def)
  next
    case False
    with queued(2) have "row (fsm_state cn) e = None" "\<not> defers (fsm_state cn) e" "fsm_state cn \<noteq> Terminated"
      and f: "f = No_transition (fsm_state cn) e" by (auto simp: dispatch_Inl_iff)
    moreover have "e \<noteq> Ev_options opts" for opts using False assms(2) queued(1) by (auto simp: plugged_def)
    moreover have "e \<noteq> Ev_execute evt" if "fsm_state cn = Query" for evt using busy[OF that] queued(1) by auto
    ultimately have "unheard (fsm_state cn) e" using False by (cases "fsm_state cn"; cases e) auto
    with f show ?thesis by (auto simp: from_outside_def)
  qed
next
  case (recalled xs e ys)
  have "deferrable e" using assms(3) recalled(1) by (auto simp: conn_inv_def)
  moreover have "e \<noteq> Ev_execute evt" if "fsm_state cn = Query" for evt using busy[OF that] recalled(1) by auto
  ultimately have False using recalled(2,3)
    by (cases "fsm_state cn") (auto simp: dispatch_Inl_iff deferrable_def)
  then show ?thesis ..
next
  case round
  then obtain t where t: "f = Uncaught t" "raw_parse env (incoming cn) = Inl t"
    by (auto simp: read_round_def read_step_def Let_def split: if_splits sum.splits prod.splits)
  with parse_outcome(1)[of env "incoming cn"] show ?thesis by (auto simp: from_outside_def)
qed

text \<open>Every fault in the composition, also the one at which its schedule stops.\<close>

lemma composition_faults:
  assumes run: "sys_run bx env s l" and c: "conns s c = Some (pid, tr, cn)" and f: "conn_fault tr env cn f"
  shows "from_outside env f"
proof (rule plugged_fault[OF f])
  show "plugged tr cn" using sys_run_plugged[OF run] c by (simp add: all_plugged_def)
  show "conn_inv pool_callbacks cn" using sys_invD(4)[OF sys_run_inv[OF run] c] by (simp add: conn_both_def)
  show "Ev_execute evt \<notin> set (msg_queue cn @ deferred cn)" if "fsm_state cn = Query" for evt
    using busy_permits[OF that permission_bounds(3)[OF run c]] by blast
qed

lemma sys_advance_fault:
  assumes "sys_advance env (s, l) = Some (Inl f)"
  obtains c pid tr cn where "conns s c = Some (pid, tr, cn)" "conn_fault tr env cn f"
proof -
  from assms obtain c where "first_work env s [0..<next_conn (snd (svc s))] = Some (c, Inl f)"
    by (auto simp: sys_advance_def split: list.splits option.splits sum.splits prod.splits)
  from first_work_Some[OF this] advance_fault that show thesis by blast
qed

end
