(* ===== verification/Spec2Isabelle.thy ===== *)
theory Spec2Isabelle
  imports Rd_Command_Laws Rd_Closing Rd_Service_Races Rd_Reentry Rd_Split_Reply Rd_Faults
begin

text \<open>
  A verification of \<^verbatim>\<open>redis_async\<close>, an asynchronous Redis client in C++ over Boost.Asio and Boost.MSM.

  \<^bold>\<open>The program.\<close> The user calls the static facade \<^verbatim>\<open>rd_service\<close> (\<^verbatim>\<open>src/redis_async.cpp\<close>), which keeps one
  \<^verbatim>\<open>redis_impl\<close> (\<^verbatim>\<open>details/redis_impl\<close>): a registry of connection pools by alias, filled from connection
  strings (\<^verbatim>\<open>src/common.cpp\<close>). A request is a command (\<^verbatim>\<open>commands\<close>, \<^verbatim>\<open>command_args\<close>), serialized
  (\<^verbatim>\<open>serializer.hpp\<close>) by the pool (\<^verbatim>\<open>connection_pool\<close>) and given to an idle connection or queued. A
  connection (\<^verbatim>\<open>connection_fsm.hpp\<close>, \<^verbatim>\<open>concrete_connection.hpp\<close>, \<^verbatim>\<open>base_connection\<close>) is a state machine over a
  transport (\<^verbatim>\<open>transport\<close>): it connects, authenticates, and then serves one request at a time; its read loop
  parses the bytes that arrive (\<^verbatim>\<open>parser.hpp\<close>, \<^verbatim>\<open>markup_helper.hpp\<close>) and turns each outcome into an event
  (\<^verbatim>\<open>handler_parse_result.hpp\<close>, \<^verbatim>\<open>events.hpp\<close>). It reports to its pool that it is idle, that it has ended or
  that it failed.

  \<^bold>\<open>The theories\<close>, in the order of their imports. \<open>Rd_Prelude\<close>: characters, decimal notation, searching and splitting
  of strings. \<open>Rd_Error\<close>: \<^verbatim>\<open>error.hpp/.cpp\<close>. \<open>Rd_Types\<close>: \<^verbatim>\<open>rd_types.hpp\<close>, \<^verbatim>\<open>parser_types.hpp\<close>. \<open>Rd_Parser\<close>: the
  parser; \<open>Rd_Parser_Laws\<close>: its bounds, the finality of its verdicts and the type of its outcomes. \<open>Rd_Wire\<close>: a
  reference encoder for replies and commands and the round trip, in the locale \<open>reply_reader\<close>. \<open>Rd_Commands\<close>:
  the command interface; \<open>Rd_Serializer\<close>: the in-place serializer and its equality with the reference
  encoder; \<open>Rd_Command_Laws\<close>: what every function of the interface makes. \<open>Rd_Options\<close>: connection strings.
  \<open>Rd_Transport\<close>: the two transports, with what Asio is asked for. \<open>Rd_Read_Loop\<close>: events and the read loop.
  \<open>Rd_Connection\<close>: the record \<^typ>\<open>connection\<close> is the members of \<^verbatim>\<open>connection_fsm_def\<close>; \<^const>\<open>row\<close>,
  \<^const>\<open>defers\<close>, \<^const>\<open>on_exit\<close>, \<^const>\<open>run_action\<close> and \<^const>\<open>on_entry\<close> are its tables and hooks, \<^const>\<open>dispatch\<close> is one
  event, the handlers of Asio and the public operations have the names of the source.
  \<open>Rd_Connection_Laws\<close>: the abstract transition system \<^const>\<open>conn_trans\<close>, runs \<^const>\<open>conn_run\<close> and their
  invariants; \<open>Rd_Session\<close>: an executable schedule; \<open>Rd_Rest\<close>: termination, and the read loop in rounds
  against the loop of the source. \<open>Rd_Pool\<close>: the record \<^typ>\<open>pool\<close> is \<^verbatim>\<open>connection_pool::impl\<close>;
  \<open>Rd_Pool_Laws\<close>: histories \<^const>\<open>pool_run\<close>; \<open>Rd_Pool_Threads\<close>: the operations of a pool as threads
  execute them, step by step (\<^const>\<open>point_step\<close>), and their interleavings \<^const>\<open>threads_run\<close>; \<open>Rd_Reentry\<close>: error callbacks that call back or throw.
  \<open>Rd_Service\<close>: \<^verbatim>\<open>redis_impl\<close> and the facade over a heap of pools; \<open>Rd_Service_Laws\<close>: runs \<^const>\<open>svc_run\<close>;
  \<open>Rd_Service_Threads\<close>: the operations of the facade as threads execute them (\<^const>\<open>svc_point_step\<close>), over a
  memory in which stopped implementations live on; \<open>Rd_Service_Runs\<close>: their interleavings \<^const>\<open>svc_threads\<close>,
  which implementation is running and who holds the lock (\<^const>\<open>impls_inv\<close>), what the maps name (\<^const>\<open>maps_inv\<close>),
  where each pool is and which are open; \<open>Rd_Service_Races\<close>: schedules, and those that break what holds of whole
  operations; \<open>Rd_Closing\<close>: what \<^verbatim>\<open>close\<close> and \<^verbatim>\<open>stop\<close> put an end to, when threads may have read the flag before.
  \<open>Rd_System\<close>: service, pools and connections composed, with the calls between them as tasks on an agenda;
  \<open>Rd_System_Laws\<close>: that what is named exists, and that the components keep to their own runs;
  \<open>Rd_Flow\<close>: quantities that move through the composition, in the locales \<open>inner_flow\<close>, for what happens
  inside, and \<open>flow\<close>, which adds the user; \<open>Rd_Accounts\<close>: their interpretations for requests, which are
  conserved, for permissions to use a connection, which are never copied, and for wakeups, which are not
  lost while the pool is open; \<open>Rd_System_Rest\<close>: the one for ranks, which decrease, so that the composition
  comes to rest; \<open>Rd_Request\<close>: one request on its way through all components and back; \<open>Rd_Queue_Drain\<close>: those that wait in a pool, one after the other;
  \<open>Rd_Split_Reply\<close>: a reply that arrives in two reads; \<open>Rd_Faults\<close>: the faults that the composition can meet;
  \<open>Rd_Scenario\<close>: an executable schedule of the composition and a sample run.

  \<^bold>\<open>Reading the model.\<close> A pair of iterators is the text between them; a \<^verbatim>\<open>size_t\<close> that the code subtracts from or
  decrements is a 64-bit word or is reduced modulo two to the power of 64, as are the counts read by the parser. A throw, an assertion
  and an uncaught exception are values of \<^typ>\<open>thrown\<close>, \<^typ>\<open>rd_error\<close> and \<^typ>\<open>fault\<close> on the left of a sum.
  A callback, a connection and a pool are numbers that stand for the object or pointer; an empty
  \<^verbatim>\<open>std::function\<close> and a null pointer are \<^const>\<open>None\<close>. What a component asks of the outside is a list of
  actions or calls, in the order of the source. A name of a definition is that of the source unless HOL
  has it already.

  \<^bold>\<open>Parameters and their hypotheses.\<close> \<^verbatim>\<open>boost::lexical_cast<int64_t>\<close> reads back decimal notation, and the
  allocator behind \<^verbatim>\<open>vector::reserve\<close> grants some number of elements (\<open>reply_reader\<close>); \<^verbatim>\<open>boost::split\<close> and
  \<^verbatim>\<open>boost::to_lower_copy\<close> (\<open>boost_strings\<close>); Asio delivers connects, reads and writes in any order. Of
  Boost.MSM the model uses the documented meaning of a row, of deferral, of a terminate state and of run to
  completion; the order in which stored events are taken up is left open, so what is shown of runs holds for every order.

  \<^bold>\<open>Fuel.\<close> Only schedules and one comparison take fuel. \<^const>\<open>settle\<close> with
  \<^const>\<open>effort\<close> of the connection ends at rest or at a fault
  (\<open>connection_comes_to_rest\<close>), and \<^const>\<open>rounds\<close> needs one more round than there
  are bytes. \<open>sys_settle\<close> is used for executable runs, and some fuel is enough for it unless it
  meets a fault (\<open>composition_comes_to_rest\<close>); a request and its reply need six steps each
  (\<open>request_answered\<close>), a reply that hands out the next request nine (\<open>waiting_requests_answered\<close>). The parser and the read loop are total by their measures;
  \<^const>\<open>clear_queue_calling\<close>, which may run forever, is a partial function, and both cases are
  shown.

  \<^bold>\<open>What is shown.\<close> Of the composition: every request is answered, dropped or pending and no
  callback is called twice; a request to an alias with an idle connection is written, answered and its
  connection listed again; requests that wait in a pool are served in their order as the replies arrive; the program comes to rest under every schedule; a connection that serves a request is
  left alone; at rest an idle connection is known to its pool, so that no wakeup is lost; calls between components reach
  whom they name, and only Asio, the server and the allocator provoke faults. Of the protocol: round trips, the finality and exactness of verdicts, the type of outcomes,
  the order of replies and which request each answers. Of the connection: the refinement of the edges by the
  table, invariants, the handshake, the single announcement of its end, termination. Of the pool: bounds, order
  and account of requests, closing; among threads,
  what every interleaving keeps, that a closed pool only winds down, the exact bound on its connections, and that no thread waits forever. Of the
  service: the registry, routing, registration and stopping; among threads,
  where every pool is in every interleaving, that a stopped implementation only winds down, and that no thread waits forever.
  For both, the operations of the two models agree when a thread is not disturbed (\<open>atomic_operations\<close>, \<open>facade_operations\<close>). Some theorems state defects of the code: an error
  inside an array desynchronises the stream, a reply in two parts is lost, and its second part faults the
  connection or answers the next request, a refused password faults the
  machine, a request in flight is dropped by a connection error, a dead idle connection swallows a request, the
  closed callback is called twice, a callback that retries hangs the pool, races leave a request behind an idle
  connection or in a closed pool and let a pool grow beyond its size, two registrations of one alias and those
  that meet \<^verbatim>\<open>stop\<close> leave pools open, a request that meets \<^verbatim>\<open>stop\<close> calls through a null pointer, a callback that throws leaves requests
  unanswered, a database number takes in the parameters of its string, and a command without arguments is
  malformed.

  \<^bold>\<open>Not modelled.\<close> Threads inside a connection: the strand, and that Boost.MSM is not thread safe. An
  operation of a component is one step; for the pool and for the facade the steps of threads are modelled too, with
  calls to the outside that return at once and memory that is sequentially consistent. A call on \<^verbatim>\<open>connections_\<close>, which
  has no lock, is one step there: what a torn access to the map or to \<^verbatim>\<open>state_\<close> does is undefined in the language.
  Lifetimes and shared pointers: nothing is destroyed, so \<^verbatim>\<open>~redis_impl\<close>, which calls
  \<^verbatim>\<open>stop\<close> on a service already stopped, has no effect here. \<^verbatim>\<open>run\<close>, which only enters the \<^verbatim>\<open>io_service\<close>. Logging,
  the numbers of connections and \<^verbatim>\<open>demangle\<close>, which serve the log. What MSM does after an exception in an
  action. In the composition the user calls the service between the steps of components; calls from
  inside an operation are modelled where they make a difference to it, in \<open>Rd_Reentry\<close>. The rest of the uncovered
  lines are declarations, forwarding constructors and comments.
\<close>

section \<open>The protocol\<close>

text \<open>
  C9. The parser reads back every value that a server can send: whatever follows it in the buffer, the
  verdict is that value, and the characters consumed are exactly those of the value. The hypotheses are
  the documented behaviour of \<^verbatim>\<open>lexical_cast\<close> on decimal notation and an allocator that grants \<open>limit\<close>
  elements.
\<close>

theorem reply_roundtrip:
  assumes cast: "\<And>i. lexical_cast env (dec_int (sint i)) = Some i"
    and alloc: "\<And>n. n \<le> limit \<Longrightarrow> reserve_throws env n = None" "limit < 2 ^ 63"
    and "wire_ok limit r"
  shows "raw_parse env (resp r @ rest) = Inr (Positive r (length (resp r)))"
  using assms by (intro reply_reader.roundtrip[of env limit] reply_reader.intro)

theorem reply_roundtrip_witness:
  "raw_parse reader_env (resp (Array_t [Int_t (- 7), String_t ''a'', Nil_t, Array_t []]) @ ''+OK'') =
     Inr (Positive (Array_t [Int_t (- 7), String_t ''a'', Nil_t, Array_t []])
       (length (resp (Array_t [Int_t (- 7), String_t ''a'', Nil_t, Array_t []]))))"
  by (rule reply_roundtrip[OF ref.cast_dec ref.reserve_ok ref.limit_bound]) (simp_all add: max_elements_def)

text \<open>
  C10. Serializing a command with at least one argument and parsing the bytes gives back the arguments, as
  an array of strings, with no byte left over.
\<close>

theorem command_roundtrip:
  assumes cast: "\<And>i. lexical_cast env (dec_int (sint i)) = Some i"
    and alloc: "\<And>n. n \<le> limit \<Longrightarrow> reserve_throws env n = None" "limit < 2 ^ 63"
    and args: "arguments cmd \<noteq> []" "length (arguments cmd) \<le> limit"
      "list_all (\<lambda>a. length a < 2 ^ 63) (arguments cmd)"
  shows "\<exists>b. serialize [] cmd = Some b \<and>
    raw_parse env b = Inr (Positive (Array_t (map String_t (arguments cmd))) (length b))"
  using reply_reader.command_reply[OF reply_reader.intro[OF cast alloc] args(2,3)]
    serialize_exact[OF args(1), of "[]"] by simp

theorem command_roundtrip_witness:
  "\<exists>b. serialize [] \<lparr>arguments = [''SET'', ''k'', '''']\<rparr> = Some b \<and>
     raw_parse reader_env b =
       Inr (Positive (Array_t [String_t ''SET'', String_t ''k'', String_t '''']) (length b))"
  using command_roundtrip[OF ref.cast_dec ref.reserve_ok ref.limit_bound,
      of "\<lparr>arguments = [''SET'', ''k'', '''']\<rparr>"]
  by (simp add: max_elements_def)

text \<open>
  C38. The in-place serializer never writes outside the buffer that it has resized by the computed size and
  leaves what the buffer held before untouched. A command with arguments fills the added part exactly; one
  without ends in the terminating NUL of the formatted header instead of the line feed, and a reader of
  these bytes keeps waiting for the end of the line.
\<close>

theorem serialize_fills_buffer:
  "\<exists>b. serialize old cmd = Some (old @ b) \<and> length b = command_size cmd \<and>
    (if arguments cmd \<noteq> [] then b = wire_command (arguments cmd)
     else b = ''*0'' @ [CR, NUL] \<and>
       raw_parse env b = Inr (Protocol_error (make_error_code not_enough_data)))"
proof (cases "arguments cmd = []")
  case True
  then have d: "cmd = default_command" by (simp add: default_command_def)
  have "search crlf [CHR ''0'', CR, NUL] = None" by (simp add: rd_chars)
  then have "raw_parse env (''*0'' @ [CR, NUL]) = Inr (Protocol_error (make_error_code not_enough_data))"
    by (simp add: raw_parse.simps construct_primary_parser_def array_parser.simps int_parser_def
        string_parser_def markup_protocol_error_def)
  moreover have "command_size default_command = 4" by code_simp
  ultimately show ?thesis using serialize_empty[of old] by (simp add: d default_command_def)
next
  case False
  with serialize_exact[OF False, of old] command_size_wire[of cmd] show ?thesis by simp
qed

text \<open>
  C39. Every function of the command interface, each overload by itself, either refuses its call or makes
  the command that consists of its Redis name and its operands in order. It refuses exactly when the call leaves
  a list operand empty or names no update type, with a \<^verbatim>\<open>client_error\<close> that says which; a time to live goes with
  \<^verbatim>\<open>PX\<close> when it is positive, and an update type as its word.
\<close>

theorem api_commands:
  "build call =
     (case call_error call of
        Some m \<Rightarrow> Inl (client_error m)
      | None \<Rightarrow> Inr \<lparr>arguments = call_name call # call_operands call\<rparr>) \<and>
   (call_error call = None \<longleftrightarrow> call_list call \<noteq> Some [] \<and> (\<nexists>v. call_update call = UT_other v))"
  using build_spec[of call] by (auto simp: call_error_def split: UpdateType.split)

text \<open>
  From the call to the wire: what a server's parser reads from the serialized command of an accepted
  call is the array of the command's name and operands.
\<close>

theorem api_call_on_the_wire:
  assumes cast: "\<And>i. lexical_cast env (dec_int (sint i)) = Some i"
    and alloc: "\<And>n. n \<le> limit \<Longrightarrow> reserve_throws env n = None" "limit < 2 ^ 63"
    and call: "build call = Inr cmd" "length (call_operands call) < limit"
      "list_all (\<lambda>a. length a < 2 ^ 63) (call_operands call)"
  shows "\<exists>b. serialize_wrapper [] (Single cmd) = Some b \<and>
    raw_parse env b = Inr (Positive (Array_t (map String_t (call_name call # call_operands call))) (length b))"
proof -
  from build_Inr[OF call(1)] have a: "arguments cmd = call_name call # call_operands call" .
  have "length (call_name call) < 2 ^ 63" by (cases call) simp_all
  with call have "length (arguments cmd) \<le> limit" "list_all (\<lambda>a. length a < 2 ^ 63) (arguments cmd)"
    by (simp_all add: a)
  from reply_reader.command_reply[OF reply_reader.intro[OF cast alloc] this] show ?thesis
    using serialize_exact[of cmd "[]"] a by simp
qed

theorem api_call_on_the_wire_witness:
  "\<exists>cmd b. build (Set ''k'' ''v'' UT_not_exist 1500) = Inr cmd \<and>
     serialize_wrapper [] (Single cmd) = Some b \<and>
     raw_parse reader_env b = Inr (Positive (Array_t (map String_t
       [''SET'', ''k'', ''v'', ''PX'', ''1500'', ''NX''])) (length b))"
proof -
  let ?call = "Set ''k'' ''v'' UT_not_exist 1500"
  let ?cmd = "\<lparr>arguments = [''SET'', ''k'', ''v'', ''PX'', ''1500'', ''NX'']\<rparr>"
  have d: "dec_int 1500 = ''1500''" by code_simp
  have b: "build ?call = Inr ?cmd"
    using build_spec[of ?call] by (simp add: call_error_def ttl_words_def d)
  show ?thesis
    using b api_call_on_the_wire[OF ref.cast_dec ref.reserve_ok ref.limit_bound b]
    by (simp add: d max_elements_def ttl_words_def)
qed

text \<open>
  C23. A verdict of the parser other than \<^verbatim>\<open>not_enough_data\<close> is final: no bytes that arrive later change it.
\<close>

theorem verdict_is_final:
  assumes "raw_parse env s \<noteq> Inr (Protocol_error (make_error_code not_enough_data))"
  shows "raw_parse env (s @ later) = raw_parse env s"
  using assms by (intro parse_append(1)) (simp add: ned_def)

theorem verdict_is_final_witness:
  "raw_parse reader_env ((''-ERR'' @ crlf) @ ''$1'') = raw_parse reader_env (''-ERR'' @ crlf)"
proof (rule verdict_is_final)
  show "raw_parse reader_env (''-ERR'' @ crlf) \<noteq> Inr (Protocol_error (make_error_code not_enough_data))"
    using error_line[of "''ERR''" reader_env "[]"] by (simp add: rd_chars)
qed

text \<open>
  C24. A value is parsed from exactly the characters it consumes: there is at least one, they lie in the
  buffer, alone they give the same verdict, and with any of them missing at the end the parser asks for more.
\<close>

theorem verdict_is_exact:
  assumes "raw_parse env s = Inr (Positive r n)"
  shows "0 < n \<and> n \<le> length s \<and> raw_parse env (take n s) = Inr (Positive r n) \<and>
    (\<forall>j < n. raw_parse env (take j s) = Inr (Protocol_error (make_error_code not_enough_data)))"
  using parse_bounds(1)[OF assms] parse_take(1)[OF assms order_refl] parse_prefix_ned[OF assms]
  by (auto simp: ned_def)

theorem verdict_is_exact_witness:
  "0 < (5 :: nat) \<and> 5 \<le> length (''+OK'' @ crlf @ ''+'') \<and>
   raw_parse reader_env (take 5 (''+OK'' @ crlf @ ''+'')) = Inr (Positive (String_t ''OK'') 5) \<and>
   raw_parse reader_env (take 4 (''+OK'' @ crlf @ ''+'')) = Inr (Protocol_error (make_error_code not_enough_data))"
proof -
  have "raw_parse reader_env (''+OK'' @ crlf @ ''+'') = Inr (Positive (String_t ''OK'') 5)"
    using simple_line[of "''OK''" reader_env "''+''"] by (simp add: rd_chars)
  note exact = verdict_is_exact[OF this]
  have "(4 :: nat) < 5" by simp
  with exact have "raw_parse reader_env (take 4 (''+OK'' @ crlf @ ''+'')) =
    Inr (Protocol_error (make_error_code not_enough_data))" by blast
  with exact show ?thesis by blast
qed

text \<open>
  C32. An error among the elements of an array ends the array: the verdict is that error with the length of
  the one element, so the bytes that the caller drops are the first ones of the array and the next parse
  starts inside it.
\<close>

theorem error_element_desynchronises:
  fixes rest
  assumes cast: "\<And>i. lexical_cast env (dec_int (sint i)) = Some i"
    and alloc: "\<And>n. n \<le> limit \<Longrightarrow> reserve_throws env n = None" "limit < 2 ^ 63"
    and "CR \<notin> set e" "length xs < n" "n \<le> limit" "\<And>r. r \<in> set xs \<Longrightarrow> wire_ok limit r"
  defines "s \<equiv> CHR ''*'' # dec_nat n @ crlf @ concat (map resp xs) @ CHR ''-'' # e @ crlf @ rest"
  shows "read_step env (length s) s =
    Inr (Ev_query_error e, sub_size (length s) (length e + 3), drop (length e + 3) s)"
proof -
  have "raw_parse env s = Inr (Error_reply e (length e + 3))"
    unfolding s_def using assms by (intro reply_reader.error_element[of env limit] reply_reader.intro)
  then show ?thesis by (simp add: read_step_def Let_def)
qed

theorem error_element_desynchronises_witness:
  "let s = ''*2'' @ crlf @ '':1'' @ crlf @ ''-E'' @ crlf @ ''+OK'' @ crlf in
     read_step reader_env (length s) s =
       Inr (Ev_query_error ''E'', sub_size (length s) 4, '':1'' @ crlf @ ''-E'' @ crlf @ ''+OK'' @ crlf)"
proof -
  have d: "dec_nat 2 = ''2''" "dec_int 1 = ''1''" by code_simp+
  show ?thesis
    using error_element_desynchronises[OF ref.cast_dec ref.reserve_ok ref.limit_bound,
        of "''E''" "[Int_t 1]" 2 "''+OK'' @ crlf"]
    by (simp add: d max_elements_def rd_chars Let_def)
qed

text \<open>
  C25. The read loop turns whole replies into one \<^verbatim>\<open>recv\<close> event each, in the order they were sent, and
  leaves the buffer empty, whatever the state machine does with the events.
\<close>

theorem replies_in_order:
  assumes cast: "\<And>i. lexical_cast env (dec_int (sint i)) = Some i"
    and alloc: "\<And>n. n \<le> limit \<Longrightarrow> reserve_throws env n = None" "limit < 2 ^ 63"
    and "\<And>r. r \<in> set rs \<Longrightarrow> wire_ok limit r" "length (concat (map resp rs)) < 2 ^ 64"
  shows "read_message env pe (length (concat (map resp rs))) (concat (map resp rs)) fsm =
    Inr (foldl pe fsm (map Ev_recv rs), [])"
  using assms by (intro reply_reader.stream[of env limit] reply_reader.intro)

theorem replies_in_order_witness:
  "read_message reader_env (\<lambda>es e. es @ [e]) (length (concat (map resp [Nil_t, String_t ''v''])))
     (concat (map resp [Nil_t, String_t ''v''])) [] =
   Inr (foldl (\<lambda>es e. es @ [e]) [] (map Ev_recv [Nil_t, String_t ''v'']), [])"
proof -
  have d: "dec_nat (Suc 0) = ''1''" by code_simp
  show ?thesis
    by (rule replies_in_order[OF ref.cast_dec ref.reserve_ok ref.limit_bound]) (auto simp: d)
qed

text \<open>
  C31. Whatever bytes arrive, the outcome of the parser has its type: a value is made of strings, nil,
  arrays and integers that \<^verbatim>\<open>lexical_cast\<close> has read, an error code is one of the parser's, and an
  exception is one that the allocator raised for the reservation of an array, of less than two to the power
  of 63 elements. \<^verbatim>\<open>bad_variant_access\<close> and \<^verbatim>\<open>bad_lexical_cast\<close> never leave the parser.
\<close>

theorem parser_outcomes:
  "outcome_ok env (raw_parse env s)"
  by (rule parse_outcome)

text \<open>
  The read loop that the model of a connection makes in rounds, with other events dispatched in
  between, is the loop of the source: both raise the events of \<^const>\<open>read_events\<close>, in order, whatever the
  state machine does with them, throw what it throws, and leave the buffer empty.
\<close>

theorem rounds_are_read_message:
  assumes "reading c" and "read_left c = length (incoming c)" and "length (incoming c) < 2 ^ 64"
    and "length (incoming c) < fuel"
  shows "rounds fuel env c =
      map_sum Uncaught (after_rounds c) (read_events env (length (incoming c)) (incoming c)) \<and>
    read_message env pe (length (incoming c)) (incoming c) fsm =
      map_sum id (map_prod (foldl pe fsm) id) (read_events env (length (incoming c)) (incoming c)) \<and>
    (\<forall>evs rest. read_events env (length (incoming c)) (incoming c) = Inr (evs, rest) \<longrightarrow> rest = [])"
proof (intro conjI allI impI)
  show "rounds fuel env c =
      map_sum Uncaught (after_rounds c) (read_events env (length (incoming c)) (incoming c))"
    using assms by (rule rounds_read_events)
  show "read_message env pe (length (incoming c)) (incoming c) fsm =
      map_sum id (map_prod (foldl pe fsm) id) (read_events env (length (incoming c)) (incoming c))"
    using read_message_events[of env pe _ _ fsm "[]"] by (simp add: read_events_def)
  show "rest = []" if "read_events env (length (incoming c)) (incoming c) = Inr (evs, rest)" for evs rest
    using read_message_drains[OF that[unfolded read_events_def] assms(3)] .
qed

theorem rounds_are_read_message_witness:
  "let c = handle_read None (''+OK'' @ crlf @ ''-no'' @ crlf) (new_connection no_callbacks)
   in rounds 20 reader_env c =
     Inr (after_rounds c ([Ev_recv (String_t ''OK''), Ev_query_error ''no''], []))"
proof -
  let ?s = "''+OK'' @ crlf @ ''-no'' @ crlf"
  define c where "c = handle_read None ?s (new_connection no_callbacks)"
  have e: "read_events reader_env 10 ?s = Inr ([Ev_recv (String_t ''OK''), Ev_query_error ''no''], [])"
    by code_simp
  have l: "length ?s = 10" by (simp add: rd_chars)
  then have c: "reading c" "read_left c = length (incoming c)" "length (incoming c) < 2 ^ 64"
    "length (incoming c) < 20" "incoming c = ?s"
    by (simp_all add: c_def handle_read_def new_connection_def)
  from rounds_are_read_message[OF c(1-4), of reader_env "\<lambda>n _. n + 1" "0 :: nat"]
  have "rounds 20 reader_env c = map_sum Uncaught (after_rounds c) (read_events reader_env 10 ?s)"
    by (simp only: c(5) l)
  then have "rounds 20 reader_env c = Inr (after_rounds c ([Ev_recv (String_t ''OK''), Ev_query_error ''no''], []))"
    by (simp only: e map_sum.simps)
  then show ?thesis by (simp add: Let_def c_def)
qed

section \<open>The connection\<close>

text \<open>
  C13. The table-driven dispatcher implements the abstract transition system of a connection: an event is
  processed without a fault, with some actions and a new state, exactly when the transition system has that
  edge. It faults in two ways only: the state has neither a row nor a deferral for the event, or the
  connection options are refused when the connection is plugged in.
\<close>

theorem dispatch_refines_edges:
  "(dispatch tr c e = Inr (c', out) \<longleftrightarrow> conn_trans tr c e out c') \<and>
   (dispatch tr c e = Inl f \<longleftrightarrow>
     fsm_state c \<noteq> Terminated \<and>
     ((row (fsm_state c) e = None \<and> \<not> defers (fsm_state c) e \<and> f = No_transition (fsm_state c) e) \<or>
      (\<exists>opts. fsm_state c = Unplugged \<and> e = Ev_options opts \<and> connect_transport tr opts c = Inl f)))"
  using dispatch_iff_trans dispatch_Inl_iff by blast

text \<open>
  C12. In every reachable state of a connection, whatever the order in which stored events are taken up:
  outside \<^verbatim>\<open>Query\<close> there is no current request; the callbacks are those given at creation, and
  none once terminated; only requests and \<^verbatim>\<open>terminate\<close> are ever deferred; and while the read loop runs its counter is
  the length of the buffer, which is empty otherwise.
\<close>

theorem connection_invariant:
  assumes "conn_run tr env cbs ls c"
  shows "(fsm_state c \<noteq> Query \<longrightarrow> cur_query c = empty_execute) \<and>
    callbacks c = (if fsm_state c = Terminated then no_callbacks else cbs) \<and>
    list_all (\<lambda>e. e = Ev_terminate \<or> (\<exists>evt. e = Ev_execute evt)) (deferred c) \<and>
    (if reading c then read_left c = length (incoming c) else incoming c = [])"
  using run_inv[OF assms] by (auto simp: conn_inv_def deferrable_def list_all_iff split: if_splits)

theorem connection_invariant_witness:
  "\<exists>ls c. sample_session = Some (ls, c) \<and> fsm_state c = Terminated \<and> callbacks c = no_callbacks \<and>
     cur_query c = empty_execute"
proof -
  obtain ls c where s: "sample_session = Some (ls, c)" "fsm_state c = Terminated"
    and r: "conn_run tcp_transport reader_env sample_callbacks ls c" by (rule sample_run) blast
  from connection_invariant[OF r] s show ?thesis by auto
qed

text \<open>
  C8. Every answer goes to the right request: in every run of a connection the answers given to requests, in
  order, are the replies that arrived while one was awaited, in order, each with the error callback of the
  request at the same place in the order in which requests were taken up; at most the last request has no
  answer yet. The requests carry both callbacks.
\<close>

theorem answers_match_replies:
  assumes "conn_run tr env cbs ls c" and "list_all both_callbacks ls"
  shows "answers ls = zip (all_started ls) (all_replies ls) \<and>
    length (all_replies ls) \<le> length (all_started ls) \<and>
    length (all_started ls) \<le> length (all_replies ls) + 1"
  using run_matched[OF assms] by (simp add: matched_def)

theorem answers_match_replies_witness:
  "\<exists>ls c. sample_session = Some (ls, c) \<and>
     zip (all_started ls) (all_replies ls) = [(8, Inr (Int_t 5)), (8, Inl ''ERR'')]"
proof -
  obtain ls c where s: "sample_session = Some (ls, c)" "list_all both_callbacks ls"
    and r: "conn_run tcp_transport reader_env sample_callbacks ls c"
    and a: "actions ls = [Out_connect (Async_resolve ''localhost'' ''7000''), Out_read,
            Out_write (wire_command [''AUTH'', ''pw'']), Out_idle 0, Out_read,
            Out_write (wire_command [''INCR'', ''k'']), Out_post 7 (Some 8) (Int_t 5), Out_idle 0, Out_read,
            Out_write (wire_command [''INCR'', ''k'']), Out_query_error 8 ''ERR'', Out_idle 0,
            Out_close, Out_terminated 1, Out_read]" by (rule sample_run) blast
  have "answers ls = [(8, Inr (Int_t 5)), (8, Inl ''ERR'')]" by (simp add: answers_def a)
  with answers_match_replies[OF r s(2)] s(1) show ?thesis by auto
qed

text \<open>
  C28. The end of a connection is announced exactly once: the terminated callback was called if and only if
  the connection is in its terminate state, and then one time.
\<close>

theorem terminated_announced_once:
  assumes "conn_run tr env cbs ls c"
  shows "filter is_terminated_note (actions ls) =
    (if fsm_state c = Terminated
     then (case terminated_cb cbs of None \<Rightarrow> [] | Some cb \<Rightarrow> [Out_terminated cb]) else [])"
  using assms by (rule run_term)

theorem terminated_announced_once_witness:
  "\<exists>ls c. sample_session = Some (ls, c) \<and> filter is_terminated_note (actions ls) = [Out_terminated 1]"
proof -
  obtain ls c where s: "sample_session = Some (ls, c)" "fsm_state c = Terminated"
    and r: "conn_run tcp_transport reader_env sample_callbacks ls c" by (rule sample_run) blast
  from terminated_announced_once[OF r] s show ?thesis by (auto simp: sample_callbacks_def)
qed

text \<open>
  When the transport is connected, the connection starts to read and, with a password, writes exactly
  the \<^verbatim>\<open>AUTH\<close> command for it if the socket is open; without one it completes the handshake by itself.
\<close>

theorem startup:
  assumes "fsm_state c = Connecting"
  shows "dispatch tr c Ev_complete =
    (if password (conn_opts c) = []
     then Inr (c\<lparr>msg_queue := msg_queue c @ [Ev_complete], fsm_state := Authn\<rparr>, [Out_read])
     else Inr (c\<lparr>fsm_state := Authn\<rparr>,
       Out_read # (if connected tr (sock_open c)
                   then [Out_write (wire_command [''AUTH'', password (conn_opts c)])] else [])))"
  using trans_dispatch[OF conn_trans.open_plain[OF assms]] trans_dispatch[OF conn_trans.open_auth[OF assms]]
  by (simp add: send_def)

theorem startup_witness:
  "let c = (new_connection no_callbacks)\<lparr>fsm_state := Connecting, conn_opts := sample_options, sock_open := True\<rparr>
   in dispatch tcp_transport c Ev_complete =
     Inr (c\<lparr>fsm_state := Authn\<rparr>, [Out_read, Out_write (wire_command [''AUTH'', ''pw''])])"
  using startup[of "(new_connection no_callbacks)\<lparr>fsm_state := Connecting, conn_opts := sample_options,
      sock_open := True\<rparr>" tcp_transport]
  by (simp add: Let_def sample_options_def tcp.connected_open)

text \<open>
  C34. A server that refuses the password breaks the state machine: the error line becomes a query error, for
  which the authentication state has no transition.
\<close>

theorem refused_password_is_a_fault:
  assumes "fsm_state c = Authn" "msg_queue c = []" "CR \<notin> set e"
    and "incoming c = CHR ''-'' # e @ crlf" "read_left c = length (incoming c)"
  shows "\<exists>c'. read_round env c = Inr (c', []) \<and> msg_queue c' = [Ev_query_error e] \<and>
    dispatch tr (c'\<lparr>msg_queue := []\<rparr>) (Ev_query_error e) = Inl (No_transition Authn (Ev_query_error e))"
proof -
  have "raw_parse env (incoming c) = Inr (Error_reply e (length e + 3))"
    using error_line[OF assms(3), of env "[]"] assms(4) by simp
  with assms show ?thesis
    by (auto simp: read_round_def read_step_def Let_def process_event_def dispatch_Inl_iff)
qed

theorem refused_password_is_a_fault_witness:
  "let c = (new_connection no_callbacks)
     \<lparr>fsm_state := Authn, incoming := ''-WRONGPASS'' @ crlf, reading := True, read_left := 12\<rparr>
   in \<exists>c'. read_round reader_env c = Inr (c', []) \<and> msg_queue c' = [Ev_query_error ''WRONGPASS''] \<and>
     dispatch tcp_transport (c'\<lparr>msg_queue := []\<rparr>) (Ev_query_error ''WRONGPASS'') =
       Inl (No_transition Authn (Ev_query_error ''WRONGPASS''))"
  unfolding Let_def
  by (rule refused_password_is_a_fault) (simp_all add: new_connection_def rd_chars)

text \<open>
  C35. A connection error while a reply is awaited ends the connection and forgets the request: neither of
  the request's callbacks is called.
\<close>

theorem request_in_flight_is_dropped:
  assumes "fsm_state c = Query"
  shows "\<exists>c' out. dispatch tr c (Ev_connection_error m) = Inr (c', out) \<and> fsm_state c' = Terminated \<and>
    cur_query c' = empty_execute \<and> filter is_answer out = []"
  using trans_dispatch[OF conn_trans.fail_query[OF assms]] by (auto simp: finish_def)

theorem request_in_flight_is_dropped_witness:
  "\<exists>c' out. dispatch tcp_transport
      ((new_connection sample_callbacks)\<lparr>fsm_state := Query, cur_query := sample_request\<rparr>)
      (Ev_connection_error ''reset by peer'') = Inr (c', out) \<and>
    fsm_state c' = Terminated \<and> cur_query c' = empty_execute \<and> filter is_answer out = []"
  by (rule request_in_flight_is_dropped) simp

text \<open>
  A connection told to terminate while it waits for a reply first delivers the reply, and then closes
  the socket and announces its end.
\<close>

theorem terminate_waits_for_reply:
  assumes "fsm_state c = Query" "msg_queue c = [Ev_terminate, Ev_recv r]" "deferred c = []"
  shows "\<exists>c1 c2 c3. conn_step tr env c (L_event Query Ev_terminate []) c1 \<and>
    conn_step tr env c1 (L_event Query (Ev_recv r) (notify_result (cur_query c) r @ notify_idle c)) c2 \<and>
    conn_step tr env c2 (L_event Idle Ev_terminate
      (Out_close # (case terminated_cb (callbacks c) of None \<Rightarrow> [] | Some cb \<Rightarrow> [Out_terminated cb]))) c3 \<and>
    fsm_state c3 = Terminated"
proof -
  let ?c1 = "c\<lparr>msg_queue := [Ev_recv r], deferred := [Ev_terminate]\<rparr>"
  let ?c2 = "c\<lparr>msg_queue := [], deferred := [Ev_terminate], cur_query := empty_execute, fsm_state := Idle\<rparr>"
  let ?c3 = "finish (?c2\<lparr>deferred := [], sock_open := close_socket tr (sock_open c)\<rparr>)"
  have 1: "dispatch tr (c\<lparr>msg_queue := [Ev_recv r]\<rparr>) Ev_terminate = Inr (?c1, [])"
    using assms by (intro trans_dispatch) (auto simp: conn_trans.simps)
  have 2: "dispatch tr (?c1\<lparr>msg_queue := []\<rparr>) (Ev_recv r) =
      Inr (?c2, notify_result (cur_query c) r @ notify_idle c)"
    using assms by (intro trans_dispatch) (auto simp: conn_trans.simps notify_idle_def)
  have 3: "dispatch tr (?c2\<lparr>deferred := [] @ []\<rparr>) Ev_terminate = Inr (?c3, Out_close # term_notes c)"
    by (intro trans_dispatch) (auto simp: conn_trans.simps term_notes_def notify_terminated_def)
  from conn_step.queued[OF assms(2) 1, of env] have
    s1: "conn_step tr env c (L_event Query Ev_terminate []) ?c1" by (simp add: assms(1))
  from conn_step.queued[of ?c1 "Ev_recv r" "[]", OF _ 2, of env] have
    s2: "conn_step tr env ?c1 (L_event Query (Ev_recv r) (notify_result (cur_query c) r @ notify_idle c)) ?c2"
    by (simp add: assms(1))
  from conn_step.recalled[of ?c2 "[]" Ev_terminate "[]", OF _ _ 3, of env] have
    s3: "conn_step tr env ?c2 (L_event Idle Ev_terminate (Out_close # term_notes c)) ?c3" by simp
  have "fsm_state ?c3 = Terminated" by (simp add: finish_def)
  with s1 s2 s3 show ?thesis by (auto simp: term_notes_def notify_terminated_def)
qed

theorem terminate_waits_for_reply_witness:
  "let c = (new_connection sample_callbacks)
     \<lparr>fsm_state := Query, cur_query := sample_request, msg_queue := [Ev_terminate, Ev_recv Nil_t]\<rparr>
   in \<exists>c1 c2 c3. conn_step tcp_transport reader_env c (L_event Query Ev_terminate []) c1 \<and>
    conn_step tcp_transport reader_env c1
      (L_event Query (Ev_recv Nil_t) (notify_result (cur_query c) Nil_t @ notify_idle c)) c2 \<and>
    conn_step tcp_transport reader_env c2 (L_event Idle Ev_terminate
      (Out_close # (case terminated_cb (callbacks c) of None \<Rightarrow> [] | Some cb \<Rightarrow> [Out_terminated cb]))) c3 \<and>
    fsm_state c3 = Terminated"
  unfolding Let_def by (rule terminate_waits_for_reply) (simp_all add: new_connection_def)

text \<open>
  What the user's callbacks throw. A posted result reaches the result callback once; what the callback
  throws goes to the error callback once and not further, turned into an \<^verbatim>\<open>rd_error\<close>; without an error
  callback the handler itself throws \<^verbatim>\<open>bad_function_call\<close>. Of the notifications only that of a connection
  error lets an exception of its callback through.
\<close>

theorem posted_result:
  "run_posted user cb err res =
     (case user cb res of
        None \<Rightarrow> ([Call_result cb res], None)
      | Some t \<Rightarrow>
          (Call_result cb res # (case err of None \<Rightarrow> [] | Some ecb \<Rightarrow> [Call_error ecb (error_for t)]),
           if err = None then Some bad_function_call else None)) \<and>
   (leaves_notification a (Some t) \<noteq> None \<longleftrightarrow> (\<exists>cb m. a = Out_conn_error cb m))"
  by (cases a) (simp_all add: run_posted_def split: option.split)

text \<open>
  C22. Between two stimuli of the outside a connection makes at most \<^const>\<open>effort\<close> steps, in whatever order
  stored events are taken up, and one schedule with that much fuel ends: at rest, with nothing stored that
  the state takes up and no read to be finished, or at a fault.
\<close>

theorem connection_comes_to_rest:
  assumes "conn_run tr env cbs ls c"
  shows "(\<forall>n c'. (moves tr env ^^ n) c c' \<longrightarrow> n \<le> effort c) \<and> comes_to_rest (effort c) tr env ls c"
  using steps_effort[OF _ run_inv[OF assms]] settle_rest[OF run_inv[OF assms] order_refl]
  by (meson add_leD1)

theorem connection_comes_to_rest_witness:
  "let c = execute sample_request (create_with sample_options sample_callbacks)
   in comes_to_rest 7 tcp_transport reader_env [] c \<and> \<not> (\<exists>c'. (moves tcp_transport reader_env ^^ 8) c c')"
proof -
  let ?c = "execute sample_request (create_with sample_options sample_callbacks)"
  have "conn_run tcp_transport reader_env sample_callbacks [] ?c"
    unfolding create_with_def
    by (intro conn_run.env[OF _ env_step.api_execute] conn_run.env[OF conn_run.start env_step.api_connect])
  moreover have "effort ?c = 7" by code_simp
  ultimately show ?thesis
    using connection_comes_to_rest[of tcp_transport reader_env sample_callbacks "[]" ?c] by force
qed

section \<open>The pool\<close>

text \<open>
  In every history of a pool its connections never exceed its size, which is not zero, and no request
  waits in the queue while a connection is idle.
\<close>

theorem pool_bounded:
  assumes "pool_run p h"
  shows "0 < pool_size p \<and> length (connections p) \<le> pool_size p \<and>
    (ready_connections p = [] \<or> queue p = [])"
  using run_pool_inv[OF assms] by (simp add: pool_inv_def)

theorem pool_bounded_witness:
  "\<exists>p h. sample_pool = Some (p, h) \<and> 0 < pool_size p \<and> length (connections p) \<le> pool_size p"
proof -
  obtain p h where "sample_pool = Some (p, h)" "pool_run p h" by (rule sample_pool_run)
  with pool_bounded[of p h] show ?thesis by blast
qed

text \<open>
  C11. No request is lost, duplicated or reordered by a pool: the accepted requests are an interleaving of
  those handed to a connection and those failed with the pool, each in the order of acceptance, followed
  by those still queued; with no failure the pool is first in, first out.
\<close>

theorem pool_accounts_for_requests:
  assumes "pool_run p h"
  shows "(\<exists>xs \<in> shuffles (handed h) (failed h). accepted h = xs @ queue p) \<and>
    mset (accepted h) = mset (handed h) + mset (failed h) + mset (queue p) \<and>
    (failed h \<noteq> [] \<or> accepted h = handed h @ queue p)"
  using run_accounted[OF assms] accounted_mset[of p h] accounted_fifo[of p h]
  by (auto simp: accounted_def)

theorem pool_accounts_for_requests_witness:
  "\<exists>p h. sample_pool = Some (p, h) \<and> length (accepted h) = 4 \<and>
     mset (accepted h) = mset (handed h) + mset (failed h) + mset (queue p)"
proof -
  obtain p h where s: "sample_pool = Some (p, h)" and r: "pool_run p h" by (rule sample_pool_run)
  have "length (accepted h) = 4" using sample_pool_outcome unfolding s by simp
  with pool_accounts_for_requests[OF r] s show ?thesis by blast
qed

text \<open>
  A closed pool stays closed, accepts no request, makes no connection, keeps its idle connections, and
  its queue only loses requests from the front.
\<close>

theorem closed_pool:
  assumes "pool_step op p = Inr (p', out)" and "closed p"
  shows "closed p' \<and> op_accepts op p = [] \<and> filter creates out = [] \<and>
    (\<exists>gone. queue p = gone @ queue p') \<and> ready_connections p' = ready_connections p \<and>
    length (connections p') \<le> length (connections p)"
  using assms by (rule closed_step)

theorem closed_pool_witness:
  "\<exists>p' out. pool_step (Op_ready 0) (sample_main\<lparr>closed := True, queue := [get_request ''a'' 1]\<rparr>) = Inr (p', out) \<and>
     closed p' \<and> out = [P_execute 0 (get_request ''a'' 1)] \<and> filter creates out = [] \<and> queue p' = []"
proof -
  let ?p = "sample_main\<lparr>closed := True, queue := [get_request ''a'' 1]\<rparr>"
  have s: "pool_step (Op_ready 0) ?p = Inr (?p\<lparr>queue := []\<rparr>, [P_execute 0 (get_request ''a'' 1)])"
    by (simp add: connection_ready_def next_event_def)
  from closed_pool[OF s] s show ?thesis by (auto simp: sample_main_def)
qed

text \<open>
  A pool closed while requests wait serves them: as connections report that they are ready, the queued
  requests go to them in order, and the next report ends every connection and calls the closed callback.
\<close>

theorem closed_pool_drains:
  assumes "closed p" and "length cs = length (queue p)"
  shows "ready_all (cs @ [c]) p = (p\<lparr>queue := []\<rparr>,
    map2 P_execute cs (queue p) @ map P_terminate (connections p) @
    (case closed_callback p of None \<Rightarrow> [] | Some k \<Rightarrow> [P_closed k]))"
  using assms by (rule closed_drains)

theorem closed_pool_drains_witness:
  "let p = sample_main\<lparr>closed := True, closed_callback := Some 9,
       queue := [get_request ''a'' 1, get_request ''b'' 2]\<rparr>
   in ready_all ([0, 0] @ [0]) p = (p\<lparr>queue := []\<rparr>,
     map2 P_execute [0, 0] (queue p) @ map P_terminate (connections p) @
     (case closed_callback p of None \<Rightarrow> [] | Some k \<Rightarrow> [P_closed k]))"
  unfolding Let_def by (rule closed_pool_drains) simp_all

text \<open>
  C36. A connection that breaks while it is idle stays among the idle connections, so the next request is handed
  to it; being terminated, the connection ignores the request, and no callback of the request is called.
\<close>

theorem dead_idle_connection_swallows_request:
  fixes c ec rcb ecb
  assumes "\<not> closed p" "queue p = []" "ready_connections p = []" "usable (co p)"
    and "[] \<notin> set (command_lists cmd)" and "fsm_state conn = Terminated"
  defines "broken \<equiv> fst (connection_terminated c
    (fst (pool_connection_error None ec (fst (connection_ready c p)))))"
  defines "evt \<equiv> \<lparr>buff = concat (map wire_command (command_lists cmd)), result_cb = rcb, error_cb = ecb\<rparr>"
  shows "get_connection new cmd rcb ecb broken =
      Inr (broken\<lparr>ready_connections := []\<rparr>, [P_execute c evt]) \<and>
    dispatch tr conn (Ev_execute evt) = Inr (conn, [])"
  unfolding broken_def evt_def
  using stale_ready[OF assms(1-3,5,4)] assms(6) by (simp add: dispatch_def)

theorem dead_idle_connection_swallows_request_witness:
  "let broken = fst (connection_terminated 0 (fst (pool_connection_error None
         (connection_error ''reset'') (fst (connection_ready 0 sample_main)))));
       evt = \<lparr>buff = wire_command [''PING''], result_cb = Some 1, error_cb = Some 2\<rparr>;
       conn = finish (new_connection no_callbacks)
   in get_connection 1 (Single \<lparr>arguments = [''PING'']\<rparr>) (Some 1) (Some 2) broken =
        Inr (broken\<lparr>ready_connections := []\<rparr>, [P_execute 0 evt]) \<and>
      dispatch tcp_transport conn (Ev_execute evt) = Inr (conn, [])"
  using dead_idle_connection_swallows_request[of sample_main "Single \<lparr>arguments = [''PING'']\<rparr>"
      "finish (new_connection no_callbacks)" 1 "Some 1" "Some 2" 0 "connection_error ''reset''" tcp_transport]
  by (simp add: Let_def sample_main_def usable_def pool_options_def finish_def)

text \<open>
  C29. The error callbacks that \<^verbatim>\<open>clear_queue\<close> calls from inside its loop. When they only return, every
  queued request is failed once, in the order of the queue, and the queue is empty. When one of them throws,
  the requests up to it have been failed, those behind it stay in the queue without an answer, and the
  exception leaves \<^verbatim>\<open>clear_queue\<close>.
\<close>

theorem clear_queue_callbacks:
  assumes "silent react qa"
  shows "(queue p = qa \<longrightarrow>
      clear_queue_calling react ec [] n p = Some (None, n, clear_queue ec p) \<and>
      clear_queue ec p = (p\<lparr>queue := []\<rparr>, map (\<lambda>cb. P_error cb ec) (List.map_filter error_cb qa))) \<and>
    (queue p = qa @ req # qb \<and> error_cb req = Some cb \<and> react cb = [Throw t] \<longrightarrow>
      clear_queue_calling react ec [] n p =
        Some (Some (Uncaught t), n, p\<lparr>queue := qb\<rparr>,
          map (\<lambda>cb. P_error cb ec) (List.map_filter error_cb (qa @ [req]))))"
  using clear_calling_silent[of react p ec n] clear_calling_throws[OF assms, of req cb t p qb ec n] assms
  by (auto simp: clear_queue_def clear_queue_loop_eq)

theorem clear_queue_callbacks_witness:
  "let p = sample_main\<lparr>queue := [sample_event 1, sample_event 2, sample_event 3]\<rparr>;
       react = (\<lambda>cb. if cb = 2 then [Throw Other_exception] else []);
       ec = connection_error ''reset''
   in clear_queue_calling react ec [] 5 p =
        Some (Some (Uncaught Other_exception), 5, p\<lparr>queue := [sample_event 3]\<rparr>, [P_error 1 ec, P_error 2 ec]) \<and>
      clear_queue_calling (\<lambda>_. []) ec [] 5 p =
        Some (None, 5, p\<lparr>queue := []\<rparr>, [P_error 1 ec, P_error 2 ec, P_error 3 ec])"
  using clear_queue_callbacks[of "\<lambda>cb. if cb = 2 then [Throw Other_exception] else []" "[sample_event 1]"
      "sample_main\<lparr>queue := [sample_event 1, sample_event 2, sample_event 3]\<rparr>" "connection_error ''reset''" 5
      "sample_event 2" "[sample_event 3]" 2 Other_exception]
    clear_queue_callbacks[of "\<lambda>_. []" "[sample_event 1, sample_event 2, sample_event 3]"
      "sample_main\<lparr>queue := [sample_event 1, sample_event 2, sample_event 3]\<rparr>" "connection_error ''reset''" 5
      undefined undefined undefined undefined]
  by (simp add: Let_def silent_def sample_event_def List.map_filter_simps)

text \<open>
  C30. An error callback that tries its request again hangs the pool: as long as the pool is open and no
  connection is idle, every new request goes to the queue that \<^verbatim>\<open>clear_queue\<close> is emptying, and the loop
  never ends.
\<close>

theorem retrying_callback_never_ends:
  assumes "\<not> closed p" "usable (co p)" "ready_connections p = []"
    and "req \<in> set (queue p)" "error_cb req = Some cb"
    and "react cb = [Request cmd res (Some cb)]" "[] \<notin> set (command_lists cmd)"
    and "\<And>cb'. cb' \<noteq> cb \<Longrightarrow> react cb' = []"
  shows "clear_queue_calling react ec [] n p = None"
proof (cases "clear_queue_calling react ec [] n p")
  case (Some r)
  from retry_diverges[OF this assms(7,6,8)] assms(1-5) show ?thesis by (auto simp: retrying_def)
qed

theorem retrying_callback_never_ends_witness:
  "clear_queue_calling (\<lambda>cb. if cb = 1 then [Request (Single incr) None (Some 1)] else [])
     (connection_error ''reset'') [] 5 (sample_main\<lparr>queue := [sample_event 1]\<rparr>) = None"
  by (rule retrying_callback_never_ends[where req = "sample_event 1" and cb = 1 and res = None
        and cmd = "Single incr"])
    (simp_all add: sample_main_def sample_event_def incr_def usable_def pool_options_def)

section \<open>Threads in a pool\<close>

text \<open>
  The operations of a pool as threads execute them, lock by lock and flag by flag, against the model that takes an
  operation as one step: a thread that is not disturbed has the same effect.
\<close>

theorem atomic_operations:
  "alone (start_point op) p = pool_step op p"
  by (rule alone_operation)

text \<open>
  C14. What \<^verbatim>\<open>close\<close> achieves among threads: once \<^verbatim>\<open>closed_\<close> is set, then in every interleaving from there the
  pool stays closed, and its connections with those that threads are about to add, its idle connections
  with those that threads are about to list, and its queued requests with those that threads hold only become
  fewer: a thread that had read the flag before may go on, and no other connection is made, none is listed and no
  other request is taken. A request that begins then is told so by its error callback at once.
\<close>

theorem closed_pool_among_threads:
  assumes "closed (the_pool s)" and "(threads_step N)\<^sup>*\<^sup>* s s'"
  shows "closed (the_pool s') \<and>
    mset (connections (the_pool s')) + all_threads N making (points s') \<subseteq>#
      mset (connections (the_pool s)) + all_threads N making (points s) \<and>
    mset (ready_connections (the_pool s')) + all_threads N listing (points s') \<subseteq>#
      mset (ready_connections (the_pool s)) + all_threads N listing (points s) \<and>
    mset (queue (the_pool s')) + all_threads N request_of (points s') \<subseteq>#
      mset (queue (the_pool s)) + all_threads N request_of (points s) \<and>
    point_step (Get_start conn cmd rcb (Some cb)) (the_pool s') =
      Inr (the_pool s', [P_error cb (connection_error ''Connection pool is closed'')], None)"
  using closed_threads[OF assms(2,1)] by simp

theorem closed_pool_among_threads_witness:
  "let p = sample_main\<lparr>closed := True\<rparr>;
       s = (quiet_pool p)\<lparr>points := (points (quiet_pool p))(0 := Some (New_push 7 (sample_event 1)))\<rparr>;
       s' = after_step 0 (New_push 7 (sample_event 1)) (p\<lparr>connections := [0, 7]\<rparr>) (Some (Enqueue (sample_event 1))) s
   in (threads_step 1)\<^sup>*\<^sup>* s s' \<and> mset (connections (the_pool s')) \<subseteq># mset (connections p) + {#7#}"
proof -
  let ?p = "sample_main\<lparr>closed := True\<rparr>"
  let ?s = "(quiet_pool ?p)\<lparr>points := (points (quiet_pool ?p))(0 := Some (New_push 7 (sample_event 1)))\<rparr>"
  let ?s' = "after_step 0 (New_push 7 (sample_event 1)) (?p\<lparr>connections := [0, 7]\<rparr>) (Some (Enqueue (sample_event 1))) ?s"
  have "threads_step 1 ?s ?s'"
    by (rule threads_step.moves) (simp_all add: quiet_pool_def may_step_def sample_main_def)
  then have "(threads_step 1)\<^sup>*\<^sup>* ?s ?s'" by (rule r_into_rtranclp)
  moreover have "closed (the_pool ?s)" by (simp add: quiet_pool_def)
  note closed_pool_among_threads[OF this calculation]
  ultimately show ?thesis
    by (simp add: Let_def all_threads_def after_step_def quiet_pool_def)
qed

text \<open>
  C15. What every interleaving of threads keeps: each accepted request is handed to one connection, failed,
  queued or held by one thread; and each time a connection reports that it is ready it gets one request at
  most, or is listed as idle, held by a thread, or let go by a closed pool.
\<close>

theorem threads_keep_accounts:
  assumes "threads_run N p0 s b" and "usable (co p0)" "length (connections p0) \<le> pool_size p0" "0 < N"
  shows "b_accepted b + mset (queue p0) = image_mset snd (b_handed b) + b_failed b +
      all_threads N request_of (points s) + mset (queue (the_pool s)) \<and>
    b_offered b + mset (ready_connections p0) = image_mset fst (b_handed b) + b_let_go b +
      all_threads N conn_of (points s) + mset (ready_connections (the_pool s))"
  using threads_run_inv[OF assms(1,2)] assms(3,4) by (simp add: threads_inv_def)

theorem threads_keep_accounts_witness:
  "\<exists>s b. take_turns 2 (lost_wakeup_turns (Op_ready 0) (Op_get 7 (Single \<lparr>arguments = [''PING'']\<rparr>) (Some 1) (Some 2)))
       (quiet_pool sample_main, empty_pool_book) = Some (s, b) \<and>
     b_accepted b = image_mset snd (b_handed b) + b_failed b + all_threads 2 request_of (points s) +
       mset (queue (the_pool s)) \<and> b_accepted b \<noteq> {#}"
proof -
  have m: "\<not> closed sample_main" "queue sample_main = []" "ready_connections sample_main = []"
    "pool_size sample_main \<le> length (connections sample_main)" "usable (co sample_main)"
    "length (connections sample_main) \<le> pool_size sample_main"
    by (simp_all add: sample_main_def usable_def pool_options_def)
  have "[] \<notin> set (command_lists (Single \<lparr>arguments = [''PING'']\<rparr>))" by simp
  note t = lost_wakeup_race[where c = 0 and new = 7 and rcb = "Some 1" and ecb = "Some 2", OF m(1-4) this]
  from threads_keep_accounts[OF turns_from_quiet[OF t] m(5,6)] t m(2) show ?thesis by auto
qed

text \<open>
  C21. Threads do not wait for each other forever: while some operation is under way, some thread may take a
  step, and every step, one that throws included, brings the threads nearer to the end of their operations.
\<close>

theorem threads_finish:
  assumes "threads_run N p0 s b" and "t < N" "points s t \<noteq> None"
  shows "(\<exists>u pt. u < N \<and> points s u = Some pt \<and> may_step u pt s) \<and>
    (\<forall>u pt. u < N \<longrightarrow> points s u = Some pt \<longrightarrow>
       (case point_step pt (the_pool s) of
          Inl f \<Rightarrow> work_left N (after_step u pt (the_pool s) None s) < work_left N s
        | Inr (p, out, next) \<Rightarrow> work_left N (after_step u pt p next s) < work_left N s))"
  using somebody_moves[OF assms] after_step_work after_throw_work by (auto split: sum.split)

theorem threads_finish_witness:
  "let s = (quiet_pool sample_main)\<lparr>points := (points (quiet_pool sample_main))(0 := Some (start_point (Op_ready 0)))\<rparr>
   in \<exists>u pt. u < 1 \<and> points s u = Some pt \<and> may_step u pt s"
proof -
  let ?s = "(quiet_pool sample_main)\<lparr>points := (points (quiet_pool sample_main))(0 := Some (start_point (Op_ready 0)))\<rparr>"
  have "threads_run 1 sample_main (quiet_pool sample_main) empty_pool_book"
    using threads_run.nobody[of 1 sample_main] by (simp add: quiet_pool_def)
  from threads_run.begins[OF this, of 0 "Op_ready 0"]
  have "\<exists>b. threads_run 1 sample_main ?s b" by (auto simp: quiet_pool_def)
  then obtain b where r: "threads_run 1 sample_main ?s b" ..
  have "points ?s 0 \<noteq> None" by simp
  from threads_finish[OF r _ this] show ?thesis by (simp add: Let_def)
qed

text \<open>
  C18. The size of a pool among threads. The check of the number of connections and the new entry are not one
  step: with \<open>N\<close> threads the connections stay below the pool's size plus \<open>N\<close>, and this bound is reached from
  every open pool with usable options that lacks one connection and has none idle. One thread alone keeps to the size.
\<close>

theorem pool_size_among_threads:
  assumes "usable (co p0)" "length (connections p0) \<le> pool_size p0" "0 < N"
  shows "(\<forall>s b. threads_run N p0 s b \<longrightarrow> length (connections (the_pool s)) < pool_size p0 + N) \<and>
    (\<not> closed p0 \<and> ready_connections p0 = [] \<and> Suc (length (connections p0)) = pool_size p0 \<longrightarrow>
      (\<exists>s b. threads_run N p0 s b \<and> Suc (length (connections (the_pool s))) = pool_size p0 + N))"
proof (intro conjI allI impI)
  show "length (connections (the_pool s)) < pool_size p0 + N" if "threads_run N p0 s b" for s b
    using threads_run_inv[OF that assms(1)] assms(2,3) by (simp add: threads_inv_def)
  assume p: "\<not> closed p0 \<and> ready_connections p0 = [] \<and> Suc (length (connections p0)) = pool_size p0"
  have "[] \<notin> set (command_lists (Single incr))" by (simp add: incr_def)
  from overshoot_race[where N = N and f = id and rcb = None and ecb = None, OF _ _ _ assms(1) this order_refl] p
  show "\<exists>s b. threads_run N p0 s b \<and> Suc (length (connections (the_pool s))) = pool_size p0 + N"
    by force
qed

theorem pool_size_among_threads_witness:
  "\<exists>s b. threads_run 3 (sample_main\<lparr>pool_size := 2\<rparr>) s b \<and> length (connections (the_pool s)) = 4"
proof -
  have "usable (co (sample_main\<lparr>pool_size := 2\<rparr>))" by (simp add: sample_main_def usable_def pool_options_def)
  from pool_size_among_threads[OF this, of 3] show ?thesis by (simp add: sample_main_def)
qed

text \<open>
  C19. Two races in a pool. While a connection reports that it is ready, another thread asks for a connection:
  in one interleaving the connection ends up listed as idle and the request queued behind it, with no thread
  active, although as whole operations, in either order, they give the request to the connection. And a
  request that was let in before the pool was closed can be queued after its last connection has ended: the
  closed callback has been called, and no operation but one of a connection, of which there is none, touches
  the queue again.
\<close>

theorem races_strand_requests:
  assumes "\<not> closed p" "queue p = []" "ready_connections p = []" "connections p = [c]" "pool_size p = 1"
    and "[] \<notin> set (command_lists cmd)"
  shows "(\<exists>b. threads_run 2 p (quiet_pool (p\<lparr>ready_connections := [c], queue := [event_of cmd rcb ecb]\<rparr>)) b) \<and>
    (\<exists>p1. pool_step (Op_ready c) p = Inr (p1, []) \<and>
       pool_step (Op_get new cmd rcb ecb) p1 = Inr (p, [P_execute c (event_of cmd rcb ecb)])) \<and>
    (\<exists>p2. pool_step (Op_get new cmd rcb ecb) p = Inr (p2, []) \<and>
       pool_step (Op_ready c) p2 = Inr (p, [P_execute c (event_of cmd rcb ecb)])) \<and>
    (let p' = p\<lparr>closed := True, closed_callback := cb, connections := [], queue := [event_of cmd rcb ecb]\<rparr> in
      (\<exists>b. threads_run 2 p (quiet_pool p') b) \<and>
      (\<forall>op p'' out. pool_step op p' = Inr (p'', out) \<and> (\<forall>c. op \<noteq> Op_ready c) \<and> (\<forall>x ec. op \<noteq> Op_error x ec) \<longrightarrow>
        queue p'' = [event_of cmd rcb ecb]))"
proof -
  have full: "pool_size p \<le> length (connections p)" using assms(4,5) by simp
  note one = turns_from_quiet[OF lost_wakeup_race[where c = c and new = new and rcb = rcb and ecb = ecb,
      OF assms(1-3) full assms(6)]]
  note two = turns_from_quiet[OF stranded_race[where new = new and rcb = rcb and ecb = ecb and cb = cb, OF assms]]
  note serial = serial_orders[where c = c and new = new and rcb = rcb and ecb = ecb, OF assms(1-3) full assms(6)]
  have "queue p'' = [event_of cmd rcb ecb]"
    if "pool_step op (p\<lparr>closed := True, closed_callback := cb, connections := [], queue := [event_of cmd rcb ecb]\<rparr>) =
        Inr (p'', out) \<and> (\<forall>c. op \<noteq> Op_ready c) \<and> (\<forall>x ec. op \<noteq> Op_error x ec)" for op p'' out
    using stranded_stays[of op _ p'' out] that by force
  with one two serial show ?thesis unfolding Let_def by blast
qed

theorem races_strand_requests_witness:
  "let cmd = Single \<lparr>arguments = [''PING'']\<rparr> in
     \<exists>b. threads_run 2 sample_main
       (quiet_pool (sample_main\<lparr>ready_connections := [0], queue := [event_of cmd (Some 1) (Some 2)]\<rparr>)) b"
  using races_strand_requests[where p = sample_main and c = 0 and cmd = "Single \<lparr>arguments = [''PING'']\<rparr>"
      and rcb = "Some 1" and ecb = "Some 2" and new = 7 and cb = None]
  by (simp add: Let_def sample_main_def)

section \<open>The service\<close>

text \<open>
  C26. In every reachable state of the service: while there is an implementation it is running; its
  aliases are in strictly ascending order, hence unique; each names a pool that exists, is open and carries
  that alias; and every pool that is not registered has been closed.
\<close>

theorem service_invariant:
  assumes "svc_run bx r"
  shows "(case fst r of
      None \<Rightarrow> \<forall>pid p. pools (snd r) pid = Some p \<longrightarrow> closed p
    | Some i \<Rightarrow>
        svc_state i = Svc_running \<and> sorted_wrt (<) (map fst (registry i)) \<and>
        (\<forall>al pid. (al, pid) \<in> set (registry i) \<longrightarrow>
           (\<exists>p. pools (snd r) pid = Some p \<and> pool_alias p = al \<and> \<not> closed p)) \<and>
        (\<forall>pid p. pools (snd r) pid = Some p \<longrightarrow> closed p \<or> (pool_alias p, pid) \<in> set (registry i)))"
proof -
  from svc_run_inv[OF assms] have "rd_inv r" .
  then show ?thesis
    by (cases "fst r") (auto simp: rd_inv_def impl_inv_def reg_wf_def pool_ok_def world_inv_def)
qed

theorem service_invariant_witness:
  "\<exists>i. fst sample_service = Some i \<and> svc_state i = Svc_running \<and>
     map fst (registry i) = [''aux'', ''main''] \<and> sorted_wrt (<) (map fst (registry i))"
  using service_invariant[OF sample_service_run] sample_service_pools(4) by auto

text \<open>
  C27. In every reachable state, executing a command with an argument on a registered alias succeeds: it
  goes to the first idle connection of the alias's pool, or else to the end of its queue, where a new
  connection is made if the pool has room. On an alias that is not registered it throws the
  \<^verbatim>\<open>connection_error\<close> that names it and changes no registration.
\<close>

theorem execute_reaches_pool:
  assumes "svc_run bx r" and "arguments cmd \<noteq> []"
  shows "case pool_of r al of
      None \<Rightarrow>
        fst (rd_execute al cmd res err r) =
          Inl (Thrown (connection_error (''Database alias '' @ [CHR 0x27] @ al @ [CHR 0x27] @ '' is not registered''))) \<and>
        pool_of (snd (rd_execute al cmd res err r)) = pool_of r
    | Some (pid, p) \<Rightarrow>
        \<exists>p' calls. rd_execute al cmd res err r =
          (Inr (map (Pair pid) calls), fst r,
           (snd r)\<lparr>pools := (pools (snd r))(pid := Some p'), next_conn := next_conn (snd r) + 1\<rparr>) \<and>
        (case ready_connections p of
           c # cs \<Rightarrow> calls = [P_execute c (request cmd res err)] \<and> p' = p\<lparr>ready_connections := cs\<rparr>
         | [] \<Rightarrow> queue p' = queue p @ [request cmd res err] \<and>
             calls = (if length (connections p) < pool_size p then [P_create (next_conn (snd r))] else []))"
proof (cases "pool_of r al")
  case None
  with execute_unknown[OF svc_run_inv[OF assms(1)] None] show ?thesis by (simp add: unregistered_def)
next
  case (Some x)
  then obtain pid p where x: "x = (pid, p)" "pool_of r al = Some (pid, p)" by (cases x) simp
  from svc_run_inv[OF assms(1)] x(2) assms(2) obtain p' calls where
    "rd_execute al cmd res err r = (Inr (map (Pair pid) calls), fst r,
       (snd r)\<lparr>pools := (pools (snd r))(pid := Some p'), next_conn := next_conn (snd r) + 1\<rparr>)" and
    "(\<exists>c cs. ready_connections p = c # cs \<and> calls = [P_execute c (request cmd res err)] \<and>
        p' = p\<lparr>ready_connections := cs\<rparr>) \<or>
     (ready_connections p = [] \<and> queue p' = queue p @ [request cmd res err] \<and>
        calls = (if length (connections p) < pool_size p then [P_create (next_conn (snd r))] else []))"
    by (rule execute_known)
  then have "\<exists>p' calls. rd_execute al cmd res err r =
          (Inr (map (Pair pid) calls), fst r,
           (snd r)\<lparr>pools := (pools (snd r))(pid := Some p'), next_conn := next_conn (snd r) + 1\<rparr>) \<and>
        (case ready_connections p of
           c # cs \<Rightarrow> calls = [P_execute c (request cmd res err)] \<and> p' = p\<lparr>ready_connections := cs\<rparr>
         | [] \<Rightarrow> queue p' = queue p @ [request cmd res err] \<and>
             calls = (if length (connections p) < pool_size p then [P_create (next_conn (snd r))] else []))"
    by (intro exI[of _ p'] exI[of _ calls]) (auto split: list.split)
  with x show ?thesis by simp
qed

theorem execute_reaches_pool_witness:
  "fst (rd_execute ''aux'' \<lparr>arguments = [''PING'']\<rparr> (Some 3) (Some 4) sample_service) =
     Inr [(1, P_execute 1 (request \<lparr>arguments = [''PING'']\<rparr> (Some 3) (Some 4)))] \<and>
   fst (rd_execute ''none'' \<lparr>arguments = [''PING'']\<rparr> (Some 3) (Some 4) sample_service) =
     Inl (Thrown (connection_error (''Database alias '' @ [CHR 0x27] @ ''none'' @ [CHR 0x27] @
       '' is not registered'')))"
  using execute_reaches_pool[OF sample_service_run, of "\<lparr>arguments = [''PING'']\<rparr>" "''aux''" "Some 3" "Some 4"]
    execute_reaches_pool[OF sample_service_run, of "\<lparr>arguments = [''PING'']\<rparr>" "''none''" "Some 3" "Some 4"]
  by (auto simp: sample_service_pools(2,3) sample_aux_def)

text \<open>
  Registering usable options under a new alias makes one pool with one connection, of the size asked
  for or else the default, under that alias, and leaves every other alias as it was. A known alias is left
  alone without a call, and options that have no address, no alias, an unknown scheme or the size zero are
  refused with a \<^verbatim>\<open>connection_error\<close> that changes no registration.
\<close>

theorem register_new_alias:
  assumes "svc_run bx r"
  shows "if pool_of r (conn_alias opts) = None \<and> uri opts \<noteq> [] \<and> conn_alias opts \<noteq> [] \<and> usable opts \<and>
      chosen_size n r \<noteq> 0
    then fst (rd_add_connection opts n r) = Inr [(next_pool (snd r), P_create (next_conn (snd r)))] \<and>
      pool_of (snd (rd_add_connection opts n r)) = (pool_of r)(conn_alias opts := Some (next_pool (snd r),
        \<lparr>pool_size = chosen_size n r, co = opts, connections = [next_conn (snd r)], ready_connections = [],
         queue = [], closed = False, closed_callback = None\<rparr>))
    else pool_of (snd (rd_add_connection opts n r)) = pool_of r \<and>
      (fst (rd_add_connection opts n r) = Inr [] \<or>
       (\<exists>m. fst (rd_add_connection opts n r) = Inl (Thrown (connection_error m))))"
proof (cases "pool_of r (conn_alias opts)")
  case None
  note inv = svc_run_inv[OF assms]
  show ?thesis using add_fresh[OF inv None] add_refused[OF inv None] None by auto
next
  case (Some q)
  then show ?thesis
    using add_known[OF svc_run_inv[OF assms]] add_no_uri[OF svc_run_inv[OF assms], of opts]
    by (cases q; cases "uri opts = []") auto
qed

theorem register_new_alias_witness:
  "fst (rd_add_connection (unix_options\<lparr>conn_alias := ''none''\<rparr>) None sample_service) =
     Inr [(next_pool (snd sample_service), P_create (next_conn (snd sample_service)))] \<and>
   pool_of (snd (rd_add_connection (pool_options\<lparr>uri := ''other:1''\<rparr>) (Some 9) sample_service)) =
     pool_of sample_service"
proof -
  have "chosen_size None sample_service \<noteq> 0" by code_simp
  then show ?thesis
    using register_new_alias[OF sample_service_run, of "unix_options\<lparr>conn_alias := ''none''\<rparr>" None]
      register_new_alias[OF sample_service_run, of "pool_options\<lparr>uri := ''other:1''\<rparr>" "Some 9"]
      sample_service_pools(1,3)
    by (simp add: unix_options_def usable_def pool_options_def)
qed

text \<open>
  Stopping the service closes every pool there is and forgets every alias, so that whatever is executed
  next is refused as not registered.
\<close>

theorem stop_closes_everything:
  assumes "svc_run bx r" and "rd_stop r = (out, r')"
  shows "(\<forall>pid p. pools (snd r') pid = Some p \<longrightarrow> closed p) \<and> pool_of r' al = None \<and>
    fst (rd_execute al cmd res err r') = Inl (unregistered al)"
  using stop_closes[OF svc_run_inv[OF assms(1)] assms(2)] stop_inv[OF svc_run_inv[OF assms(1)] assms(2)]
    execute_unknown[of r' al cmd res err] by simp

theorem stop_closes_everything_witness:
  "fst (rd_execute ''main'' default_command None None (snd (rd_stop sample_service))) = Inl (unregistered ''main'')"
  using stop_closes_everything[OF sample_service_run, of "fst (rd_stop sample_service)"
      "snd (rd_stop sample_service)" "''main''" default_command None None] by simp

text \<open>
  C37. The counter of \<^verbatim>\<open>stop\<close> counts calls and not pools. An idle pool calls the closed callback twice, once
  when it closes and once when its last connection ends; with two pools the service is stopped when the first of them
  is done, and with one the counter wraps around.
\<close>

theorem closed_callback_called_twice:
  assumes "\<not> closed p" "queue p = []" "connections p \<noteq> []"
    and "pool_close (Some k) p = (p1, out1)" "terminated_all (connections p1) p1 = (p2, out2)"
    and "pool_counts w k = of_nat n" "0 < n"
  defines "w' \<equiv> fold closed_lambda (closed_calls (out1 @ out2)) w"
  shows "closed_calls (out1 @ out2) = [k, k] \<and> pool_counts w' k = of_nat n - 2 \<and>
    (2 < n \<or> io_stopped w' k)"
proof -
  have calls: "closed_calls (out1 @ out2) = [k, k]" using idle_pool_calls[OF assms(1-5)] by blast
  then have w': "w' = (closed_lambda k ^^ 2) w" by (simp add: w'_def eval_nat_numeral)
  have "2 < n \<or> io_stopped w' k"
    using closed_lambda_stops[OF assms(6,7), of 2] by (cases "n \<le> 2") (auto simp: w')
  with calls closed_lambda_count[where m = 2 and k = k and w = w] assms(6) show ?thesis
    by (simp add: w')
qed

theorem closed_callback_called_twice_witness:
  "let p = sample_main\<lparr>closed := True, closed_callback := Some 5\<rparr>; w = initial_world\<lparr>pool_counts := (\<lambda>_. 1)\<rparr>;
       out = [P_terminate 0, P_closed 5] @ [P_closed 5]
   in closed_calls out = [5, 5] \<and> pool_counts (fold closed_lambda (closed_calls out) w) 5 = - 1"
proof -
  let ?p = "sample_main\<lparr>closed := True, closed_callback := Some 5\<rparr>"
  have "pool_close (Some 5) sample_main = (?p, [P_terminate 0, P_closed 5])"
    by (simp add: pool_close_idle sample_main_def)
  moreover have "terminated_all (connections ?p) ?p = (?p\<lparr>connections := []\<rparr>, [P_closed 5])"
    by (rule terminated_all_calls) (simp_all add: sample_main_def)
  ultimately show ?thesis
    using closed_callback_called_twice[of sample_main 5 ?p "[P_terminate 0, P_closed 5]"
        "?p\<lparr>connections := []\<rparr>" "[P_closed 5]" "initial_world\<lparr>pool_counts := (\<lambda>_. 1)\<rparr>" 1]
    by (simp add: Let_def sample_main_def)
qed

section \<open>Threads in the service\<close>

text \<open>
  The operations of the facade as threads execute them, against the model that takes an operation as one step:
  a thread that is not disturbed answers the same and leaves the memory that stands for the state after it.
\<close>

theorem facade_operations:
  assumes "svc_run bx r" and "stands m r" and "facade_op op"
  shows "fst (svc_alone bx (svc_start op) m) = map_sum Raised id (fst (svc_step bx op r)) \<and>
    stands (snd (svc_alone bx (svc_start op) m)) (snd (svc_step bx op r))"
  using svc_alone_operation[OF assms(2) svc_run_inv[OF assms(1)], of op bx] assms(3) by (cases op) simp_all

theorem facade_operations_witness:
  "fst (svc_alone ref_boost (svc_start S_stop) (mem_of sample_service)) = Inr (fst (rd_stop sample_service)) \<and>
   fst (svc_alone ref_boost (svc_start (S_execute ''none'' default_command None None)) (mem_of sample_service)) =
     Inl (Raised (unregistered ''none''))"
  using facade_operations[OF sample_service_run stands_mem_of, of S_stop]
    facade_operations[OF sample_service_run stands_mem_of, of "S_execute ''none'' default_command None None"]
    execute_unknown[OF svc_run_inv[OF sample_service_run] sample_service_pools(3), of default_command None None]
  by (cases "rd_stop sample_service") simp

text \<open>
  C16. What \<^verbatim>\<open>stop\<close> achieves among threads: once an implementation is not running, then in every interleaving
  from there it does not run again. The threads with a request that are past its check of \<^verbatim>\<open>state_\<close> only become
  fewer, as do the pools in its map together with the registrations that are past the check: a thread that had
  read the state before may go on, and everything else that reaches the implementation is told that the service is
  not running.
\<close>

theorem stopped_service_among_threads:
  assumes "svc_threads bx N s b" and "i_state (impls (mem s) i) \<noteq> Svc_running" "i < next_io (wld (mem s))"
    and "(svc_threads_step bx N)\<^sup>*\<^sup>* s s'"
  shows "i_state (impls (mem s') i) \<noteq> Svc_running \<and>
    all_threads N (asking i) (at_point s') \<le> all_threads N (asking i) (at_point s) \<and>
    size (pids_of (i_map (impls (mem s') i))) + all_threads N (registering i) (at_point s') \<le>
      size (pids_of (i_map (impls (mem s) i))) + all_threads N (registering i) (at_point s) \<and>
    svc_point_step bx (Str_state i str n) (mem s') = Inl not_running \<and>
    svc_point_step bx (Add_state i opts n) (mem s') = Inl not_running \<and>
    svc_point_step bx (Exec_state i al cmd res err) (mem s') = Inl not_running"
  using stopped_threads[OF assms(4,1-3)] by (simp add: winding_down_def pools_of_def)

theorem stopped_service_among_threads_witness:
  "\<exists>s s' b. svc_threads ref_boost 2 s b \<and> i_state (impls (mem s) 0) = Svc_closing \<and>
     (svc_threads_step ref_boost 2)\<^sup>*\<^sup>* s s' \<and> at_point s' 0 = None \<and> all_threads 2 (asking 0) (at_point s) = 1 \<and>
     all_threads 2 (asking 0) (at_point s') \<le> 1 \<and>
     svc_point_step ref_boost (Add_state 0 pool_options None) (mem s') = Inl not_running"
proof -
  obtain s b where s: "svc_threads ref_boost 2 s b" "i_state (impls (mem s) 0) = Svc_closing"
    "next_io (wld (mem s)) = 1" "i_map (impls (mem s) 0) = []" "svc_lock s = None"
    "at_point s 0 = Some (Exec_count 0 ''a'' (Single default_command) None None)" "at_point s 1 = None"
    by (rule sample_stopping)
  let ?pt = "Exec_count 0 ''a'' (Single default_command) None None"
  let ?s' = "after_go 0 ?pt (mem s) None s"
  have "svc_threads_step ref_boost 2 s ?s'"
    by (rule svc_threads_step.throws[OF _ s(6)]) (simp_all add: s(4) may_go_def)
  then have step: "(svc_threads_step ref_boost 2)\<^sup>*\<^sup>* s ?s'" by (rule r_into_rtranclp)
  have "all_threads 2 (asking 0) (at_point s) = 1"
    using s(6,7) by (simp add: all_threads_def numeral_2_eq_2)
  with stopped_service_among_threads[OF s(1) _ _ step, of 0] s(1-3) step show ?thesis
    by (intro exI[of _ s] exI[of _ ?s'] exI[of _ b]) simp
qed

text \<open>
  C17. What every interleaving of threads in the facade keeps. Each pool that was made is in one place: with
  a thread that is about to insert it, in the map of one implementation, refused because its alias had been
  taken meanwhile, or cleared by \<^verbatim>\<open>stop\<close>. A pool that was refused is open, and nothing closes it any more.
  Only the implementation in the facade is running; while it is, its aliases are unique and name open pools
  of their own, without null pointers. A closed pool was registered. \<^verbatim>\<open>stop\<close> throws nothing, and a null pool
  is called only by a request whose implementation was stopped after it had looked its alias up.
\<close>

theorem pools_among_threads:
  assumes "svc_threads bx N s b"
  shows "mset [0..<next_pool (wld (mem s))] =
      all_threads N held_at (at_point s) + registered (mem s) + b_refused b + b_cleared b \<and>
    (\<forall>pid. pid \<in># b_refused b \<longrightarrow> is_open (wld (mem s)) pid) \<and>
    (\<forall>i. i_state (impls (mem s) i) = Svc_running \<longrightarrow> cur (mem s) = Some i \<and>
       sorted_wrt (<) (map fst (i_map (impls (mem s) i))) \<and>
       (\<forall>al ptr. (al, ptr) \<in> set (i_map (impls (mem s) i)) \<longrightarrow>
          (\<exists>pid. ptr = Some pid \<and> has_pool (wld (mem s)) al pid \<and> is_open (wld (mem s)) pid))) \<and>
    (\<forall>pid p. pools (wld (mem s)) pid = Some p \<longrightarrow> closed p \<longrightarrow> pid \<in># b_cleared b \<or>
       (\<exists>i. i_state (impls (mem s) i) \<noteq> Svc_running \<and> pid \<in># pids_of (i_map (impls (mem s) i)))) \<and>
    (\<forall>t pt f. at_point s t = Some pt \<longrightarrow> svc_point_step bx pt (mem s) = Inl f \<longrightarrow> \<not> in_stop pt \<and>
       (f = Null_pool \<longrightarrow> (\<exists>i cmd res err. pt = Exec_call i None cmd res err \<and>
          i_state (impls (mem s) i) \<noteq> Svc_running)))"
proof -
  have inv: "impls_inv N s" "maps_inv s" using svc_threads_inv[OF assms] by auto
  note open_inv = svc_threads_open[OF assms, unfolded open_inv_def]
  have "cur (mem s) = Some i \<and> sorted_wrt (<) (map fst (i_map (impls (mem s) i))) \<and>
       (\<forall>al ptr. (al, ptr) \<in> set (i_map (impls (mem s) i)) \<longrightarrow>
          (\<exists>pid. ptr = Some pid \<and> has_pool (wld (mem s)) al pid \<and> is_open (wld (mem s)) pid))"
    if run: "i_state (impls (mem s) i) = Svc_running" for i
  proof (intro conjI allI impI)
    fix al ptr assume e: "(al, ptr) \<in> set (i_map (impls (mem s) i))"
    have "intact s i" using run by (simp add: intact_def)
    with maps_invD(4)[OF inv(2) this] e obtain pid where "ptr = Some pid" by (cases ptr) auto
    with e run maps_invD(3)[OF inv(2)] open_inv
    show "\<exists>pid. ptr = Some pid \<and> has_pool (wld (mem s)) al pid \<and> is_open (wld (mem s)) pid" by blast
  qed (use impls_invD(6)[OF inv(1) run] maps_invD(1)[OF inv(2)] in \<open>simp_all add: reg_wf_def\<close>)
  moreover have "\<not> in_stop pt \<and> (f = Null_pool \<longrightarrow> (\<exists>i cmd res err. pt = Exec_call i None cmd res err \<and>
          i_state (impls (mem s) i) \<noteq> Svc_running))"
    if "at_point s t = Some pt" "svc_point_step bx pt (mem s) = Inl f" for t pt f
    using svc_step_fault[OF inv that] by (auto simp: intact_def)
  ultimately show ?thesis
    using svc_threads_accounted[OF assms, unfolded pools_accounted_def] open_inv closed_pools[OF assms] by blast
qed

theorem pools_among_threads_witness:
  "mset [0..<2] = registered twice_registered + {#1#} \<and> is_open (wld twice_registered) 1 \<and>
     (\<exists>pid. (''main'', Some pid) \<in> set (i_map (impls twice_registered 0)) \<and> has_pool (wld twice_registered) ''main'' pid)"
proof -
  have "next_pool (wld twice_registered) = 2" "(''main'', Some 0) \<in> set (i_map (impls twice_registered 0))"
    "i_state (impls twice_registered 0) = Svc_running"
    by (simp_all add: twice_registered_def)
  with pools_among_threads[OF twice_registered_run, of ref_boost] show ?thesis
    by (auto simp: quiet_service_def)
qed

text \<open>
  No thread in the facade waits forever: while some operation is under way some thread may step, and every
  step, those that throw included, brings the threads nearer to the end of their operations.
\<close>

theorem service_threads_finish:
  assumes "svc_threads bx N s b" and "at_point s t = Some pt"
  shows "(\<exists>u pu. u < N \<and> at_point s u = Some pu \<and> may_go u pu s) \<and>
    (case svc_point_step bx pt (mem s) of
       Inl f \<Rightarrow> svc_work N (after_go t pt (mem s) None s) < svc_work N s
     | Inr (m, out, next) \<Rightarrow> svc_work N (after_go t pt m next s) < svc_work N s)"
proof -
  from svc_threads_inv[OF assms(1)] have inv: "impls_inv N s" ..
  from impls_invD(1)[OF inv assms(2)] have "t < N" ..
  then show ?thesis
    using somebody_goes[OF inv assms(2)] svc_work_step[OF _ assms(2)] svc_work_throw[OF _ assms(2)]
    by (auto split: sum.split)
qed

text \<open>
  C20. What breaks among threads of the facade. From any state of a running service: two threads that
  register one alias together make a pool with a connection each, and the second pool is open but not in the
  map. A registration that meets \<^verbatim>\<open>stop\<close> leaves an open pool with a
  connection in a service that is gone. A request whose alias was found when \<^verbatim>\<open>stop\<close> comes in between calls
  through a null pointer, and one that had only fetched the implementation is told that the service is not
  running. In all of these \<^verbatim>\<open>stop\<close> itself ends as it does alone.
\<close>

theorem service_races:
  assumes "svc_run bx (Some i, w)" and "stands m (Some i, w)"
    and "map_of (registry i) (conn_alias opts) = None" "map_of (registry i) al = Some pid"
    and "uri opts \<noteq> []" "conn_alias opts \<noteq> []" "usable opts" "n \<noteq> 0"
  shows "(\<exists>m' b'. svc_turns bx 2 (double_registration (S_add opts (Some n))) (quiet_service m, b, empty_log) =
        Some (quiet_service m', b',
          \<lparr>l_calls = [(next_pool w, P_create (next_conn w)), (Suc (next_pool w), P_create (Suc (next_conn w)))],
           l_faults = []\<rparr>) \<and>
        b_refused b' = add_mset (Suc (next_pool w)) (b_refused b) \<and> is_open (wld m') (Suc (next_pool w)) \<and>
        Suc (next_pool w) \<notin># pids_of (i_map (impls m' (io_svc i)))) \<and>
    (case redis_impl_stop (i, w) of ((i', w'), stop_calls) \<Rightarrow>
      (\<exists>k m' b'. svc_turns bx 2 (with_stop [Call 0 (S_add opts (Some n)), Go 0, Go 0, Go 0] k [Go 0, Go 0, Go 0])
          (quiet_service m, b, empty_log) =
        Some (quiet_service m', b', \<lparr>l_calls = stop_calls @ [(next_pool w', P_create (next_conn w'))], l_faults = []\<rparr>) \<and>
        cur m' = None \<and> is_open (wld m') (next_pool w')) \<and>
      (\<exists>k m' b'. svc_turns bx 2 (with_stop [Call 0 (S_execute al cmd res err), Go 0, Go 0, Go 0] k [Go 0, Go 0])
          (quiet_service m, b, empty_log) =
        Some (quiet_service m', b', \<lparr>l_calls = stop_calls, l_faults = [(0, Null_pool)]\<rparr>)) \<and>
      (\<exists>k m' b'. svc_turns bx 2 (with_stop [Call 0 (S_execute al cmd res err), Go 0] k [Go 0])
          (quiet_service m, b, empty_log) =
        Some (quiet_service m', b', \<lparr>l_calls = stop_calls, l_faults = [(0, not_running)]\<rparr>)))"
proof -
  from assms(1) have inv: "rd_inv (Some i, w)" by (rule svc_run_inv)
  have m: "holds m (i, w)" using assms(2) by simp
  obtain i' w' out where stop: "redis_impl_stop (i, w) = ((i', w'), out)" by (metis prod.exhaust)
  note reg = registration_meets_stop[OF m inv assms(3,5-8), of bx b, unfolded stop]
  have "\<exists>k m' b'. svc_turns bx 2 (with_stop [Call 0 (S_add opts (Some n)), Go 0, Go 0, Go 0] k [Go 0, Go 0, Go 0])
          (quiet_service m, b, empty_log) =
        Some (quiet_service m', b', \<lparr>l_calls = out @ [(next_pool w', P_create (next_conn w'))], l_faults = []\<rparr>) \<and>
        cur m' = None \<and> is_open (wld m') (next_pool w')"
    using reg by (fastforce simp: is_open_def new_pool_def)
  with registration_meets_registration[OF m inv assms(3,5-8), of bx b]
    request_meets_stop[OF m inv assms(4), of bx cmd res err b] fetched_meets_stop[OF m inv, of bx al cmd res err b]
  show ?thesis unfolding stop by (simp only: prod.case fst_conv snd_conv) blast
qed

theorem service_races_witness:
  "\<exists>k m' b' out. svc_turns ref_boost 2
     (with_stop [Call 0 (S_execute ''main'' default_command None None), Go 0, Go 0, Go 0] k [Go 0, Go 0])
     (quiet_service (mem_of sample_service), \<lparr>b_refused = {#}, b_cleared = {#}\<rparr>, empty_log) =
   Some (quiet_service m', b', \<lparr>l_calls = out, l_faults = [(0, Null_pool)]\<rparr>)"
proof -
  obtain i where i: "fst sample_service = Some i" "registry i = [(''aux'', 1), (''main'', 0)]"
    using sample_service_pools(4) by auto
  from i(1) have "sample_service = (Some i, snd sample_service)" by (metis prod.collapse)
  then obtain w where s: "sample_service = (Some i, w)" by blast
  note run = sample_service_run[unfolded s] and st = stands_mem_of[of sample_service, unfolded s]
  let ?o = "unix_options\<lparr>conn_alias := ''none''\<rparr>"
  have o: "map_of (registry i) (conn_alias ?o) = None" "map_of (registry i) ''main'' = Some 0" "uri ?o \<noteq> []"
    "conn_alias ?o \<noteq> []" "usable ?o" "(1 :: nat) \<noteq> 0"
    using i(2) by (simp_all add: unix_options_def usable_def)
  from service_races[OF run st o, of "\<lparr>b_refused = {#}, b_cleared = {#}\<rparr>" default_command None None] s show ?thesis
    by (auto split: prod.splits)
qed

section \<open>The composition\<close>

text \<open>
  C1. In every run of the whole program, whatever the interleaving, each request is in exactly one place:
  the requests that were taken are those whose callbacks were called, those that a connection dropped, and
  those pending in a pool, a connection or a call under way. No callback is called twice for one request,
  and when everything is at rest each request was answered or dropped. Requests carry both callbacks and
  are counted by their error callback.
\<close>

theorem requests_balance:
  assumes "sys_run bx env s l"
  shows "taken l = settled l + dropped l + pending s \<and> settled l \<subseteq># taken l \<and>
    (\<not> at_rest s \<or> taken l = settled l + dropped l)"
  using sys_run_balance[OF assms] at_rest_pending[of s] by auto

theorem requests_balance_witness:
  "\<exists>s l. sample_system = Some (s, l) \<and> taken l = {#11, 21, 31, 41#} \<and> settled l = {#11, 21#} \<and>
     dropped l = {#} \<and> pending s = {#31, 41#}"
proof -
  obtain s l where s: "sample_system = Some (s, l)" "taken l = {#11, 21, 31, 41#}" "settled l = {#11, 21#}"
    "dropped l = {#}" and r: "sys_run ref_boost reader_env s l" by (rule sample_system_run) blast
  from requests_balance[OF r] s have "{#11, 21#} + {#31, 41#} = {#11, 21#} + pending s"
    by (simp add: add_mset_commute)
  then have "pending s = {#31, 41#}" by (metis add_left_cancel)
  with s show ?thesis by blast
qed

text \<open>
  C2. One request through all components. The program is at rest, the pool of the alias lists an idle
  connection whose socket is connected, the user executes a command and the server's reply arrives whole:
  then the bytes of the command are written to that connection's socket, the result callback gets the value
  of the reply, or the error callback the text of an error reply, exactly this request is settled, the connection is idle again, last among the idle ones of
  its pool, nothing is under way, and no other connection or alias has changed. Six steps of fuel are enough
  for each of the two moves.
\<close>

theorem request_answered:
  assumes cast: "\<And>i. lexical_cast env (dec_int (sint i)) = Some i"
    and alloc: "\<And>n. n \<le> limit \<Longrightarrow> reserve_throws env n = None" "limit < 2 ^ 63"
    and run: "sys_run bx env s l" and still: "sys_advance env (s, l) = None"
    and pool: "pool_of (svc s) al = Some (pid, p)" "ready_connections p = c # cs"
    and conn: "conns s c = Some (pid, tr, cn)" "fsm_state cn = Idle" "connected tr (sock_open cn)"
    and cmd: "arguments cmd \<noteq> []"
    and reply: "case reply of Inl m \<Rightarrow> CR \<notin> set m | Inr r \<Rightarrow> wire_ok limit r"
      "length (reply_bytes reply) < 2 ^ 64" and fuel: "6 \<le> fuel"
  shows "\<exists>s'. sys_moves fuel bx env
      [M_api (S_execute al cmd (Some rc) (Some ec)), M_transfer c (St_read (reply_bytes reply))] (s, l) =
        Some (s', \<lparr>taken = taken l + {#ec#}, settled = settled l + {#ec#}, dropped = dropped l,
          written = written l @ [(c, wire_command (arguments cmd))],
          posted = posted l @ [case reply of Inl m \<Rightarrow> (ec, Inl m) | Inr r \<Rightarrow> (rc, Inr r)]\<rparr>) \<and>
    agenda s' = [] \<and>
    conns s' = (conns s)(c := Some (pid, tr, cn\<lparr>reading := False, read_left := 0\<rparr>)) \<and>
    pool_of (svc s') = (pool_of (svc s))(al := Some (pid, p\<lparr>ready_connections := cs @ [c]\<rparr>))"
proof -
  have "reads_as env reply" using cast alloc reply(1) by (rule reads_as_reply)
  moreover have "told rc ec reply = (case reply of Inl m \<Rightarrow> (ec, Inl m) | Inr r \<Rightarrow> (rc, Inr r))"
    by (cases reply) simp_all
  ultimately show ?thesis
    using request_answered_run[OF run still pool conn cmd _ reply(2) fuel, of rc ec] by fastforce
qed

theorem request_answered_witness:
  "\<exists>s l s' l' tr cn. sample_idle = Some (s, l) \<and>
     sys_moves 6 ref_boost reader_env
       [M_api (S_execute ''main'' \<lparr>arguments = [''GET'', ''k'']\<rparr> (Some 50) (Some 51)),
        M_transfer 0 (St_read (reply_bytes (Inr (String_t ''v''))))] (s, l) = Some (s', l') \<and>
     written l' = [(0, wire_command [''AUTH'', ''pw'']), (0, wire_command [''INCR'', ''k'']),
       (0, wire_command [''GET'', ''k''])] \<and>
     posted l' = [(10, Inr (Int_t 5)), (50, Inr (String_t ''v''))] \<and> conns s' 0 = Some (0, tr, cn) \<and> fsm_state cn = Idle"
proof -
  obtain s l p tr cn where s: "sample_idle = Some (s, l)" "sys_run ref_boost reader_env s l"
    "sys_advance reader_env (s, l) = None" "pool_of (svc s) ''main'' = Some (0, p)" "ready_connections p = [0]"
    "conns s 0 = Some (0, tr, cn)" "fsm_state cn = Idle" "connected tr (sock_open cn)"
    and l: "written l = [(0, wire_command [''AUTH'', ''pw'']), (0, wire_command [''INCR'', ''k''])]"
    "posted l = [(10, Inr (Int_t 5))]" by (rule sample_idle_still)
  have v: "length (reply_bytes (Inr (String_t ''v''))) < 2 ^ 64" by code_simp
  from request_answered[where cmd = "\<lparr>arguments = [''GET'', ''k'']\<rparr>" and reply = "Inr (String_t ''v'')" and fuel = 6
      and rc = 50 and ec = 51, OF ref.cast_dec ref.reserve_ok ref.limit_bound s(2-8) _ _ v]
  obtain s' where s': "sys_moves 6 ref_boost reader_env
      [M_api (S_execute ''main'' \<lparr>arguments = [''GET'', ''k'']\<rparr> (Some 50) (Some 51)),
       M_transfer 0 (St_read (reply_bytes (Inr (String_t ''v''))))] (s, l) =
        Some (s', \<lparr>taken = taken l + {#51#}, settled = settled l + {#51#}, dropped = dropped l,
          written = written l @ [(0, wire_command [''GET'', ''k''])], posted = posted l @ [(50, Inr (String_t ''v''))]\<rparr>)"
    "conns s' = (conns s)(0 := Some (0, tr, cn\<lparr>reading := False, read_left := 0\<rparr>))" by auto
  let ?cn = "cn\<lparr>reading := False, read_left := 0\<rparr>"
  have "conns s' 0 = Some (0, tr, ?cn) \<and> fsm_state ?cn = Idle" using s'(2) s(7) by simp
  with s(1) s'(1) l show ?thesis by fastforce
qed

text \<open>
  C3. Nothing that waits in a pool is forgotten. The program is at rest, a connection of the pool of an alias
  serves a request, and others wait in the queue of that pool. The server answers each with a value or an
  error, one reply a read: then the waiting requests are written to that connection's socket in the order
  of the queue, the n-th reply goes to the n-th of them (a value to its result callback, the text of
  an error to its error callback), each is settled once, the queue is empty, and the connection is
  idle and listed as such. No \<^verbatim>\<open>terminate\<close> waits at the connection, and the request it serves was written.
  Nine steps of fuel are enough for each reply.
\<close>

theorem waiting_requests_answered:
  assumes cast: "\<And>i. lexical_cast env (dec_int (sint i)) = Some i"
    and alloc: "\<And>n. n \<le> limit \<Longrightarrow> reserve_throws env n = None" "limit < 2 ^ 63"
    and run: "sys_run bx env s l" and still: "sys_advance env (s, l) = None"
    and pool: "pool_of (svc s) al = Some (pid, p)"
    and conn: "conns s c = Some (pid, tr, cn)" "fsm_state cn = Query" "connected tr (sock_open cn)" "deferred cn = []"
      "buff (cur_query cn) = []"
    and rs: "length rs = Suc (length (queue p))"
      "\<forall>reply \<in> set rs. (case reply of Inl m \<Rightarrow> CR \<notin> set m | Inr r \<Rightarrow> wire_ok limit r) \<and>
         length (reply_bytes reply) < 2 ^ 64"
    and fuel: "9 \<le> fuel"
  shows "\<exists>s'. sys_moves fuel bx env (map (\<lambda>reply. M_transfer c (St_read (reply_bytes reply))) rs) (s, l) =
      Some (s', l\<lparr>settled := settled l + mset (map error_of (cur_query cn # queue p)),
        written := written l @ map (\<lambda>e. (c, buff e)) (queue p),
        posted := posted l @ map2 (\<lambda>e reply. case reply of
            Inl m \<Rightarrow> (error_of e, Inl m)
          | Inr r \<Rightarrow> (the (result_cb e), Inr r)) (cur_query cn # queue p) rs\<rparr>) \<and>
    agenda s' = [] \<and>
    conns s' = (conns s)(c := Some (pid, tr,
      cn\<lparr>fsm_state := Idle, cur_query := empty_execute, reading := False, read_left := 0\<rparr>)) \<and>
    pool_of (svc s') = (pool_of (svc s))(al := Some (pid, p\<lparr>queue := [], ready_connections := ready_connections p @ [c]\<rparr>))"
proof -
  have reads: "\<forall>reply \<in> set rs. reads_as env reply \<and> length (reply_bytes reply) < 2 ^ 64"
    using rs(2) by (auto intro: reads_as_reply[OF cast alloc])
  have out: "outcome = (\<lambda>e reply. case reply of Inl m \<Rightarrow> (error_of e, Inl m) | Inr r \<Rightarrow> (the (result_cb e), Inr r))"
    by (intro ext) (auto simp: outcome_def split: sum.split)
  from drained_run[OF run still pool conn rs(1) reads fuel] show ?thesis
    unfolding out arrives_def idle_again_def by fastforce
qed

theorem waiting_requests_answered_witness:
  "\<exists>s l s' l'. sample_system = Some (s, l) \<and>
     sys_moves 9 ref_boost reader_env
       [M_transfer 0 (St_read (reply_bytes (Inr (Int_t 7)))), M_transfer 0 (St_read (reply_bytes (Inl ''NO'')))] (s, l) =
         Some (s', l') \<and>
     settled l' = {#11, 21, 31, 41#} \<and> written l' = written l @ [(0, wire_command [''INCR'', ''k''])] \<and>
     posted l' = posted l @ [(30, Inr (Int_t 7)), (41, Inl ''NO'')]"
proof -
  obtain s l p tr cn where s: "sample_system = Some (s, l)" and st: "sys_run ref_boost reader_env s l"
    "sys_advance reader_env (s, l) = None" "pool_of (svc s) ''main'' = Some (0, p)" "conns s 0 = Some (0, tr, cn)"
    "fsm_state cn = Query" "connected tr (sock_open cn)" "deferred cn = []" and l: "settled l = {#11, 21#}"
    "cur_query cn = \<lparr>buff = [], result_cb = Some 30, error_cb = Some 31\<rparr>"
    "queue p = [\<lparr>buff = wire_command [''INCR'', ''k''], result_cb = Some 40, error_cb = Some 41\<rparr>]"
    by (rule sample_waiting)
  let ?rs = "[Inr (Int_t 7), Inl ''NO''] :: reply list"
  have b: "buff (cur_query cn) = []" "length ?rs = Suc (length (queue p))" using l by simp_all
  have "length (reply_bytes (Inr (Int_t 7))) < 2 ^ 64" "length (reply_bytes (Inl ''NO'')) < 2 ^ 64"
    "CR \<notin> set ''NO''" by code_simp+
  then have "\<forall>reply \<in> set ?rs. (case reply of Inl m \<Rightarrow> CR \<notin> set m | Inr r \<Rightarrow> wire_ok max_elements r) \<and>
         length (reply_bytes reply) < 2 ^ 64"
    by simp
  from waiting_requests_answered[OF ref.cast_dec ref.reserve_ok ref.limit_bound st b this order_refl]
  show ?thesis using s l by (fastforce simp: error_of_def add_mset_commute)
qed

text \<open>
  C33. A reply that arrives in two reads is lost. The program is at rest and a connection serves a request. The
  first part of the reply is reported to the error callback of the request with the message of
  \<^verbatim>\<open>not_enough_data\<close> and dropped. What the second part meets depends on the queue of the pool. If no request waits there, the
  connection is idle and the second part faults it, whatever its bytes are read as: the table has no row for
  it, or the allocator throws. If one waits, it has been written in the meantime, and when the second part
  reads as a reply, that request is given it as its answer. No \<^verbatim>\<open>terminate\<close> waits at the connection, and the
  request it serves was written. Nine steps of fuel are enough for each part.
\<close>

theorem split_reply_is_an_error:
  assumes cast: "\<And>i. lexical_cast env (dec_int (sint i)) = Some i"
    and alloc: "\<And>n. n \<le> limit \<Longrightarrow> reserve_throws env n = None" "limit < 2 ^ 63"
    and run: "sys_run bx env s l" and still: "sys_advance env (s, l) = None"
    and pool: "pool_of (svc s) al = Some (pid, p)"
    and conn: "conns s c = Some (pid, tr, cn)" "fsm_state cn = Query" "connected tr (sock_open cn)" "deferred cn = []"
      "buff (cur_query cn) = []"
    and reply: "wire_ok limit r" "0 < j" "j < length (resp r)" "length (resp r) < 2 ^ 64" and fuel: "9 \<le> fuel"
  shows "\<exists>s1 l1. sys_moves fuel bx env [M_transfer c (St_read (take j (resp r)))] (s, l) = Some (s1, l1) \<and>
    l1 = l\<lparr>settled := settled l + {#error_of (cur_query cn)#},
      written := written l @ (case queue p of [] \<Rightarrow> [] | e # _ \<Rightarrow> [(c, buff e)]),
      posted := posted l @ [(error_of (cur_query cn), Inl (ec_message (make_error_code not_enough_data)))]\<rparr> \<and>
    (case queue p of
       [] \<Rightarrow> (\<exists>cn1. conns s1 c = Some (pid, tr, cn1) \<and> fsm_state cn1 = Idle) \<and>
         (\<exists>s2 s3 f. sys_transfer c (St_read (drop j (resp r))) (s1, l1) = Some (s2, l1) \<and>
            (s3 = s2 \<or> sys_advance env (s2, l1) = Some (Inr (s3, l1))) \<and> sys_advance env (s3, l1) = Some (Inl f) \<and>
            ((\<exists>t. f = Uncaught t) \<or> (\<exists>ev. f = No_transition Idle ev)))
     | e # _ \<Rightarrow> (\<forall>reply.
         read_step env (length (drop j (resp r))) (drop j (resp r)) = Inr (reply_event reply, 0, []) \<longrightarrow>
         (\<exists>s2 l2. sys_moves fuel bx env [M_transfer c (St_read (drop j (resp r)))] (s1, l1) = Some (s2, l2) \<and>
            posted l2 = posted l1 @ [case reply of
                Inl m \<Rightarrow> (error_of e, Inl m)
              | Inr v \<Rightarrow> (the (result_cb e), Inr v)])))"
proof -
  let ?a = "take j (resp r)" and ?b = "drop j (resp r)"
  have cut: "taken_for env ?a cut_off"
    using reply_reader.partial_step[OF reply_reader.intro[OF cast alloc] reply(1,3)] reply(2,3)
    by (auto simp: taken_for_def cut_off_def)
  have b: "?b \<noteq> []" "length ?a < 2 ^ 64" "length ?b < 2 ^ 64" using reply by simp_all
  have out: "outcome = (\<lambda>e reply. case reply of Inl m \<Rightarrow> (error_of e, Inl m) | Inr r \<Rightarrow> (the (result_cb e), Inr r))"
    by (intro ext) (auto simp: outcome_def split: sum.split)
  show ?thesis
  proof (rule split_reply[OF run still pool conn cut b fuel])
    fix s1 l1
    assume m: "sys_moves fuel bx env [M_transfer c (St_read ?a)] (s, l) = Some (s1, l1)"
      and l1: "l1 = l\<lparr>settled := settled l + {#error_of (cur_query cn)#}, written := written l @ next_written c (queue p),
        posted := posted l @ [outcome (cur_query cn) cut_off]\<rparr>"
      and cn1: "conns s1 = (conns s)(c := Some (pid, tr, goes_on (queue p) cn))"
      and idle: "queue p = [] \<Longrightarrow> \<exists>s2 s3 f. sys_transfer c (St_read ?b) (s1, l1) = Some (s2, l1) \<and>
        (s3 = s2 \<or> sys_advance env (s2, l1) = Some (Inr (s3, l1))) \<and> sys_advance env (s3, l1) = Some (Inl f) \<and>
        ((\<exists>t. f = Uncaught t) \<or> (\<exists>ev. f = No_transition Idle ev))"
      and wait: "\<And>e q reply. queue p = e # q \<Longrightarrow> taken_for env ?b reply \<Longrightarrow>
        \<exists>s2 l2. sys_moves fuel bx env [M_transfer c (St_read ?b)] (s1, l1) = Some (s2, l2) \<and>
          posted l2 = posted l1 @ [outcome e reply]"
    from m l1 cn1 idle wait b(1) show ?thesis
      by (intro exI[of _ s1] exI[of _ l1])
        (auto simp: next_written_def taken_for_def out cut_off_def split: list.split simp del: sys_moves.simps)
  qed
qed

theorem split_reply_is_an_error_witness:
  "(\<exists>s l s1 l1 s2 l2. sample_system = Some (s, l) \<and>
      sys_moves 9 ref_boost reader_env [M_transfer 0 (St_read (''$3'' @ crlf))] (s, l) = Some (s1, l1) \<and>
      sys_moves 9 ref_boost reader_env [M_transfer 0 (St_read (''+OK'' @ crlf))] (s1, l1) = Some (s2, l2) \<and>
      posted l2 = posted l @ [(31, Inl (ec_message (make_error_code not_enough_data))), (40, Inr (String_t ''OK''))]) \<and>
   (\<exists>s l s1 l1 s2 s3 f. sample_last = Some (s, l) \<and>
      sys_moves 9 ref_boost reader_env [M_transfer 0 (St_read (''$3'' @ crlf))] (s, l) = Some (s1, l1) \<and>
      sys_transfer 0 (St_read (''+OK'' @ crlf)) (s1, l1) = Some (s2, l1) \<and>
      (s3 = s2 \<or> sys_advance reader_env (s2, l1) = Some (Inr (s3, l1))) \<and>
      sys_advance reader_env (s3, l1) = Some (Inl f))"
proof -
  let ?r = "String_t ''+OK''"
  have r: "take 4 (resp ?r) = ''$3'' @ crlf" "drop 4 (resp ?r) = ''+OK'' @ crlf" "wire_ok max_elements ?r"
    "(0 :: nat) < 4" "4 < length (resp ?r)" "length (resp ?r) < 2 ^ 64" by code_simp+
  have ok: "read_step reader_env (length (''+OK'' @ crlf)) (''+OK'' @ crlf) = Inr (reply_event (Inr (String_t ''OK'')), 0, [])"
    by code_simp
  obtain s l p tr cn where s: "sample_system = Some (s, l)" and st: "sys_run ref_boost reader_env s l"
    "sys_advance reader_env (s, l) = None" "pool_of (svc s) ''main'' = Some (0, p)" "conns s 0 = Some (0, tr, cn)"
    "fsm_state cn = Query" "connected tr (sock_open cn)" "deferred cn = []" and q: "settled l = {#11, 21#}"
    "cur_query cn = \<lparr>buff = [], result_cb = Some 30, error_cb = Some 31\<rparr>"
    "queue p = [\<lparr>buff = wire_command [''INCR'', ''k''], result_cb = Some 40, error_cb = Some 41\<rparr>]"
    by (rule sample_waiting)
  have "buff (cur_query cn) = []" using q by simp
  note split = split_reply_is_an_error[OF ref.cast_dec ref.reserve_ok ref.limit_bound st this r(3-6) order_refl,
      unfolded r(1,2) q(2,3) list.case]
  have "\<exists>s1 l1 s2 l2.
      sys_moves 9 ref_boost reader_env [M_transfer 0 (St_read (''$3'' @ crlf))] (s, l) = Some (s1, l1) \<and>
      sys_moves 9 ref_boost reader_env [M_transfer 0 (St_read (''+OK'' @ crlf))] (s1, l1) = Some (s2, l2) \<and>
      posted l2 = posted l @ [(31, Inl (ec_message (make_error_code not_enough_data))), (40, Inr (String_t ''OK''))]"
  proof (rule exE[OF split], assumption, elim exE conjE, goal_cases)
    case (1 s1 l1)
    from 1(3)[rule_format, OF ok] obtain s2 l2 where
      "sys_moves 9 ref_boost reader_env [M_transfer 0 (St_read (''+OK'' @ crlf))] (s1, l1) = Some (s2, l2)"
      "posted l2 = posted l1 @ [(40, Inr (String_t ''OK''))]" unfolding sum.case execute_event.simps option.sel by blast
    moreover have "posted l1 = posted l @ [(31, Inl (ec_message (make_error_code not_enough_data)))]"
      unfolding 1(2) by (simp add: error_of_def)
    ultimately show ?case
      using 1(1) by (intro exI[of _ s1] exI[of _ l1] exI[of _ s2] exI[of _ l2] conjI) simp_all
  qed
  note one = this
  obtain t m p' tr' cn' where t: "sample_last = Some (t, m)" and st': "sys_run ref_boost reader_env t m"
    "sys_advance reader_env (t, m) = None" "pool_of (svc t) ''main'' = Some (0, p')" "conns t 0 = Some (0, tr', cn')"
    "fsm_state cn' = Query" "connected tr' (sock_open cn')" "deferred cn' = []" and q': "queue p' = []"
    "cur_query cn' = \<lparr>buff = [], result_cb = Some 40, error_cb = Some 41\<rparr>"
    by (rule sample_last)
  have "buff (cur_query cn') = []" using q' by simp
  note split = split_reply_is_an_error[OF ref.cast_dec ref.reserve_ok ref.limit_bound st' this r(3-6) order_refl,
      unfolded r(1,2) q' list.case]
  have "\<exists>s1 l1 s2 s3 f.
      sys_moves 9 ref_boost reader_env [M_transfer 0 (St_read (''$3'' @ crlf))] (t, m) = Some (s1, l1) \<and>
      sys_transfer 0 (St_read (''+OK'' @ crlf)) (s1, l1) = Some (s2, l1) \<and>
      (s3 = s2 \<or> sys_advance reader_env (s2, l1) = Some (Inr (s3, l1))) \<and>
      sys_advance reader_env (s3, l1) = Some (Inl f)"
    by (rule exE[OF split], assumption) (elim exE conjE, intro exI conjI; assumption)
  with one s t show ?thesis by blast
qed

text \<open>
  C4. In every run of the whole program a connection that serves a request is left alone: no other request
  is stored in it or on its way to it, no pool lists it as idle, and so the state machine never meets a
  second request in \<^verbatim>\<open>Query\<close>, for which it has no transition. No idle connection is listed twice.
\<close>

theorem busy_connection_left_alone:
  assumes "sys_run bx env s l" and "conns s c = Some (pid, tr, cn)" and "fsm_state cn = Query"
  shows "(\<forall>evt. Ev_execute evt \<notin> set (msg_queue cn @ deferred cn)) \<and>
    (\<forall>pid' evt. T_call pid' (P_execute c evt) \<notin> set (agenda s)) \<and>
    (\<forall>pid' p. pools (snd (svc s)) pid' = Some p \<longrightarrow>
       c \<notin> set (ready_connections p) \<and> distinct (ready_connections p)) \<and>
    (\<forall>e \<in> set (msg_queue cn @ deferred cn). \<forall>evt.
       dispatch tr cn e \<noteq> Inl (No_transition Query (Ev_execute evt)))"
proof (intro conjI allI impI ballI)
  note b = permission_bounds[OF assms(1)]
  note busy = busy_permits[OF assms(3) b(3)[OF assms(2)]]
  show "Ev_execute evt \<notin> set (msg_queue cn @ deferred cn)" for evt using busy by blast
  then show "dispatch tr cn e \<noteq> Inl (No_transition Query (Ev_execute evt))"
    if "e \<in> set (msg_queue cn @ deferred cn)" for e evt
    using that by (auto simp: dispatch_Inl_iff connect_transport_def Let_def split: if_splits sum.splits)
  show "T_call pid' (P_execute c evt) \<notin> set (agenda s)" for pid' evt
    using b(1)[OF assms(2), of "T_call pid' (P_execute c evt)"] busy by auto
  show "c \<notin> set (ready_connections p)" if "pools (snd (svc s)) pid' = Some p" for pid' p
  proof -
    from b(2)[OF that assms(2)] busy have "count (mset (ready_connections p)) c = 0" by simp
    then show ?thesis by (simp add: count_mset_0_iff)
  qed
  show "distinct (ready_connections p)" if "pools (snd (svc s)) pid' = Some p" for pid' p
    using b(4)[OF that] by (metis distinct_count_atmost_1 le_neq_implies_less less_one count_mset_0_iff count_mset)
qed

theorem busy_connection_left_alone_witness:
  "\<exists>s l pid tr cn p. sample_system = Some (s, l) \<and> conns s 0 = Some (pid, tr, cn) \<and> fsm_state cn = Query \<and>
     pools (snd (svc s)) 0 = Some p \<and> queue p \<noteq> [] \<and> 0 \<notin> set (ready_connections p)"
proof -
  obtain s l pid tr cn p where s: "sample_system = Some (s, l)" "conns s 0 = Some (pid, tr, cn)"
    "fsm_state cn = Query" "pools (snd (svc s)) 0 = Some p"
    "queue p = [\<lparr>buff = wire_command [''INCR'', ''k''], result_cb = Some 40, error_cb = Some 41\<rparr>]"
    and r: "sys_run ref_boost reader_env s l" by (rule sample_system_run) blast
  from busy_connection_left_alone[OF r s(2,3)] s show ?thesis by auto
qed

text \<open>
  C5. No wakeup is lost: in every run of the whole program, when no call is under way, a connection of an
  open pool that is idle with nothing stored is listed as idle by its own pool, and no request waits in
  that pool's queue.
\<close>

theorem no_lost_wakeup:
  assumes "sys_run bx env s l" and "agenda s = []"
    and "conns s c = Some (pid, tr, cn)" "fsm_state cn = Idle" "msg_queue cn = []" "deferred cn = []"
    and "pools (snd (svc s)) pid = Some p" "\<not> closed p"
  shows "c \<in> set (ready_connections p) \<and> queue p = []"
proof -
  from idle_listed[OF assms] have c: "c \<in> set (ready_connections p)" .
  moreover have "pool_inv p" using sys_inv_pool[OF sys_run_inv[OF assms(1)] assms(7)] by simp
  ultimately show ?thesis by (auto simp: pool_inv_def)
qed

theorem no_lost_wakeup_witness:
  "\<exists>s l p. sample_idle = Some (s, l) \<and> pools (snd (svc s)) 0 = Some p \<and> 0 \<in> set (ready_connections p)"
proof -
  obtain s l tr cn p where s: "sample_idle = Some (s, l)" "pools (snd (svc s)) 0 = Some p"
    and r: "sys_run ref_boost reader_env s l" "agenda s = []" "conns s 0 = Some (0, tr, cn)"
    "fsm_state cn = Idle" "msg_queue cn = []" "deferred cn = []" "\<not> closed p"
    by (rule sample_idle_run) blast
  from no_lost_wakeup[OF r(1-6) s(2) r(7)] s show ?thesis by blast
qed

text \<open>
  Seen from one connection a run of the whole program is a run of that connection with the callbacks of a
  pool, and seen from the service it is a run of the service, so that what was shown of these alone holds
  in the composition.
\<close>

theorem composition_of_components:
  assumes "sys_run bx env s l"
  shows "svc_run bx (svc s) \<and>
    (\<forall>c pid tr cn. conns s c = Some (pid, tr, cn) \<longrightarrow>
       (\<exists>ls. conn_run tr env pool_callbacks ls cn) \<and> pools (snd (svc s)) pid \<noteq> None)"
  using sys_run_parts[OF assms] sys_invD(3)[OF sys_run_inv[OF assms]] unfolding conns_run_def by blast

theorem composition_of_components_witness:
  "\<exists>s l pid tr cn. sample_system = Some (s, l) \<and> conns s 0 = Some (pid, tr, cn) \<and> svc_run ref_boost (svc s) \<and>
     (\<exists>ls. conn_run tr reader_env pool_callbacks ls cn)"
proof -
  obtain s l pid tr cn p where s: "sample_system = Some (s, l)" "conns s 0 = Some (pid, tr, cn)"
    and r: "sys_run ref_boost reader_env s l" by (rule sample_system_run) blast
  from composition_of_components[OF r] s show ?thesis by blast
qed

text \<open>
  C6. The components call each other as they may. In every run of the whole program, a call of a pool that
  is under way goes to a connection of that very pool, and an action comes from a connection whose pool
  exists. Whatever a connection takes up next, the event at the head of its queue, any deferred one that its state
  does not defer, or another round of the read loop, it faults for two reasons only: the allocator throws for an array
  that the server announced, or Asio or the server raises an event in a state that has no row for it, one of the seven
  pairs of \<^const>\<open>unheard\<close>. So options are taken once and suit the transport, and no \<^verbatim>\<open>execute\<close> and no \<^verbatim>\<open>terminate\<close>
  faults.
\<close>

theorem faults_come_from_outside:
  assumes "sys_run bx env s l"
  shows "(\<forall>t \<in> set (agenda s). case t of
        T_call pid (P_execute c evt) \<Rightarrow> \<exists>tr cn. conns s c = Some (pid, tr, cn)
      | T_call pid (P_terminate c) \<Rightarrow> \<exists>tr cn. conns s c = Some (pid, tr, cn)
      | T_call pid (P_create c) \<Rightarrow> False
      | T_call pid _ \<Rightarrow> True
      | T_action c a \<Rightarrow> \<exists>pid tr cn p. conns s c = Some (pid, tr, cn) \<and> pools (snd (svc s)) pid = Some p) \<and>
    (\<forall>c pid tr cn f. conns s c = Some (pid, tr, cn) \<longrightarrow> conn_fault tr env cn f \<longrightarrow>
      (\<exists>st e. f = No_transition st e \<and> unheard st e) \<or>
      (\<exists>n t. f = Uncaught t \<and> n < 2 ^ 63 \<and> reserve_throws env n = Some t))"
proof (intro conjI ballI allI impI)
  note inv = sys_run_inv[OF assms]
  show "case t of
        T_call pid (P_execute c evt) \<Rightarrow> \<exists>tr cn. conns s c = Some (pid, tr, cn)
      | T_call pid (P_terminate c) \<Rightarrow> \<exists>tr cn. conns s c = Some (pid, tr, cn)
      | T_call pid (P_create c) \<Rightarrow> False
      | T_call pid _ \<Rightarrow> True
      | T_action c a \<Rightarrow> \<exists>pid tr cn p. conns s c = Some (pid, tr, cn) \<and> pools (snd (svc s)) pid = Some p"
    if "t \<in> set (agenda s)" for t
    using sys_invD(5)[OF inv that] sys_invD(3)[OF inv]
    by (cases "(owned s, t)" rule: task_ok.cases) (fastforce simp: owned_def)+
  show "(\<exists>st e. f = No_transition st e \<and> unheard st e) \<or>
      (\<exists>n t. f = Uncaught t \<and> n < 2 ^ 63 \<and> reserve_throws env n = Some t)"
    if "conns s c = Some (pid, tr, cn)" "conn_fault tr env cn f" for c pid tr cn f
    using composition_faults[OF assms that] by (auto simp: from_outside_def)
qed

theorem faults_come_from_outside_witness:
  "\<exists>s l c pid tr cn. sys_run ref_boost reader_env s l \<and> conns s c = Some (pid, tr, cn) \<and>
     conn_fault tr reader_env cn (No_transition Idle (Ev_recv (String_t ''OK''))) \<and>
     unheard Idle (Ev_recv (String_t ''OK''))"
proof -
  let ?f = "No_transition Idle (Ev_recv (String_t ''OK''))"
  have stopped: "(case r of Inl f \<Rightarrow> Some f | Inr _ \<Rightarrow> None) = Some f \<longleftrightarrow> r = Inl f" for r :: "fault + system \<times> ledger" and f
    by (cases r) auto
  have go_on: "(case r of Inl f \<Rightarrow> None | Inr sl \<Rightarrow> g sl) = Some x \<longleftrightarrow> (\<exists>sl. r = Inr sl \<and> g sl = Some x)"
    for r :: "fault + system \<times> ledger" and g and x :: "fault + system \<times> ledger" by (cases r) auto
  have "Option.bind sample_idle (\<lambda>sl. Option.bind (sys_transfer 0 (St_read (''+OK'' @ crlf)) sl) (\<lambda>sl.
      Option.bind (sys_advance reader_env sl) (\<lambda>r.
      Option.bind (case r of Inl f \<Rightarrow> None | Inr sl \<Rightarrow> sys_advance reader_env sl) (\<lambda>r.
      case r of Inl f \<Rightarrow> Some f | Inr _ \<Rightarrow> None)))) = Some ?f"
    by code_simp
  then obtain s l s2 l2 s3 l3 where t: "sample_idle = Some (s, l)"
    "sys_transfer 0 (St_read (''+OK'' @ crlf)) (s, l) = Some (s2, l2)"
    "sys_advance reader_env (s2, l2) = Some (Inr (s3, l3))" "sys_advance reader_env (s3, l3) = Some (Inl ?f)"
    by (auto simp: bind_eq_Some_conv stopped go_on)
  have "sys_run ref_boost reader_env s l"
    using t(1) sys_moves_run[OF _ sys_run.start] by (simp only: sample_idle_def)
  from sys_advance_run[OF t(3) sys_transfer_run[OF t(2) this]] have run: "sys_run ref_boost reader_env s3 l3" .
  from t(4) obtain c pid tr cn where c: "conns s3 c = Some (pid, tr, cn)" "conn_fault tr reader_env cn ?f"
    by (rule sys_advance_fault)
  with faults_come_from_outside[OF run] have "unheard Idle (Ev_recv (String_t ''OK''))" by blast
  with run c show ?thesis by blast
qed

text \<open>
  C7. The whole program comes to rest: between two actions of the user or of Asio no schedule of calls and
  of stored events goes on forever, and each can be continued to a state in which nothing is under way and
  every connection is at rest or has met a fault. The executable schedule is one of them: some fuel is
  enough for it, unless it meets a fault. Callbacks of the user that call back are actions of the user.
\<close>

theorem composition_comes_to_rest:
  assumes "sys_run bx env s l"
  shows "\<not> (\<exists>f. f 0 = s \<and> (\<forall>i. inner_step env (f i) (f (Suc i)))) \<and>
    (\<exists>s'. (inner_step env)\<^sup>*\<^sup>* s s' \<and> stopped env s') \<and>
    ((\<exists>fuel s' l'. sys_settle fuel env (s, l) = Some (s', l')) \<or>
     (\<exists>s' l' f. (inner_step env)\<^sup>*\<^sup>* s s' \<and> sys_advance env (s', l') = Some (Inl f)))"
  using inner_steps_end[of bx env _ l] inner_steps_stop[OF assms] sys_settle_enough[OF assms] assms by blast

theorem composition_comes_to_rest_witness:
  "\<exists>s l s'. sample_system = Some (s, l) \<and> (inner_step reader_env)\<^sup>*\<^sup>* s s' \<and> stopped reader_env s'"
proof -
  obtain s l where s: "sample_system = Some (s, l)" and r: "sys_run ref_boost reader_env s l"
    by (rule sample_system_run) blast
  from composition_comes_to_rest[OF r] s show ?thesis by blast
qed

section \<open>Connection strings and transports\<close>

text \<open>
  C40. A string with a password and a database number is read back into exactly these parts. When
  parameters follow, the database is wrong: it takes the parameters in.
\<close>

theorem options_roundtrip:
  assumes "CHR ''='' \<notin> set al" "al \<noteq> []" "CHR '':'' \<notin> set sc" "sc \<noteq> []"
    and "CHR ''@'' \<notin> set pw" "h \<noteq> []" "CHR ''?'' \<notin> set h" "db < 2 ^ 31"
  shows "options_parse bx (al @ ''='' @ sc @ ''://'' @ pw @ ''@'' @ h @ ''/'' @ dec_nat db) =
      Inr (default_options\<lparr>conn_alias := al, schema := sc, password := pw, database := dec_nat db, uri := h\<rparr>) \<and>
    (CHR ''/'' \<notin> set ps \<and> CHR ''?'' \<notin> set ps \<longrightarrow>
      split_path (h @ ''/'' @ dec_nat db @ ''?'' @ ps) opts =
        Inr (ps, opts\<lparr>database := dec_nat db @ ''?'' @ ps, uri := h\<rparr>))"
  using split_uri_auth[OF assms(1-5), of "h @ ''/'' @ dec_nat db" default_options]
    split_path_db[OF assms(6,8,7)] split_path_db_params[OF assms(6,8)]
  by (simp add: options_parse_def connect_string_parse_def set_auth_opts_def parse_parameters_def
      default_options_def)

theorem options_roundtrip_witness:
  "options_parse ref_boost ''main=tcp://pw@localhost:6379/2'' =
     Inr (default_options\<lparr>conn_alias := ''main'', schema := ''tcp'', password := ''pw'', database := ''2'',
       uri := ''localhost:6379''\<rparr>) \<and>
   split_path ''localhost:6379/2?keep_alive=true'' default_options =
     Inr (''keep_alive=true'', default_options\<lparr>database := ''2?keep_alive=true'', uri := ''localhost:6379''\<rparr>)"
proof -
  have d: "dec_nat 2 = ''2''" by code_simp
  show ?thesis
    using options_roundtrip[of "''main''" "''tcp''" "''pw''" "''localhost:6379''" 2 ref_boost
        "''keep_alive=true''" default_options]
    by (simp add: d)
qed

text \<open>
  The parameters of a string set the keep-alive flag and the two timeouts, in milliseconds. The
  hypotheses are the documented behaviour of \<^verbatim>\<open>boost::split\<close> on a text without empty separators and of
  \<^verbatim>\<open>boost::to_lower_copy\<close> on two words.
\<close>

theorem options_parameters:
  assumes split: "\<And>parts sep. parts \<noteq> [] \<Longrightarrow> (\<And>p. p \<in> set parts \<Longrightarrow> sep \<notin> set p) \<Longrightarrow>
      split_any bx (join sep parts) sep = parts"
    and lower: "to_lower_copy bx ''true'' = ''true''" "to_lower_copy bx ''false'' = ''false''"
    and "CHR ''='' \<notin> set al" "al \<noteq> []" "CHR '':'' \<notin> set sc" "sc \<noteq> []"
    and "h \<noteq> []" "CHR ''/'' \<notin> set h" "CHR ''@'' \<notin> set h" "n < 2 ^ 64" "m < 2 ^ 64"
  shows "options_parse bx (al @ ''='' @ sc @ ''://'' @ h @ ''?'' @ parameter_text b n m) =
    Inr (default_options\<lparr>conn_alias := al, schema := sc, uri := h, keep_alive := b,
      connect_timeout := of_nat n, socket_timeout := 1000 * of_nat m\<rparr>)"
proof -
  have free: "CHR ''/'' \<notin> set (parameter_text b n m)" "CHR ''?'' \<notin> set (parameter_text b n m)"
    "CHR ''@'' \<notin> set (parameter_text b n m)"
    by (auto simp: parameter_text_def dec_nat_free)
  with assms(10) have at: "CHR ''@'' \<notin> set (h @ ''?'' @ parameter_text b n m)" by simp
  from split_uri_no_auth[OF assms(4-7) at, of default_options]
    split_path_params[OF assms(8,9) free(1,2)]
    boost_strings.parameters[OF boost_strings.intro[OF split lower] assms(11,12)]
  show ?thesis
    by (simp add: options_parse_def connect_string_parse_def set_auth_opts_def default_options_def)
qed

theorem options_parameters_witness:
  "options_parse ref_boost (''a=tcp://h?'' @ parameter_text True 250 3) =
     Inr (default_options\<lparr>conn_alias := ''a'', schema := ''tcp'', uri := ''h'', keep_alive := True,
       connect_timeout := of_nat 250, socket_timeout := 1000 * of_nat 3\<rparr>)"
  using options_parameters[OF ref_boost.split_join ref_boost.lower_ascii,
      of "''a''" "''tcp''" "''h''" 250 3 True] by simp

text \<open>
  From a connection string to a connection: whatever the string, parsing it either throws a
  \<^verbatim>\<open>connection_error\<close> or gives options with an alias, a scheme and an address. From these a connection is
  made for the schemes \<^verbatim>\<open>tcp\<close> and \<^verbatim>\<open>unix\<close> only, with the transport of the scheme, and that transport takes
  them: plugging the connection in starts one connect request and cannot fail.
\<close>

theorem connection_creation:
  "case options_parse bx str of
     Inl e \<Rightarrow> \<exists>m. e = connection_error m
   | Inr opts \<Rightarrow>
       conn_alias opts \<noteq> [] \<and> schema opts \<noteq> [] \<and> uri opts \<noteq> [] \<and>
       (case connection_create opts cbs of
          Inl e \<Rightarrow> schema opts \<notin> {''tcp'', ''unix''} \<and>
            e = connection_error (''Schema '' @ schema opts @ '' is unsupported'')
        | Inr (tr, c) \<Rightarrow> schema opts \<in> {''tcp'', ''unix''} \<and> msg_queue c = [Ev_options opts] \<and>
            (\<exists>req. connect_async tr opts = Inr req \<and>
              dispatch tr (c\<lparr>msg_queue := []\<rparr>) (Ev_options opts) =
                Inr (c\<lparr>msg_queue := [], conn_opts := opts, fsm_state := Connecting\<rparr>, [Out_connect req])))"
proof (cases "options_parse bx str")
  case (Inl e)
  with parse_Inl[OF Inl] show ?thesis by (auto simp: is_connection_error_def)
next
  case (Inr opts)
  with parse_Inr[OF Inr] creation_plugs[of opts cbs] show ?thesis by simp
qed

end
